(* ===== verification/Prelude.thy ===== *)
theory Prelude
  imports Main "HOL-Library.Word"
begin

text \<open>
  Shared vocabulary of the development: the machine integer types of the Rust sources, the
  saturating and checked arithmetic of the Rust standard library, bit tests written as the
  sources write them, little-endian field access, and the generic facts on lists and words
  that the component theories use.

  The kernel is compiled for \<^verbatim>\<open>i686-retro-none\<close> with optimisation on (\<^verbatim>\<open>.bazelrc\<close>: \<^verbatim>\<open>-c opt\<close>),
  so the plain operators wrap around: \<open>+\<close>, \<open>-\<close> and \<open>*\<close> on \<open>word\<close> are exactly the code's.
  Array indices, lengths and line numbers that the code keeps below a constant bound are \<open>nat\<close>.
\<close>

unbundle bit_operations_syntax

section \<open>Machine integers\<close>

type_synonym u8 = "8 word"
type_synonym u16 = "16 word"
type_synonym u32 = "32 word"
type_synonym u64 = "64 word"

text \<open>\<open>usize\<close> on the 32-bit kernel target, where a counter of that type can wrap.\<close>
type_synonym usize = "32 word"

named_theorems rust_arith \<open>unfoldings of the standard library arithmetic\<close>
named_theorems bit_tests \<open>mask tests as single-bit facts\<close>

definition saturating_sub :: "'a::len word \<Rightarrow> 'a word \<Rightarrow> 'a word" where
  "saturating_sub a b = (if a < b then 0 else a - b)"

definition saturating_add :: "'a::len word \<Rightarrow> 'a word \<Rightarrow> 'a word" where
  "saturating_add a b = (if unat a + unat b < 2 ^ LENGTH('a) then a + b else - 1)"

definition saturating_mul :: "'a::len word \<Rightarrow> 'a word \<Rightarrow> 'a word" where
  "saturating_mul a b = (if unat a * unat b < 2 ^ LENGTH('a) then a * b else - 1)"

definition checked_add :: "'a::len word \<Rightarrow> 'a word \<Rightarrow> 'a word option" where
  "checked_add a b = (if unat a + unat b < 2 ^ LENGTH('a) then Some (a + b) else None)"

definition checked_sub :: "'a::len word \<Rightarrow> 'a word \<Rightarrow> 'a word option" where
  "checked_sub a b = (if a < b then None else Some (a - b))"

definition checked_mul :: "'a::len word \<Rightarrow> 'a word \<Rightarrow> 'a word option" where
  "checked_mul a b = (if unat a * unat b < 2 ^ LENGTH('a) then Some (a * b) else None)"

text \<open>For evaluation, the same tests on binary integers.\<close>

lemma less_exp_int: "n < 2 ^ k \<longleftrightarrow> int n < 2 ^ k"
  by (metis of_nat_less_iff of_nat_numeral of_nat_power)

lemma saturating_arith_code [code]:
  "saturating_add a b = (if uint a + uint b < 2 ^ LENGTH('a) then a + b else - 1)"
  "saturating_mul a b = (if uint a * uint b < 2 ^ LENGTH('a) then a * b else - 1)"
  "checked_add a b = (if uint a + uint b < 2 ^ LENGTH('a) then Some (a + b) else None)"
  "checked_mul a b = (if uint a * uint b < 2 ^ LENGTH('a) then Some (a * b) else None)"
  for a b :: "'a::len word"
proof -
  show "saturating_add a b = (if uint a + uint b < 2 ^ LENGTH('a) then a + b else - 1)"
    "saturating_mul a b = (if uint a * uint b < 2 ^ LENGTH('a) then a * b else - 1)"
    "checked_add a b = (if uint a + uint b < 2 ^ LENGTH('a) then Some (a + b) else None)"
    "checked_mul a b = (if uint a * uint b < 2 ^ LENGTH('a) then Some (a * b) else None)"
    by (simp_all add: saturating_add_def saturating_mul_def checked_add_def checked_mul_def less_exp_int)
qed

definition div_ceil :: "nat \<Rightarrow> nat \<Rightarrow> nat" where
  "div_ceil a b = (if a mod b = 0 then a div b else Suc (a div b))"

lemma unat_minus_one_word_max [simp]: "unat (- 1 :: 'a::len word) = 2 ^ LENGTH('a) - 1"
  by (simp add: unsigned_minus_1_eq_mask mask_eq_exp_minus_1)

lemma unat_u64_less: "unat (x :: u64) < 18446744073709551616"
  and unat_u32_less: "unat (y :: u32) < 4294967296"
  and unat_u16_less: "unat (z :: u16) < 65536"
  and unat_u8_less: "unat (w :: u8) < 256"
  using unsigned_less [of x] unsigned_less [of y] unsigned_less [of z] unsigned_less [of w] by simp_all

lemma unat_ucast_widen:
  "LENGTH('a) \<le> LENGTH('b) \<Longrightarrow> unat (ucast (x :: 'a::len word) :: 'b::len word) = unat x"
proof -
  assume "LENGTH('a) \<le> LENGTH('b)"
  then have "(2 :: nat) ^ LENGTH('a) \<le> 2 ^ LENGTH('b)" by simp
  then have "unat x < 2 ^ LENGTH('b)" using unsigned_less [of x] by (rule order_less_le_trans [rotated])
  then show ?thesis by (simp add: unsigned_ucast_eq take_bit_nat_eq_self)
qed

lemma unat_of_nat_small: "m < 2 ^ LENGTH('a) \<Longrightarrow> unat (of_nat m :: 'a::len word) = m"
  by (simp add: unsigned_of_nat take_bit_nat_eq_self)

lemma nat_diff_mult_div: "0 < d \<Longrightarrow> (a - k * d) div d = a div d - (k :: nat)"
proof (cases "k * d \<le> a")
  case True
  assume "0 < d"
  obtain r where "a = k * d + r" using True by (metis le_add_diff_inverse)
  with \<open>0 < d\<close> show ?thesis by simp
next
  case False
  assume "0 < d"
  then have "a div d < k" using False by (simp add: div_less_iff_less_mult)
  with False show ?thesis by simp
qed

lemma unat_Suc_less: "x < y \<Longrightarrow> unat (x + 1) = Suc (unat (x :: 'a::len word))"
proof -
  assume "x < y"
  then have "Suc (unat x) \<le> unat y" by (simp add: word_less_nat_alt)
  also have "unat y < 2 ^ LENGTH('a)" by (rule unsigned_less)
  finally show ?thesis by (simp add: unat_word_ariths)
qed

lemma unat_saturating_sub [rust_arith]: "unat (saturating_sub a b) = unat a - unat b"
  by (simp add: saturating_sub_def word_less_nat_alt unat_sub_if')

lemma unat_saturating_add [rust_arith]:
  "unat (saturating_add a (b :: 'a::len word)) = min (unat a + unat b) (2 ^ LENGTH('a) - 1)"
proof (cases "unat a + unat b < 2 ^ LENGTH('a)")
  case True
  then have "unat (a + b) = unat a + unat b" by (rule unat_add_lem [THEN iffD1])
  with True show ?thesis by (simp add: saturating_add_def)
qed (simp add: saturating_add_def)

lemma unat_saturating_mul [rust_arith]:
  "unat (saturating_mul a (b :: 'a::len word)) = min (unat a * unat b) (2 ^ LENGTH('a) - 1)"
proof (cases "unat a * unat b < 2 ^ LENGTH('a)")
  case True
  then have "unat (a * b) = unat a * unat b" by (rule unat_mult_lem [THEN iffD1])
  with True show ?thesis by (simp add: saturating_mul_def)
qed (simp add: saturating_mul_def)

lemma checked_add_Some [rust_arith]:
  "checked_add a b = Some c \<longleftrightarrow> unat c = unat a + unat (b :: 'a::len word)"
proof
  assume "checked_add a b = Some c"
  then show "unat c = unat a + unat b"
    by (auto simp: checked_add_def unat_add_lem split: if_splits)
next
  assume c: "unat c = unat a + unat b"
  then have lt: "unat a + unat b < 2 ^ LENGTH('a)"
    by (metis unsigned_less)
  then have "c = a + b"
    using c by (simp add: unat_add_lem word_unat_eq_iff)
  with lt show "checked_add a b = Some c" by (simp add: checked_add_def)
qed

lemma checked_sub_Some [rust_arith]:
  "checked_sub a b = Some c \<longleftrightarrow> unat b \<le> unat a \<and> c = a - b"
  by (auto simp: checked_sub_def word_less_nat_alt)

lemma checked_mul_SomeD:
  "checked_mul a b = Some c \<Longrightarrow> unat c = unat a * unat (b :: 'a::len word)"
  by (auto simp: checked_mul_def unat_mult_lem split: if_splits)

lemma div_ceil_le_iff: "0 < b \<Longrightarrow> div_ceil a b \<le> n \<longleftrightarrow> a \<le> n * b"
proof -
  assume b: "0 < b"
  have e: "a = a div b * b + a mod b" by simp
  show ?thesis
  proof (cases "a mod b = 0")
    case True
    then have "a = a div b * b" using e by simp
    then show ?thesis using b True
      by (metis div_ceil_def div_le_mono div_mult_self_is_m mult.commute mult_le_mono1)
  next
    case False
    then have "Suc (a div b) \<le> n \<longleftrightarrow> a div b < n" by auto
    also have "\<dots> \<longleftrightarrow> a < n * b" using b by (simp add: div_less_iff_less_mult)
    also have "\<dots> \<longleftrightarrow> a \<le> n * b"
      using False by (metis le_less mod_mult_self2_is_0)
    finally show ?thesis using False by (simp add: div_ceil_def)
  qed
qed

lemma div_ceil_covers: "0 < b \<Longrightarrow> a \<le> div_ceil a b * b"
  using div_ceil_le_iff [of b a "div_ceil a b"] by simp

section \<open>Bit tests\<close>

text \<open>The sources test a bit as \<^verbatim>\<open>x & (1 << i) != 0\<close>.\<close>

definition test_mask :: "'a::len word \<Rightarrow> nat \<Rightarrow> bool" where
  "test_mask x i \<longleftrightarrow> x AND push_bit i 1 \<noteq> 0"

definition set_mask :: "'a::len word \<Rightarrow> nat \<Rightarrow> 'a word" where
  "set_mask x i = x OR push_bit i 1"

definition clear_mask :: "'a::len word \<Rightarrow> nat \<Rightarrow> 'a word" where
  "clear_mask x i = x AND NOT (push_bit i 1)"

lemma bit_two_exp:
  "bit ((2 :: 'a::len word) ^ i) j \<longleftrightarrow> i = j \<and> j < LENGTH('a)"
  by (auto simp: bit_exp_iff possible_bit_word)

lemma test_mask_bit [bit_tests]: "test_mask x i \<longleftrightarrow> bit (x :: 'a::len word) i"
proof
  assume "test_mask x i"
  then obtain j where "bit (x AND push_bit i 1) j"
    unfolding test_mask_def by (metis bit_eq_iff bit_0_eq bot_apply bot_bool_def)
  then show "bit x i" by (auto simp: bit_and_iff bit_two_exp)
next
  assume b: "bit x i"
  then have "bit (x AND push_bit i 1) i" by (auto simp: bit_and_iff bit_two_exp dest: bit_imp_le_length)
  then show "test_mask x i" unfolding test_mask_def by (metis bit_0_eq bot_apply bot_bool_def)
qed

lemma bit_set_mask [bit_tests]:
  "bit (set_mask x i) j \<longleftrightarrow> bit (x :: 'a::len word) j \<or> (i = j \<and> j < LENGTH('a))"
  by (auto simp: set_mask_def bit_or_iff bit_two_exp)

lemma bit_clear_mask [bit_tests]:
  "bit (clear_mask x i) j \<longleftrightarrow> bit (x :: 'a::len word) j \<and> i \<noteq> j"
  by (auto simp: clear_mask_def bit_and_iff bit_not_iff bit_two_exp dest: bit_imp_le_length)

text \<open>\<^verbatim>\<open>trailing_zeros\<close>: the number of clear bits below the lowest set one, the width for zero.\<close>

definition trailing_zeros :: "'a::len word \<Rightarrow> nat" where
  "trailing_zeros x = length (takeWhile (\<lambda>i. \<not> bit x i) [0..<LENGTH('a)])"

lemma trailing_zeros_eq:
  assumes "x \<noteq> (0 :: 'a::len word)"
  shows "trailing_zeros x = i \<longleftrightarrow> bit x i \<and> (\<forall>j<i. \<not> bit x j)"
proof -
  let ?t = "takeWhile (\<lambda>i. \<not> bit x i) [0..<LENGTH('a)]"
  have "\<exists>j<LENGTH('a). bit x j"
    using assms by (metis bit_eq_iff bit_imp_le_length bit_0_eq bot_apply bot_bool_def)
  then have lt: "length ?t < LENGTH('a)"
    using length_takeWhile_le [of "\<lambda>i. \<not> bit x i" "[0..<LENGTH('a)]"] takeWhile_eq_all_conv [of "\<lambda>i. \<not> bit x i" "[0..<LENGTH('a)]"]
      takeWhile_dropWhile_id [of "\<lambda>i. \<not> bit x i" "[0..<LENGTH('a)]"]
    by (metis append.right_neutral atLeastLessThan_upt atLeastLessThan_iff diff_zero dropWhile_eq_Nil_conv
        le_neq_implies_less length_0_conv length_append length_upt add_cancel_right_right zero_le)
  have hit: "bit x (length ?t)"
    using nth_length_takeWhile [of "\<lambda>i. \<not> bit x i" "[0..<LENGTH('a)]"] lt by simp
  have below: "\<not> bit x j" if "j < length ?t" for j
    using takeWhile_nth [OF that] nth_mem [OF that] set_takeWhileD [of "?t ! j" "\<lambda>i. \<not> bit x i" "[0..<LENGTH('a)]"] that lt
    by simp
  show ?thesis
    unfolding trailing_zeros_def using hit below by (metis linorder_neqE_nat)
qed

text \<open>\<open>from_le_bytes\<close> of the integer types.\<close>
definition from_le_bytes :: "u8 list \<Rightarrow> 'a::len word" where
  "from_le_bytes bs = foldr (\<lambda>b w. push_bit 8 w OR ucast b) bs 0"

definition bytes_slice :: "'a list \<Rightarrow> nat \<Rightarrow> nat \<Rightarrow> 'a list" where
  "bytes_slice xs a b = take (b - a) (drop a xs)"

text \<open>Bytes of a 16-bit register.\<close>

definition lo8 :: "u16 \<Rightarrow> u8" where "lo8 v = ucast v"
definition hi8 :: "u16 \<Rightarrow> u8" where "hi8 v = ucast (drop_bit 8 v)"

lemma join_bytes [simp]: "push_bit 8 (ucast (hi8 v)) OR ucast (lo8 v) = (v :: u16)"
  by (rule bit_word_eqI) (auto simp: lo8_def hi8_def bit_simps)

lemma lo8_join [simp]: "lo8 (push_bit 8 (ucast (h :: u8)) OR ucast l) = l"
  by (rule bit_word_eqI) (auto simp: lo8_def bit_simps)

lemma hi8_join [simp]: "hi8 (push_bit 8 (ucast h) OR ucast (l :: u8)) = h"
  by (rule bit_word_eqI, auto simp: hi8_def bit_simps) (drule bit_imp_le_length, simp)

lemma butlast_upt_nat: "butlast [i..<j] = [i..<j - 1]"
  by (cases j) auto

section \<open>Lists with a fixed number of slots\<close>

text \<open>The first index of a list that satisfies a test, as the \<^verbatim>\<open>for i in 0..N\<close> scans find it.\<close>

fun find_index :: "('a \<Rightarrow> bool) \<Rightarrow> 'a list \<Rightarrow> nat option" where
  "find_index P [] = None"
| "find_index P (x # xs) = (if P x then Some 0 else map_option Suc (find_index P xs))"

lemma find_index_Some:
  "find_index P xs = Some i \<longleftrightarrow> i < length xs \<and> P (xs ! i) \<and> (\<forall>j<i. \<not> P (xs ! j))"
proof (induction xs arbitrary: i)
  case Nil
  then show ?case by simp
next
  case (Cons x xs)
  then show ?case
    by (cases i) (auto simp: less_Suc_eq_0_disj All_less_Suc2)
qed

lemma find_index_None: "find_index P xs = None \<longleftrightarrow> (\<forall>x\<in>set xs. \<not> P x)"
  by (induction xs) auto

lemma take_Suc_update: "i < length xs \<Longrightarrow> take (Suc i) (xs[i := x]) = take i xs @ [x]"
  by (simp add: take_Suc_conv_app_nth)

text \<open>Rounding up to a page.\<close>

lemma unat_round_page:
  assumes "unat (s :: u32) + 0xFFF < 2 ^ 32"
  shows "unat ((s + 0xFFF) AND NOT 0xFFF) = (unat s + 0xFFF) div 4096 * 4096"
proof -
  have t: "unat (s + 0xFFF) = unat s + 0xFFF" using assms by (simp add: unat_word_ariths)
  have m: "(0xFFF :: u32) = mask 12" by (simp add: mask_eq_exp_minus_1)
  have "(s + 0xFFF) AND NOT 0xFFF = push_bit 12 (drop_bit 12 (s + 0xFFF))"
    unfolding m by (rule bit_word_eqI) (auto simp: bit_simps)
  then have "unat ((s + 0xFFF) AND NOT 0xFFF) = take_bit 32 (push_bit 12 (drop_bit 12 (unat s + 0xFFF)))"
    using assms by (simp only: unsigned_push_bit_eq unsigned_drop_bit_eq t) (simp add: take_bit_nat_eq_self)
  moreover have "(unat s + 0xFFF) div 4096 * 4096 < 2 ^ 32" using assms div_times_less_eq_dividend le_less_trans by blast
  ultimately show ?thesis by (simp add: push_bit_eq_mult drop_bit_eq_div take_bit_eq_mod)
qed

end
