(* ===== verification/Elf.thy ===== *)
theory Elf
  imports Prelude
begin

text \<open>
  Executables: the ELF parser (\<^verbatim>\<open>lib/src/elf.rs\<close>) and the loader over it (\<^verbatim>\<open>kernel/src/kernel/elf.rs\<close>).  A file is
  its list of bytes, shorter than \<open>2 ^ 31\<close>; offsets and sizes are \<open>usize\<close>, so the checks of the code wrap
  as the code's do.  A panic, and a read through a raw pointer outside the file, is \<open>None\<close>.  The machine the loader
  writes to is a record of the operations it calls.
\<close>

section \<open>The file header\<close>

datatype elf_class = Elf32 | Elf64

datatype elf_error = InvalidMagic | InvalidClass | InvalidEndian | InvalidType | InvalidMachine | OutOfMemory

definition ELF_MAGIC :: u32 where "ELF_MAGIC = 0x464C457F"
definition PT_LOAD :: u32 where "PT_LOAD = 1"
definition PT_DYNAMIC :: u32 where "PT_DYNAMIC = 2"
definition PT_INTERP :: u32 where "PT_INTERP = 3"
definition PF_EXEC :: u32 where "PF_EXEC = 1"
definition PF_WRITE :: u32 where "PF_WRITE = 2"

record elf =
  elf_file :: "u8 list"
  elf_class :: elf_class

definition field :: "u8 list \<Rightarrow> nat \<Rightarrow> nat \<Rightarrow> 'a::len word" where
  "field d at n = from_le_bytes (bytes_slice d at (at + n))"

text \<open>A \<open>u64\<close> field cast to \<open>usize\<close>.\<close>
definition field64 :: "u8 list \<Rightarrow> nat \<Rightarrow> usize" where
  "field64 d at = ucast (field d at 8 :: u64)"

definition file_len :: "u8 list \<Rightarrow> usize" where
  "file_len d = of_nat (length d)"

fun header_size :: "elf_class \<Rightarrow> nat" where
  "header_size Elf32 = 52" |
  "header_size Elf64 = 64"

definition elf_parse :: "u8 list \<Rightarrow> elf_error + elf" where
  "elf_parse d =
     (if length d < 16 then Inl InvalidMagic
      else if field d 0 4 \<noteq> ELF_MAGIC then Inl InvalidMagic
      else if d ! 5 \<noteq> 1 then Inl InvalidEndian
      else if d ! 4 \<noteq> 1 \<and> d ! 4 \<noteq> 2 then Inl InvalidClass
      else let c = (if d ! 4 = 1 then Elf32 else Elf64)
      in if length d < header_size c then Inl InvalidMagic
      else let typ = field d 16 2 :: u16; machine = field d 18 2 :: u16
      in if typ \<noteq> 2 \<and> typ \<noteq> 3 then Inl InvalidType
      else if machine \<noteq> (case c of Elf32 \<Rightarrow> 3 | Elf64 \<Rightarrow> 0x3E) then Inl InvalidMachine
      else Inr \<lparr>elf_file = d, elf_class = c\<rparr>)"

definition elf_entry :: "elf \<Rightarrow> u64" where
  "elf_entry e = (case elf_class e of Elf32 \<Rightarrow> ucast (field (elf_file e) 24 4 :: u32) | Elf64 \<Rightarrow> field (elf_file e) 24 8)"

definition elf_type :: "elf \<Rightarrow> u16" where
  "elf_type e = field (elf_file e) 16 2"

definition ph_table :: "elf \<Rightarrow> usize \<times> usize \<times> usize" where
  "ph_table e = (let d = elf_file e in case elf_class e of
     Elf32 \<Rightarrow> (field d 28 4, ucast (field d 42 2 :: u16), ucast (field d 44 2 :: u16))
   | Elf64 \<Rightarrow> (field64 d 32, ucast (field d 54 2 :: u16), ucast (field d 56 2 :: u16)))"

section \<open>Program headers\<close>

record program_header =
  ph_typ :: u32
  ph_flags :: u32
  ph_off :: usize
  ph_vaddr :: usize
  ph_paddr :: usize
  ph_filesz :: usize
  ph_memsz :: usize

fun ph_size :: "elf_class \<Rightarrow> nat" where
  "ph_size Elf32 = 32" |
  "ph_size Elf64 = 56"

fun ph_fields :: "elf_class \<Rightarrow> u8 list \<Rightarrow> nat \<Rightarrow> program_header" where
  "ph_fields Elf32 d a = \<lparr>ph_typ = field d a 4, ph_flags = field d (a + 24) 4, ph_off = field d (a + 4) 4, ph_vaddr = field d (a + 8) 4,
     ph_paddr = field d (a + 12) 4, ph_filesz = field d (a + 16) 4, ph_memsz = field d (a + 20) 4\<rparr>" |
  "ph_fields Elf64 d a = \<lparr>ph_typ = field d a 4, ph_flags = field d (a + 4) 4, ph_off = field64 d (a + 8), ph_vaddr = field64 d (a + 16),
     ph_paddr = field64 d (a + 24), ph_filesz = field64 d (a + 32), ph_memsz = field64 d (a + 40)\<rparr>"

text \<open>Entry \<open>i\<close> of the table: nothing when the bound check skips it, \<open>None\<close> when it is read outside the file.\<close>
definition program_header_at :: "elf \<Rightarrow> nat \<Rightarrow> program_header option option" where
  "program_header_at e i =
     (let (offset, sz, count) = ph_table e;
          ph_start = offset + of_nat i * sz; n = ph_size (elf_class e)
      in if file_len (elf_file e) < ph_start + of_nat n then Some None
      else if length (elf_file e) < unat ph_start + n then None
      else Some (Some (ph_fields (elf_class e) (elf_file e) (unat ph_start))))"

text \<open>Evaluation compares as \<open>int\<close>.\<close>
lemma program_header_at_code [code]:
  "program_header_at e i =
     (let (offset, sz, count) = ph_table e;
          ph_start = offset + of_nat i * sz; n = ph_size (elf_class e)
      in if file_len (elf_file e) < ph_start + of_nat n then Some None
      else if int (length (elf_file e)) < uint ph_start + int n then None
      else Some (Some (ph_fields (elf_class e) (elf_file e) (unat ph_start))))"
proof -
  have "int l < uint w + int n \<longleftrightarrow> l < unat w + n" for l n and w :: usize
    by (metis of_nat_add of_nat_less_iff uint_nat)
  then show ?thesis by (simp only: program_header_at_def)
qed

definition ph_count :: "elf \<Rightarrow> nat" where
  "ph_count e = (let (offset, sz, count) = ph_table e in unat count)"

text \<open>\<open>&data[off..off + filesz]\<close>, which panics when the range is not inside the file.\<close>
definition file_slice :: "u8 list \<Rightarrow> usize \<Rightarrow> usize \<Rightarrow> u8 list option" where
  "file_slice d a b = (if a \<le> b \<and> unat b \<le> length d then Some (bytes_slice d (unat a) (unat b)) else None)"

fun dynamic_from :: "elf \<Rightarrow> nat list \<Rightarrow> (usize \<times> usize) option option" where
  "dynamic_from e [] = Some None" |
  "dynamic_from e (i # is) = (case program_header_at e i of
     None \<Rightarrow> None
   | Some None \<Rightarrow> dynamic_from e is
   | Some (Some ph) \<Rightarrow> if ph_typ ph = PT_DYNAMIC then Some (Some (ph_vaddr ph, ph_memsz ph)) else dynamic_from e is)"

definition dynamic :: "elf \<Rightarrow> (usize \<times> usize) option option" where
  "dynamic e = dynamic_from e [0..<ph_count e]"

definition strip_nuls :: "u8 list \<Rightarrow> u8 list" where
  "strip_nuls s = rev (dropWhile (\<lambda>b. b = 0) (rev s))"

fun interp_from :: "elf \<Rightarrow> nat list \<Rightarrow> u8 list option option" where
  "interp_from e [] = Some None" |
  "interp_from e (i # is) = (case program_header_at e i of
     None \<Rightarrow> None
   | Some None \<Rightarrow> interp_from e is
   | Some (Some ph) \<Rightarrow>
       if ph_typ ph = PT_INTERP \<and> 0 < ph_filesz ph \<and> ph_off ph + ph_filesz ph \<le> file_len (elf_file e)
       then map_option (\<lambda>s. Some (strip_nuls s)) (file_slice (elf_file e) (ph_off ph) (ph_off ph + ph_filesz ph))
       else interp_from e is)"

definition interp :: "elf \<Rightarrow> u8 list option option" where
  "interp e = interp_from e [0..<ph_count e]"

section \<open>Loadable segments\<close>

record segment =
  vaddr :: usize
  paddr :: usize
  memsz :: usize
  seg_flags :: u32
  seg_data :: "u8 list option"
  file_offset :: usize
  filesz :: usize

definition is_writable :: "segment \<Rightarrow> bool" where
  "is_writable s \<longleftrightarrow> seg_flags s AND PF_WRITE \<noteq> 0"

definition is_executable :: "segment \<Rightarrow> bool" where
  "is_executable s \<longleftrightarrow> seg_flags s AND PF_EXEC \<noteq> 0"

definition segment_of :: "elf \<Rightarrow> program_header \<Rightarrow> segment option" where
  "segment_of e ph =
     (let seg = (\<lambda>file_data. \<lparr>vaddr = ph_vaddr ph, paddr = ph_paddr ph, memsz = ph_memsz ph, seg_flags = ph_flags ph,
                   seg_data = file_data, file_offset = ph_off ph, filesz = ph_filesz ph\<rparr>)
      in if 0 < ph_filesz ph \<and> ph_off ph + ph_filesz ph \<le> file_len (elf_file e)
         then map_option (\<lambda>s. seg (Some s)) (file_slice (elf_file e) (ph_off ph) (ph_off ph + ph_filesz ph))
         else Some (seg None))"

text \<open>One step of the iterator over the entries that are left.\<close>
fun segment_next :: "elf \<Rightarrow> nat list \<Rightarrow> (segment \<times> nat list) option option" where
  "segment_next e [] = Some None" |
  "segment_next e (i # is) = (case program_header_at e i of
     None \<Rightarrow> None
   | Some None \<Rightarrow> segment_next e is
   | Some (Some ph) \<Rightarrow>
       if ph_typ ph = PT_LOAD then map_option (\<lambda>s. Some (s, is)) (segment_of e ph) else segment_next e is)"

lemma segment_next_shorter: "segment_next e is = Some (Some (s, js)) \<Longrightarrow> length js < length is"
  by (induction e "is" rule: segment_next.induct) (auto split: option.splits if_splits)

function segments_from :: "elf \<Rightarrow> nat list \<Rightarrow> segment list option" where
  "segments_from e is = (case segment_next e is of
     None \<Rightarrow> None
   | Some None \<Rightarrow> Some []
   | Some (Some (s, js)) \<Rightarrow> map_option (Cons s) (segments_from e js))"
  by pat_completeness auto
termination by (relation "measure (\<lambda>(e, is). length is)") (auto dest: segment_next_shorter)

declare segments_from.simps [simp del]

definition elf_segments :: "elf \<Rightarrow> segment list option" where
  "elf_segments e = segments_from e [0..<ph_count e]"

section \<open>The loader\<close>

record 'm arch_ops =
  copy_to :: "usize \<Rightarrow> u8 list \<Rightarrow> 'm \<Rightarrow> 'm"
  zero :: "usize \<Rightarrow> usize \<Rightarrow> 'm \<Rightarrow> 'm"
  set_page_flags :: "usize \<Rightarrow> usize \<Rightarrow> bool \<Rightarrow> bool \<Rightarrow> 'm \<Rightarrow> 'm"

definition is_class64 :: "u8 list \<Rightarrow> bool" where
  "is_class64 d \<longleftrightarrow> 4 < length d \<and> d ! 4 = 2"

definition dyn_info :: "u8 list \<Rightarrow> (elf_error + (bool \<times> u8 list option)) option" where
  "dyn_info d = (case elf_parse d of
     Inl err \<Rightarrow> Some (Inl err)
   | Inr e \<Rightarrow> map_option (\<lambda>p. Inr (elf_type e = 3, p)) (interp e))"

record loaded_elf =
  l_entry :: u64
  l_class :: elf_class
  max_vaddr :: usize
  phdr_vaddr :: usize
  phentsize :: usize
  phnum :: usize

definition place :: "'m arch_ops \<Rightarrow> usize \<Rightarrow> segment \<Rightarrow> usize \<times> 'm \<Rightarrow> usize \<times> 'm" where
  "place ops load_bias seg = (\<lambda>(max_v, m).
     let va = vaddr seg + load_bias; end_v = va + memsz seg;
         max_v = (if max_v < end_v then end_v else max_v)
     in case seg_data seg of
          None \<Rightarrow> (max_v, m)
        | Some data \<Rightarrow>
            let m = copy_to ops va data m
            in (max_v, if file_len data < memsz seg then zero ops (va + file_len data) (memsz seg - file_len data) m else m))"

definition page_span :: "usize \<Rightarrow> segment \<Rightarrow> usize \<times> usize" where
  "page_span load_bias seg =
     (let va = vaddr seg + load_bias; e = va + memsz seg; start_page = va div 4096;
          end_page = e div 4096 + (if e mod 4096 = 0 then 0 else 1)
      in (start_page, end_page - start_page))"

definition protect :: "'m arch_ops \<Rightarrow> usize \<Rightarrow> bool \<Rightarrow> segment \<Rightarrow> 'm \<Rightarrow> 'm" where
  "protect ops load_bias executable_pass seg m =
     (if is_executable seg \<noteq> executable_pass then m
      else let (start_page, count) = page_span load_bias seg
      in if 0 < count then set_page_flags ops start_page count (is_writable seg) executable_pass m else m)"

definition load_elf :: "'m arch_ops \<Rightarrow> u8 list \<Rightarrow> usize \<Rightarrow> 'm \<Rightarrow> ((elf_error + loaded_elf) \<times> 'm) option" where
  "load_elf ops d load_bias m = (case elf_parse d of
     Inl err \<Rightarrow> Some (Inl err, m)
   | Inr e \<Rightarrow> (case elf_segments e of
       None \<Rightarrow> None
     | Some ss \<Rightarrow>
         let (max_v, m) = fold (place ops load_bias) ss (0, m);
             m = fold (\<lambda>executable_pass. fold (protect ops load_bias executable_pass) ss) [False, True] m;
             max_v = (max_v + 4096 - 1) AND NOT 4095;
             (phoff, pe, pn) = ph_table e
         in Some (Inr \<lparr>l_entry = elf_entry e + ucast load_bias, l_class = elf_class e, max_vaddr = max_v,
                    phdr_vaddr = load_bias + phoff, phentsize = pe, phnum = pn\<rparr>, m)))"

section \<open>The bare-metal machine\<close>

text \<open>
  User memory as the copy loops of \<^verbatim>\<open>arch-metal/src/vcpu.rs\<close> write it, one byte after the other, with the address
  wrapping, and the requests made to the page-permission service, in order.
\<close>

record user_space =
  user_mem :: "usize \<Rightarrow> u8"
  page_calls :: "((usize \<times> usize) \<times> bool \<times> bool) list"

definition rep_movsb :: "usize \<Rightarrow> u8 list \<Rightarrow> (usize \<Rightarrow> u8) \<Rightarrow> usize \<Rightarrow> u8" where
  "rep_movsb a src mem = fold (\<lambda>i mem. mem(a + of_nat i := src ! i)) [0..<length src] mem"

definition rep_stosb :: "usize \<Rightarrow> u8 \<Rightarrow> usize \<Rightarrow> (usize \<Rightarrow> u8) \<Rightarrow> usize \<Rightarrow> u8" where
  "rep_stosb a v n mem = fold (\<lambda>i mem. mem(a + of_nat i := v)) [0..<unat n] mem"

definition metal_ops :: "user_space arch_ops" where
  "metal_ops = \<lparr>copy_to = (\<lambda>a src u. u\<lparr>user_mem := rep_movsb a src (user_mem u)\<rparr>),
     zero = (\<lambda>a n u. u\<lparr>user_mem := rep_stosb a 0 n (user_mem u)\<rparr>),
     set_page_flags = (\<lambda>start count w x u. u\<lparr>page_calls := page_calls u @ [((start, count), w, x)]\<rparr>)\<rparr>"

section \<open>What the table holds\<close>

text \<open>The entries of the table that lie inside the file, with offsets as plain numbers.\<close>
definition table_entries :: "elf \<Rightarrow> program_header list" where
  "table_entries e = (let (offset, sz, count) = ph_table e; n = ph_size (elf_class e) in
     map (\<lambda>i. ph_fields (elf_class e) (elf_file e) (unat offset + i * unat sz))
       (filter (\<lambda>i. unat offset + i * unat sz + n \<le> length (elf_file e)) [0..<unat count]))"

definition ph_inside :: "elf \<Rightarrow> program_header \<Rightarrow> bool" where
  "ph_inside e ph \<longleftrightarrow> 0 < ph_filesz ph \<and> unat (ph_off ph) + unat (ph_filesz ph) \<le> length (elf_file e)"

definition ph_bytes :: "elf \<Rightarrow> program_header \<Rightarrow> u8 list" where
  "ph_bytes e ph = take (unat (ph_filesz ph)) (drop (unat (ph_off ph)) (elf_file e))"

definition to_segment :: "elf \<Rightarrow> program_header \<Rightarrow> segment" where
  "to_segment e ph = \<lparr>vaddr = ph_vaddr ph, paddr = ph_paddr ph, memsz = ph_memsz ph, seg_flags = ph_flags ph,
     seg_data = (if ph_inside e ph then Some (ph_bytes e ph) else None), file_offset = ph_off ph, filesz = ph_filesz ph\<rparr>"

text \<open>No address computed from the headers passes the end of the 32-bit range.\<close>
definition no_wrap :: "elf \<Rightarrow> bool" where
  "no_wrap e \<longleftrightarrow> length (elf_file e) < 2 ^ 32 \<and>
     (let (offset, sz, count) = ph_table e in unat offset + unat count * unat sz + ph_size (elf_class e) < 2 ^ 32) \<and>
     list_all (\<lambda>ph. unat (ph_off ph) + unat (ph_filesz ph) < 2 ^ 32) (table_entries e)"

lemma unat_usize: "unat (w :: usize) < 2 ^ 32"
  using unsigned_less [of w, where 'a = nat] by simp

lemma unat_plus_small: "unat a + unat b < 2 ^ 32 \<Longrightarrow> unat (a + b :: usize) = unat a + unat b"
  by (simp add: unat_word_ariths)

lemma unat_file_len: "length d < 2 ^ 32 \<Longrightarrow> unat (file_len d) = length d"
  by (simp add: file_len_def unat_of_nat)

lemma unat_ph_start:
  assumes "unat offset + unat count * unat sz + n < 2 ^ 32" and "i < unat count"
  shows "unat (offset + of_nat i * sz :: usize) = unat offset + i * unat sz"
    and "unat (offset + of_nat i * sz + of_nat n :: usize) = unat offset + i * unat sz + n"
proof -
  have "i * unat sz \<le> unat count * unat sz" using assms(2) by (intro mult_right_mono) auto
  then have lt: "unat offset + i * unat sz + n < 2 ^ 32" using assms(1) by linarith
  have "unat (of_nat (unat offset + i * unat sz + k) :: usize) = unat offset + i * unat sz + k" if "k \<le> n" for k
    unfolding unat_of_nat by (rule mod_less) (use lt that in simp)
  from this [of 0] this [of n] show "unat (offset + of_nat i * sz) = unat offset + i * unat sz"
    "unat (offset + of_nat i * sz + of_nat n) = unat offset + i * unat sz + n" by simp_all
qed

lemma program_header_exact:
  assumes "no_wrap e" and "ph_table e = (offset, sz, count)" and "i < unat count"
  shows "program_header_at e i =
    Some (if unat offset + i * unat sz + ph_size (elf_class e) \<le> length (elf_file e)
          then Some (ph_fields (elf_class e) (elf_file e) (unat offset + i * unat sz)) else None)"
  using assms unat_ph_start [of offset count sz "ph_size (elf_class e)" i]
  by (auto simp: no_wrap_def program_header_at_def word_less_nat_alt unat_file_len)

lemma file_slice_exact:
  assumes "no_wrap e" and "ph \<in> set (table_entries e)"
  shows "0 < ph_filesz ph \<and> ph_off ph + ph_filesz ph \<le> file_len (elf_file e) \<longleftrightarrow> ph_inside e ph"
    and "ph_inside e ph \<Longrightarrow> file_slice (elf_file e) (ph_off ph) (ph_off ph + ph_filesz ph) = Some (ph_bytes e ph)"
proof -
  have "unat (ph_off ph) + unat (ph_filesz ph) < 2 ^ 32" using assms by (auto simp: no_wrap_def list_all_iff)
  note u = unat_plus_small [OF this]
  show "0 < ph_filesz ph \<and> ph_off ph + ph_filesz ph \<le> file_len (elf_file e) \<longleftrightarrow> ph_inside e ph"
    using assms(1) by (auto simp: ph_inside_def word_le_nat_alt u unat_file_len no_wrap_def)
  show "file_slice (elf_file e) (ph_off ph) (ph_off ph + ph_filesz ph) = Some (ph_bytes e ph)" if "ph_inside e ph"
    using that by (auto simp: file_slice_def ph_inside_def ph_bytes_def bytes_slice_def word_le_nat_alt u)
qed

text \<open>The loops over the table see its entries one by one.\<close>
definition entry_list :: "elf \<Rightarrow> nat list \<Rightarrow> program_header list" where
  "entry_list e is = List.map_filter (\<lambda>i. the (program_header_at e i)) is"

lemma table_entries_list:
  assumes "no_wrap e"
  shows "table_entries e = entry_list e [0..<ph_count e]" and "\<forall>i\<in>set [0..<ph_count e]. program_header_at e i \<noteq> None"
proof -
  obtain offset sz count where t: "ph_table e = (offset, sz, count)" by (cases "ph_table e")
  let ?f = "\<lambda>i. ph_fields (elf_class e) (elf_file e) (unat offset + i * unat sz)"
    and ?P = "\<lambda>i. unat offset + i * unat sz + ph_size (elf_class e) \<le> length (elf_file e)"
  have "map ?f (filter ?P is) = entry_list e is" if "set is \<subseteq> {0..<unat count}" for "is"
    using that by (induction "is") (auto simp: entry_list_def map_filter_simps program_header_exact [OF assms t])
  from this [of "[0..<unat count]"] show "table_entries e = entry_list e [0..<ph_count e]"
    by (simp add: table_entries_def ph_count_def t)
  show "\<forall>i\<in>set [0..<ph_count e]. program_header_at e i \<noteq> None"
    using program_header_exact [OF assms t] by (auto simp: ph_count_def t)
qed

lemma segments_from_Nil: "segments_from e [] = Some []"
  by (simp add: segments_from.simps)

lemma segments_from_Cons:
  "segments_from e (i # is) = (case program_header_at e i of
     None \<Rightarrow> None
   | Some None \<Rightarrow> segments_from e is
   | Some (Some ph) \<Rightarrow>
       if ph_typ ph = PT_LOAD then (case segment_of e ph of None \<Rightarrow> None | Some s \<Rightarrow> map_option (Cons s) (segments_from e is))
       else segments_from e is)"
  by (simp add: segments_from.simps [of e "i # is"] segments_from.simps [of e "is"] split: option.split)

lemma segment_of_exact:
  assumes "no_wrap e" and "ph \<in> set (table_entries e)"
  shows "segment_of e ph = Some (to_segment e ph)"
  using file_slice_exact [OF assms] by (auto simp: segment_of_def to_segment_def Let_def)

lemma entry_list_Cons: "entry_list e (i # is) = (case the (program_header_at e i) of None \<Rightarrow> entry_list e is | Some ph \<Rightarrow> ph # entry_list e is)"
  by (simp add: entry_list_def map_filter_simps split: option.split)

lemma segments_list:
  "\<forall>i\<in>set is. program_header_at e i \<noteq> None \<Longrightarrow> \<forall>ph\<in>set (entry_list e is). segment_of e ph = Some (to_segment e ph) \<Longrightarrow>
    segments_from e is = Some (map (to_segment e) (filter (\<lambda>ph. ph_typ ph = PT_LOAD) (entry_list e is)))"
  by (induction "is") (auto simp: segments_from_Nil segments_from_Cons entry_list_Cons entry_list_def map_filter_simps split: option.splits)

lemma dynamic_list:
  "\<forall>i\<in>set is. program_header_at e i \<noteq> None \<Longrightarrow>
    dynamic_from e is = Some (map_option (\<lambda>ph. (ph_vaddr ph, ph_memsz ph)) (find (\<lambda>ph. ph_typ ph = PT_DYNAMIC) (entry_list e is)))"
  by (induction "is") (auto simp: entry_list_Cons entry_list_def map_filter_simps split: option.splits)

lemma interp_list:
  "\<forall>i\<in>set is. program_header_at e i \<noteq> None \<Longrightarrow>
    \<forall>ph\<in>set (entry_list e is). (0 < ph_filesz ph \<and> ph_off ph + ph_filesz ph \<le> file_len (elf_file e) \<longleftrightarrow> ph_inside e ph) \<and>
      (ph_inside e ph \<longrightarrow> file_slice (elf_file e) (ph_off ph) (ph_off ph + ph_filesz ph) = Some (ph_bytes e ph)) \<Longrightarrow>
    interp_from e is = Some (map_option (\<lambda>ph. strip_nuls (ph_bytes e ph)) (find (\<lambda>ph. ph_typ ph = PT_INTERP \<and> ph_inside e ph) (entry_list e is)))"
  by (induction "is") (auto simp: entry_list_Cons entry_list_def map_filter_simps split: option.splits)

text \<open>
  C39. When no address computed from the headers passes the end of the 32-bit range, reading a program header table never leaves the file, and
  the code's loops compute the plain answers over the entries inside the file: the loadable segments in order, each with its
  bytes when they are in the file, the first non-empty interpreter path and the first dynamic section.
\<close>

theorem elf_table_exact:
  assumes "no_wrap e"
  shows "elf_segments e = Some (map (to_segment e) (filter (\<lambda>ph. ph_typ ph = PT_LOAD) (table_entries e))) \<and>
    interp e = Some (map_option (\<lambda>ph. strip_nuls (ph_bytes e ph)) (find (\<lambda>ph. ph_typ ph = PT_INTERP \<and> ph_inside e ph) (table_entries e))) \<and>
    dynamic e = Some (map_option (\<lambda>ph. (ph_vaddr ph, ph_memsz ph)) (find (\<lambda>ph. ph_typ ph = PT_DYNAMIC) (table_entries e)))"
proof -
  note t = table_entries_list [OF assms]
  have "\<forall>ph\<in>set (table_entries e). segment_of e ph = Some (to_segment e ph)"
    using segment_of_exact [OF assms] by blast
  moreover have "\<forall>ph\<in>set (table_entries e). (0 < ph_filesz ph \<and> ph_off ph + ph_filesz ph \<le> file_len (elf_file e) \<longleftrightarrow> ph_inside e ph) \<and>
      (ph_inside e ph \<longrightarrow> file_slice (elf_file e) (ph_off ph) (ph_off ph + ph_filesz ph) = Some (ph_bytes e ph))"
    using file_slice_exact [OF assms] by blast
  ultimately show ?thesis
    unfolding elf_segments_def interp_def dynamic_def t(1) using segments_list [OF t(2)] interp_list [OF t(2)] dynamic_list [OF t(2)] by blast
qed

section \<open>What the loader leaves in memory\<close>

text \<open>The byte a segment puts at an address, if it puts one there.\<close>
definition seg_byte :: "usize \<Rightarrow> segment \<Rightarrow> usize \<Rightarrow> u8 option" where
  "seg_byte bias s x = (case seg_data s of
     None \<Rightarrow> None
   | Some d \<Rightarrow> (let k = unat (x - (vaddr s + bias)) in
       if k < length d then Some (d ! k) else if k < unat (memsz s) then Some 0 else None))"

text \<open>A later segment wins over an earlier one.\<close>
definition image_byte :: "usize \<Rightarrow> segment list \<Rightarrow> usize \<Rightarrow> u8 option" where
  "image_byte bias ss x = (case find (\<lambda>s. seg_byte bias s x \<noteq> None) (rev ss) of None \<Rightarrow> None | Some s \<Rightarrow> seg_byte bias s x)"

definition seg_fits :: "segment \<Rightarrow> bool" where
  "seg_fits s \<longleftrightarrow> (case seg_data s of None \<Rightarrow> True | Some d \<Rightarrow> length d \<le> unat (memsz s))"

locale user_memory =
  fixes ops :: "'m arch_ops" and byte :: "'m \<Rightarrow> usize \<Rightarrow> u8"
  assumes byte_copy_to: "length d < 2 ^ 32 \<Longrightarrow>
      byte (copy_to ops a d m) x = (if unat (x - a) < length d then d ! unat (x - a) else byte m x)"
    and byte_zero: "byte (zero ops a n m) x = (if unat (x - a) < unat n then 0 else byte m x)"
    and byte_set_page_flags: "byte (set_page_flags ops start count w ex m) x = byte m x"
begin

lemma byte_place:
  assumes "seg_fits s"
  shows "byte (snd (place ops bias s (mx, m))) x = (case seg_byte bias s x of None \<Rightarrow> byte m x | Some v \<Rightarrow> v)"
proof (cases "seg_data s")
  case None
  then show ?thesis by (simp add: place_def seg_byte_def Let_def)
next
  case (Some d)
  have le: "length d \<le> unat (memsz s)" using assms Some by (simp add: seg_fits_def)
  then have lt: "length d < 2 ^ 32" using unat_usize [of "memsz s"] by simp
  define k where "k = x - (vaddr s + bias)"
  have "unat (k - file_len d) < unat (memsz s - file_len d) \<longleftrightarrow> length d \<le> unat k \<and> unat k < unat (memsz s)"
    if "file_len d < memsz s"
  proof -
    have m: "unat (memsz s - file_len d) = unat (memsz s) - length d" using that lt by (subst unat_sub) (simp_all add: unat_file_len)
    show ?thesis
    proof (cases "length d \<le> unat k")
      case True
      then have "unat (k - file_len d) = unat k - length d" using lt by (subst unat_sub) (simp_all add: unat_file_len word_le_nat_alt)
      then show ?thesis using True m by auto
    next
      case False
      then have "unat (k - file_len d) = unat k + 2 ^ 32 - length d"
        using lt by (simp add: unat_sub_if_size unat_file_len word_le_nat_alt word_size)
      then show ?thesis using False m unat_usize [of "memsz s"] by simp
    qed
  qed
  moreover have k: "x - (vaddr s + bias + file_len d) = k - file_len d" "x - (vaddr s + bias) = k" by (simp_all add: k_def)
  ultimately show ?thesis using lt le Some
    by (auto simp: place_def seg_byte_def byte_copy_to byte_zero Let_def word_less_nat_alt unat_file_len k simp del: diff_diff_add)
qed

lemma byte_places:
  "list_all seg_fits ss \<Longrightarrow>
    byte (snd (fold (place ops bias) ss (mx, m))) x = (case image_byte bias ss x of None \<Rightarrow> byte m x | Some v \<Rightarrow> v)"
proof (induction ss arbitrary: mx m rule: rev_induct)
  case (snoc s ss)
  obtain mx' m' where p: "fold (place ops bias) ss (mx, m) = (mx', m')" by fastforce
  have "byte m' x = (case image_byte bias ss x of None \<Rightarrow> byte m x | Some v \<Rightarrow> v)"
    using snoc.IH [of mx m] snoc.prems p by simp
  then show ?case using snoc.prems byte_place [of s bias mx' m' x] p
    by (cases "seg_byte bias s x") (simp_all add: image_byte_def)
qed (simp add: image_byte_def)

lemma byte_protect: "byte (fold (protect ops bias b) ss m) x = byte m x"
  by (induction ss arbitrary: m) (simp_all add: protect_def byte_set_page_flags split: prod.split)

end

lemma rep_write:
  fixes a :: usize
  assumes "n < 2 ^ 32"
  shows "fold (\<lambda>i mem. mem(a + of_nat i := f i)) [0..<n] mem x = (if unat (x - a) < n then f (unat (x - a)) else mem x)"
  using assms
proof (induction n)
  case (Suc n)
  have "x = a + of_nat n \<longleftrightarrow> unat (x - a) = n"
  proof
    assume "unat (x - a) = n"
    moreover have "of_nat (unat (x - a)) = x - a" by simp
    ultimately have "x - a = of_nat n" by simp
    then show "x = a + of_nat n" by (simp add: algebra_simps)
  qed (use Suc.prems in \<open>simp add: unat_of_nat\<close>)
  then show ?case using Suc by (auto simp: less_Suc_eq)
qed simp

interpretation metal: user_memory metal_ops user_mem
proof unfold_locales
  fix d :: "u8 list" and a m x
  assume "length d < 2 ^ 32"
  then show "user_mem (copy_to metal_ops a d m) x = (if unat (x - a) < length d then d ! unat (x - a) else user_mem m x)"
    by (simp add: metal_ops_def rep_movsb_def rep_write)
next
  fix a n m x
  show "user_mem (zero metal_ops a n m) x = (if unat (x - a) < unat n then 0 else user_mem m x)"
    using unat_usize [of n] by (simp add: metal_ops_def rep_stosb_def rep_write)
qed (simp add: metal_ops_def)

text \<open>The last request that covers a page decides its permissions.\<close>
definition page_right :: "((usize \<times> usize) \<times> bool \<times> bool) list \<Rightarrow> usize \<Rightarrow> (bool \<times> bool) option" where
  "page_right calls p = map_option snd (find (\<lambda>((start, count), w, x). unat (p - start) < unat count) (rev calls))"

definition covers_page :: "usize \<Rightarrow> usize \<Rightarrow> segment \<Rightarrow> bool" where
  "covers_page bias p s = (let (start, count) = page_span bias s in unat (p - start) < unat count)"

lemma page_calls_place: "page_calls (snd (place metal_ops bias s (mx, m))) = page_calls m"
  by (simp add: place_def metal_ops_def Let_def split: option.split)

lemma page_calls_places: "page_calls (snd (fold (place metal_ops bias) ss (mx, m))) = page_calls m"
proof (induction ss arbitrary: mx m)
  case (Cons s ss)
  then show ?case using page_calls_place [of bias s mx m] by (cases "place metal_ops bias s (mx, m)") simp
qed simp

lemma page_right_protect:
  "page_right (page_calls (protect metal_ops bias b s m)) p =
    (if is_executable s = b \<and> covers_page bias p s then Some (is_writable s, b) else page_right (page_calls m) p)"
  by (auto simp: protect_def metal_ops_def page_right_def covers_page_def word_greater_zero_iff split: prod.splits)

lemma page_right_pass:
  "page_right (page_calls (fold (protect metal_ops bias b) ss m)) p =
    (case find (covers_page bias p) (rev (filter (\<lambda>s. is_executable s = b) ss)) of
       None \<Rightarrow> page_right (page_calls m) p | Some s \<Rightarrow> Some (is_writable s, is_executable s))"
  by (induction ss rule: rev_induct) (simp_all add: page_right_protect)

definition seg_end :: "usize \<Rightarrow> segment \<Rightarrow> nat" where
  "seg_end bias s = unat (vaddr s) + unat bias + unat (memsz s)"

lemma fst_place: "fst (place ops bias s (mx, m)) = max mx (vaddr s + bias + memsz s)"
  by (auto simp: place_def Let_def max_def split: option.split)

lemma unat_seg_end:
  assumes "seg_end bias s < 2 ^ 32"
  shows "unat (vaddr s + bias + memsz s) = seg_end bias s" and "unat (vaddr s + bias) = unat (vaddr s) + unat bias"
proof -
  show va: "unat (vaddr s + bias) = unat (vaddr s) + unat bias" using assms by (intro unat_plus_small) (simp add: seg_end_def)
  then show "unat (vaddr s + bias + memsz s) = seg_end bias s"
    using assms unat_plus_small [of "vaddr s + bias" "memsz s"] by (simp add: seg_end_def)
qed

lemma fst_places:
  assumes "\<forall>s\<in>set ss. seg_end bias s < 2 ^ 32"
  shows "unat (fst (fold (place ops bias) ss (mx, m))) = fold max (map (seg_end bias) ss) (unat mx)"
  using assms
proof (induction ss arbitrary: mx m)
  case (Cons s ss)
  obtain mx' m' where p: "place ops bias s (mx, m) = (mx', m')" by fastforce
  have "unat mx' = max (unat mx) (seg_end bias s)"
    using fst_place [of ops bias s mx m] p unat_seg_end(1) [of bias s] Cons.prems
    by (auto simp: max_def word_le_nat_alt)
  then show ?case using Cons p by (simp add: max.commute)
qed simp

lemma fold_max_bounds:
  fixes xs :: "nat list"
  shows "x \<in> set xs \<Longrightarrow> x \<le> fold max xs a" and "\<forall>x\<in>set xs. x \<le> b \<Longrightarrow> a \<le> b \<Longrightarrow> fold max xs a \<le> b"
proof -
  have m: "fold max xs a = Max (set (a # xs))" by (rule Max.set_eq_fold [symmetric])
  show "x \<in> set xs \<Longrightarrow> x \<le> fold max xs a" unfolding m by (rule Max_ge) auto
  show "\<forall>x\<in>set xs. x \<le> b \<Longrightarrow> a \<le> b \<Longrightarrow> fold max xs a \<le> b" unfolding m by (subst Max_le_iff) auto
qed

lemma find_append: "find P (xs @ ys) = (case find P xs of None \<Rightarrow> find P ys | Some x \<Rightarrow> Some x)"
  by (induction xs) simp_all

text \<open>
  C6. Loading an accepted file, at any load bias, when its segments carry no more bytes than they occupy and end below the last page of
  the address space, succeeds: each address holds the byte of the last segment that puts one there (the file's byte, or
  zero behind it) and every other address keeps its byte; for a page under an executable segment the last request asks for
  execution, otherwise the last segment covering the page decides, and no other page is named; the heap base is page-aligned and above every segment.
\<close>

theorem elf_load_exact:
  assumes "elf_parse d = Inr e" and "elf_segments e = Some ss" and "list_all seg_fits ss" and "list_all (\<lambda>s. seg_end bias s \<le> 2 ^ 32 - 4096) ss"
  shows "\<exists>l m'. load_elf metal_ops d bias m = Some (Inr l, m') \<and>
    (\<forall>x. user_mem m' x = (case image_byte bias ss x of None \<Rightarrow> user_mem m x | Some v \<Rightarrow> v)) \<and>
    (\<forall>p. page_right (page_calls m') p =
       (case find (covers_page bias p) (rev (filter (\<lambda>s. \<not> is_executable s) ss @ filter is_executable ss)) of
          None \<Rightarrow> page_right (page_calls m) p | Some s \<Rightarrow> Some (is_writable s, is_executable s))) \<and>
    list_all (\<lambda>s. seg_end bias s \<le> unat (max_vaddr l)) ss \<and> 4096 dvd unat (max_vaddr l) \<and> l_entry l = elf_entry e + ucast bias"
proof -
  obtain mx m1 where p: "fold (place metal_ops bias) ss (0, m) = (mx, m1)" by fastforce
  define m' where "m' = fold (protect metal_ops bias True) ss (fold (protect metal_ops bias False) ss m1)"
  define l where "l = (let (phoff, pe, pn) = ph_table e in \<lparr>l_entry = elf_entry e + ucast bias, l_class = elf_class e,
    max_vaddr = (mx + 4096 - 1) AND NOT 4095, phdr_vaddr = bias + phoff, phentsize = pe, phnum = pn\<rparr>)"
  have load: "load_elf metal_ops d bias m = Some (Inr l, m')"
    by (simp add: load_elf_def assms p m'_def l_def split: prod.split)
  have mem: "user_mem m' x = (case image_byte bias ss x of None \<Rightarrow> user_mem m x | Some v \<Rightarrow> v)" for x
    using metal.byte_places [OF assms(3), of bias 0 m x] by (simp add: p m'_def metal.byte_protect)
  have calls: "page_calls m1 = page_calls m" using page_calls_places [of bias ss 0 m] by (simp add: p)
  have rights: "page_right (page_calls m') x =
       (case find (covers_page bias x) (rev (filter (\<lambda>s. \<not> is_executable s) ss @ filter is_executable ss)) of
          None \<Rightarrow> page_right (page_calls m) x | Some s \<Rightarrow> Some (is_writable s, is_executable s))" for x
    by (simp add: m'_def page_right_pass calls find_append split: option.split)
  have mx: "unat mx = fold max (map (seg_end bias) ss) 0"
    using fst_places [of ss bias metal_ops 0 m] assms(4) p by (fastforce simp: list_all_iff)
  then have le: "unat mx \<le> 2 ^ 32 - 4096" using assms(4) fold_max_bounds(2) [of "map (seg_end bias) ss" "2 ^ 32 - 4096" 0] by (auto simp: list_all_iff)
  then have top: "unat (max_vaddr l) = (unat mx + 0xFFF) div 4096 * 4096"
    using unat_round_page [of mx] by (simp add: l_def add.commute split: prod.split)
  have "seg_end bias s \<le> unat (max_vaddr l)" if "s \<in> set ss" for s
    using fold_max_bounds(1) [of "seg_end bias s" "map (seg_end bias) ss" 0] that mx top by simp
  then show ?thesis using load mem rights top by (auto simp: list_all_iff l_def split: prod.split)
qed

section \<open>Examples\<close>

definition le32 :: "u32 \<Rightarrow> u8 list" where
  "le32 v = [ucast v, ucast (drop_bit 8 v), ucast (drop_bit 16 v), ucast (drop_bit 24 v)]"

text \<open>A 32-bit executable with a table of one entry at \<open>phoff\<close>, followed by that entry and four bytes.\<close>
definition tiny_elf :: "u32 \<Rightarrow> u32 \<Rightarrow> u32 \<Rightarrow> u32 \<Rightarrow> u8 list" where
  "tiny_elf phoff typ off fsz =
     [0x7F, 0x45, 0x4C, 0x46, 1, 1, 1, 0] @ replicate 8 0 @ [2, 0, 3, 0] @ le32 1 @ le32 0x8000 @ le32 phoff @ le32 0 @ le32 0 @
     [52, 0, 32, 0, 1, 0] @ replicate 6 0 @
     le32 typ @ le32 off @ le32 0x8000 @ le32 0x8000 @ le32 fsz @ le32 0x10 @ le32 5 @ le32 0x1000 @ [0xB8, 1, 0, 0xF4]"

definition tiny :: elf where "tiny = \<lparr>elf_file = tiny_elf 52 1 84 4, elf_class = Elf32\<rparr>"

definition tiny_segment :: segment where
  "tiny_segment = \<lparr>vaddr = 0x8000, paddr = 0x8000, memsz = 0x10, seg_flags = 5, seg_data = Some [0xB8, 1, 0, 0xF4], file_offset = 84, filesz = 4\<rparr>"

theorem elf_table_exact_witness:
  "no_wrap tiny \<and> elf_segments tiny = Some [tiny_segment] \<and> interp tiny = Some None \<and> dynamic tiny = Some None"
proof -
  have t: "ph_table tiny = (52, 32, 1) \<and> map (\<lambda>ph. (ph_off ph, ph_filesz ph)) (table_entries tiny) = [(84, 4)]" by code_simp
  have "length (elf_file tiny) = 88" by (simp add: tiny_def tiny_elf_def le32_def)
  then have w: "no_wrap tiny" using t by (auto simp: no_wrap_def tiny_def map_eq_Cons_conv)
  have "map (to_segment tiny) (filter (\<lambda>ph. ph_typ ph = PT_LOAD) (table_entries tiny)) = [tiny_segment] \<and>
    find (\<lambda>ph. ph_typ ph = PT_INTERP \<and> ph_inside tiny ph) (table_entries tiny) = None \<and>
    find (\<lambda>ph. ph_typ ph = PT_DYNAMIC) (table_entries tiny) = None" by code_simp
  then show ?thesis using elf_table_exact [OF w] w by simp
qed

theorem elf_load_exact_witness:
  "\<exists>l m'. load_elf metal_ops (tiny_elf 52 1 84 4) 0x1000 \<lparr>user_mem = \<lambda>_. 0xCC, page_calls = []\<rparr> = Some (Inr l, m') \<and>
    user_mem m' 0x9003 = 0xF4 \<and> user_mem m' 0x9004 = 0 \<and> user_mem m' 0x9010 = 0xCC \<and>
    page_right (page_calls m') 9 = Some (False, True) \<and> page_right (page_calls m') 10 = None \<and> l_entry l = 0x9000"
proof -
  let ?ss = "[tiny_segment]"
  have p: "elf_parse (tiny_elf 52 1 84 4) = Inr tiny" by code_simp
  have s: "elf_segments tiny = Some ?ss" by code_simp
  have f: "list_all seg_fits ?ss" by (simp add: seg_fits_def tiny_segment_def)
  have e: "list_all (\<lambda>s. seg_end 0x1000 s \<le> 2 ^ 32 - 4096) ?ss" by (simp add: seg_end_def tiny_segment_def)
  have b: "image_byte 0x1000 ?ss 0x9003 = Some 0xF4 \<and> image_byte 0x1000 ?ss 0x9004 = Some 0 \<and> image_byte 0x1000 ?ss 0x9010 = None"
    by (simp add: image_byte_def seg_byte_def tiny_segment_def)
  have c: "covers_page 0x1000 9 tiny_segment \<and> \<not> covers_page 0x1000 10 tiny_segment \<and> is_executable tiny_segment \<and> \<not> is_writable tiny_segment"
    by (simp add: covers_page_def page_span_def tiny_segment_def is_executable_def is_writable_def PF_EXEC_def PF_WRITE_def)
  have n: "elf_entry tiny + ucast (0x1000 :: usize) = 0x9000" by code_simp
  let ?m = "\<lparr>user_mem = \<lambda>_. 0xCC, page_calls = []\<rparr>"
  obtain l m' where load: "load_elf metal_ops (tiny_elf 52 1 84 4) 0x1000 ?m = Some (Inr l, m')" and l: "l_entry l = elf_entry tiny + ucast (0x1000 :: usize)"
    and mem: "\<And>x. user_mem m' x = (case image_byte 0x1000 ?ss x of None \<Rightarrow> user_mem ?m x | Some v \<Rightarrow> v)"
    and rights: "\<And>p. page_right (page_calls m') p =
       (case find (covers_page 0x1000 p) (rev (filter (\<lambda>s. \<not> is_executable s) ?ss @ filter is_executable ?ss)) of
          None \<Rightarrow> page_right (page_calls ?m) p | Some s \<Rightarrow> Some (is_writable s, is_executable s))"
    using elf_load_exact [OF p s f e, of ?m] by blast
  have "user_mem m' 0x9003 = 0xF4" "user_mem m' 0x9004 = 0" "user_mem m' 0x9010 = 0xCC" using b by (simp_all only: mem) simp_all
  moreover have "page_right (page_calls m') 9 = Some (False, True)" "page_right (page_calls m') 10 = None"
    unfolding rights using c by (simp_all add: page_right_def)
  ultimately show ?thesis using load l n by metis
qed


end
