(* ===== verification/Cmdline.thy ===== *)
theory Cmdline
  imports Prelude
begin

text \<open>
  The command-line syntax of \<^verbatim>\<open>arch-abi/src/cmdline.rs\<close>: key/value tokens, launch segments, launch
  tokens and the bounded argument copy.  The iterators are modelled by their \<open>next\<close> functions, the
  lists they yield by iterating those; the lemmas show that the lists are those of the plain
  splitting functions of the reference definition \<open>split_by\<close>.
\<close>

section \<open>Bytes of the standard library\<close>

definition bytes_of :: "string \<Rightarrow> u8 list" where
  "bytes_of s = map of_char s"

definition is_ascii_whitespace :: "u8 \<Rightarrow> bool" where
  "is_ascii_whitespace b \<longleftrightarrow> b = 0x20 \<or> b = 0x09 \<or> b = 0x0A \<or> b = 0x0C \<or> b = 0x0D"

definition to_ascii_lowercase :: "u8 \<Rightarrow> u8" where
  "to_ascii_lowercase b = (if 0x41 \<le> b \<and> b \<le> 0x5A then b + 0x20 else b)"

text \<open>\<open>Iterator::rposition\<close>.\<close>
definition rposition :: "('a \<Rightarrow> bool) \<Rightarrow> 'a list \<Rightarrow> nat option" where
  "rposition P xs = map_option (\<lambda>i. length xs - 1 - i) (find_index P (rev xs))"

text \<open>\<open>slice::split\<close>: the runs between the elements that satisfy \<open>P\<close>, empty ones included.\<close>
fun split_by :: "('a \<Rightarrow> bool) \<Rightarrow> 'a list \<Rightarrow> 'a list list" where
  "split_by P [] = [[]]" |
  "split_by P (x # xs) =
     (if P x then [] # split_by P xs
      else case split_by P xs of [] \<Rightarrow> [[x]] | w # ws \<Rightarrow> (x # w) # ws)"

section \<open>Key/value tokens\<close>

definition eq_ignore_ascii_case :: "u8 list \<Rightarrow> u8 list \<Rightarrow> bool" where
  "eq_ignore_ascii_case l r \<longleftrightarrow> map to_ascii_lowercase l = map to_ascii_lowercase r"

definition key_eq :: "u8 list \<Rightarrow> u8 list \<Rightarrow> bool" where
  "key_eq key expected \<longleftrightarrow> eq_ignore_ascii_case key expected"

definition parse_key_value :: "u8 list \<Rightarrow> (u8 list \<times> u8 list) option" where
  "parse_key_value token =
     (case find_index (\<lambda>b. b = 0x3D) token of
        None \<Rightarrow> None
      | Some eq \<Rightarrow> if eq = 0 then None else Some (take eq token, drop (eq + 1) token))"

text \<open>The visits of \<^verbatim>\<open>for_each_key_value\<close>, in order.\<close>
function for_each_key_value :: "u8 list \<Rightarrow> (u8 list \<times> u8 list) list" where
  "for_each_key_value input =
     (if input = [] then []
      else let (token, rest) =
             (case find_index (\<lambda>b. is_ascii_whitespace b \<or> b = 0x3B) input of
                Some index \<Rightarrow> (take index input, drop (index + 1) input)
              | None \<Rightarrow> (input, []))
           in (case parse_key_value token of Some kv \<Rightarrow> [kv] | None \<Rightarrow> []) @ for_each_key_value rest)"
  by pat_completeness auto
termination
  by (relation "measure length") (auto split: option.splits)

declare for_each_key_value.simps [simp del]

section \<open>Launch segments\<close>

definition trim_ascii :: "u8 list \<Rightarrow> u8 list" where
  "trim_ascii s =
     (let start = (case find_index (\<lambda>c. 0x20 < c) s of Some i \<Rightarrow> i | None \<Rightarrow> length s);
          fin = (case rposition (\<lambda>c. 0x20 < c) s of None \<Rightarrow> start | Some i \<Rightarrow> i + 1)
      in take (fin - start) (drop start s))"

function segments_next :: "u8 list \<Rightarrow> (u8 list \<times> u8 list) option" where
  "segments_next input =
     (if input = [] then None
      else let (segment, rest) =
             (case find_index (\<lambda>b. b = 0x3B) input of
                Some index \<Rightarrow> (take index input, drop (index + 1) input)
              | None \<Rightarrow> (input, []));
             segment = trim_ascii segment
           in if segment \<noteq> [] then Some (segment, rest) else segments_next rest)"
  by pat_completeness auto
termination
  by (relation "measure length") (auto split: option.splits)

declare segments_next.simps [simp del]

lemma segments_next_shorter: "segments_next input = Some (s, rest) \<Longrightarrow> length rest < length input"
proof (induction input rule: segments_next.induct)
  case (1 input)
  then show ?case
    by (subst (asm) (2) segments_next.simps)
       (fastforce simp: Let_def split: if_splits option.splits)
qed

function segments :: "u8 list \<Rightarrow> u8 list list" where
  "segments input =
     (case segments_next input of None \<Rightarrow> [] | Some (s, rest) \<Rightarrow> s # segments rest)"
  by pat_completeness auto
termination
  by (relation "measure length") (auto dest: segments_next_shorter)

declare segments.simps [simp del]

section \<open>Launch tokens\<close>

definition token_end :: "u8 list \<Rightarrow> nat" where
  "token_end input = (case find_index is_ascii_whitespace input of Some i \<Rightarrow> i | None \<Rightarrow> length input)"

lemma token_end_pos:
  assumes "find_index (\<lambda>b. \<not> is_ascii_whitespace b) input = Some start"
  shows "0 < token_end (drop start input)" "start < length input"
  using assms by (auto simp: token_end_def find_index_Some split: option.splits intro: gr0I)

function tokens_next :: "(u8 list \<Rightarrow> bool) \<Rightarrow> u8 list \<Rightarrow> (u8 list \<times> u8 list) option" where
  "tokens_next is_directive input =
     (if input = [] then None
      else case find_index (\<lambda>b. \<not> is_ascii_whitespace b) input of
             None \<Rightarrow> None
           | Some start \<Rightarrow>
               let input = drop start input;
                   fin = token_end input;
                   token = take fin input;
                   input = drop fin input
               in if (case parse_key_value token of Some (key, _) \<Rightarrow> is_directive key | None \<Rightarrow> False)
                  then tokens_next is_directive input
                  else Some (token, input))"
  by pat_completeness auto
termination
  by (relation "measure (\<lambda>(_, input). length input)") (use token_end_pos in auto)

declare tokens_next.simps [simp del]

lemma tokens_next_shorter: "tokens_next dir input = Some (t, rest) \<Longrightarrow> length rest < length input"
proof (induction dir input rule: tokens_next.induct)
  case (1 dir input)
  show ?case
  proof (cases "find_index (\<lambda>b. \<not> is_ascii_whitespace b) input")
    case None
    then show ?thesis using 1(2) by (subst (asm) tokens_next.simps) (simp split: if_splits)
  next
    case (Some start)
    note pos = token_end_pos [OF Some]
    then show ?thesis
      using 1(1) [OF _ Some refl refl refl refl] 1(2) Some
      by (subst (asm) (2) tokens_next.simps) (fastforce simp: Let_def split: if_splits)
  qed
qed

text \<open>The tokens an iterator still has to yield.\<close>
function launch_tokens :: "(u8 list \<Rightarrow> bool) \<Rightarrow> u8 list \<Rightarrow> u8 list list" where
  "launch_tokens dir input =
     (case tokens_next dir input of None \<Rightarrow> [] | Some (t, rest) \<Rightarrow> t # launch_tokens dir rest)"
  by pat_completeness auto
termination
  by (relation "measure (\<lambda>(_, input). length input)") (auto dest: tokens_next_shorter)

declare launch_tokens.simps [simp del]

text \<open>\<^verbatim>\<open>Launch\<close>: the program and the input its argument iterator continues from.\<close>
record launch =
  program :: "u8 list"
  arguments_input :: "u8 list"

definition launch_of :: "u8 list \<Rightarrow> (u8 list \<Rightarrow> bool) \<Rightarrow> launch option" where
  "launch_of segment dir =
     (case tokens_next dir segment of
        None \<Rightarrow> None
      | Some (prog, rest) \<Rightarrow> Some \<lparr>program = prog, arguments_input = rest\<rparr>)"

definition launch_arguments :: "(u8 list \<Rightarrow> bool) \<Rightarrow> launch \<Rightarrow> u8 list list" where
  "launch_arguments dir l = launch_tokens dir (arguments_input l)"

text \<open>The loop of \<^verbatim>\<open>write_arguments\<close>: the buffer and the length so far.\<close>
fun write_args :: "u8 list list \<Rightarrow> u8 list \<Rightarrow> nat \<Rightarrow> u8 list \<times> nat" where
  "write_args [] out len = (out, len)" |
  "write_args (argument # rest) out len =
     (if len \<noteq> 0 \<and> len = length out then (out, len)
      else let (out, len) = (if len \<noteq> 0 then (out[len := 0x20], len + 1) else (out, len));
               available = length out - len;
               copied = min (length argument) available;
               out = take len out @ take copied argument @ drop (len + copied) out;
               len = len + copied
           in if copied \<noteq> length argument then (out, len) else write_args rest out len)"

definition write_arguments :: "(u8 list \<Rightarrow> bool) \<Rightarrow> launch \<Rightarrow> u8 list \<Rightarrow> u8 list \<times> nat" where
  "write_arguments dir l out = write_args (launch_arguments dir l) out 0"

section \<open>Equivalence with plain splitting\<close>

lemma split_by_None: "find_index P xs = None \<Longrightarrow> split_by P xs = [xs]"
  by (induction xs) auto

lemma split_by_Some:
  "find_index P xs = Some i \<Longrightarrow> split_by P xs = take i xs # split_by P (drop (i + 1) xs)"
  by (induction xs arbitrary: i) (auto split: if_splits)

lemma split_by_not_Nil [simp]: "split_by P xs \<noteq> []"
  by (cases xs) (auto split: list.splits)

definition is_directive_token :: "(u8 list \<Rightarrow> bool) \<Rightarrow> u8 list \<Rightarrow> bool" where
  "is_directive_token dir token \<longleftrightarrow>
     (case parse_key_value token of Some (key, _) \<Rightarrow> dir key | None \<Rightarrow> False)"

definition words_of :: "u8 list \<Rightarrow> u8 list list" where
  "words_of input = filter (\<lambda>w. w \<noteq> []) (split_by is_ascii_whitespace input)"

lemma for_each_key_value_split:
  "for_each_key_value input =
     List.map_filter parse_key_value (split_by (\<lambda>b. is_ascii_whitespace b \<or> b = 0x3B) input)"
proof (induction input rule: for_each_key_value.induct)
  case (1 input)
  let ?P = "\<lambda>b. is_ascii_whitespace b \<or> b = 0x3B"
  show ?case
  proof (cases "find_index ?P input")
    case None
    then show ?thesis
      by (subst for_each_key_value.simps)
         (auto simp: split_by_None List.map_filter_simps parse_key_value_def for_each_key_value.simps [of "[]"]
               split: option.splits)
  next
    case (Some i)
    then have "input \<noteq> []" by auto
    with 1 Some show ?thesis
      by (subst for_each_key_value.simps)
         (auto simp: split_by_Some List.map_filter_simps split: option.splits)
  qed
qed

lemma trim_ascii_Nil [simp]: "trim_ascii [] = []"
  by (simp add: trim_ascii_def)

lemma segments_split:
  "segments input = filter (\<lambda>s. s \<noteq> []) (map trim_ascii (split_by (\<lambda>b. b = 0x3B) input))"
proof -
  have step: "segments input =
      filter (\<lambda>s. s \<noteq> []) (map trim_ascii (split_by (\<lambda>b. b = 0x3B) input))"
    if "\<And>s rest. segments_next input = Some (s, rest) \<Longrightarrow>
        segments rest = filter (\<lambda>s. s \<noteq> []) (map trim_ascii (split_by (\<lambda>b. b = 0x3B) rest))" for input
    using that
  proof (induction input rule: segments_next.induct)
    case (1 input)
    show ?case
    proof (cases "input = []")
      case True
      then show ?thesis by (simp add: segments.simps segments_next.simps)
    next
      case False
      then show ?thesis
        using 1 by (cases "find_index (\<lambda>b. b = 0x3B) input")
          (auto simp: segments.simps [of input] segments.simps [of "drop _ input"] segments.simps [of "[]"]
                      segments_next.simps [of input] segments_next.simps [of "[]"]
                      split_by_None split_by_Some Let_def)
    qed
  qed
  show ?thesis
    by (induction input rule: measure_induct_rule [where f = length])
       (rule step, blast dest: segments_next_shorter)
qed

lemma words_of_skip:
  "(\<And>i. i < n \<Longrightarrow> is_ascii_whitespace (input ! i)) \<Longrightarrow> n \<le> length input \<Longrightarrow>
   words_of (drop n input) = words_of input"
proof (induction n arbitrary: input)
  case (Suc n)
  then obtain x xs where [simp]: "input = x # xs" by (cases input) auto
  have "words_of (drop n xs) = words_of xs"
    using Suc.prems by (intro Suc.IH) (use Suc.prems(1) [of "Suc _"] in auto)
  moreover have "is_ascii_whitespace x" using Suc.prems(1) [of 0] by simp
  ultimately show ?case by (simp add: words_of_def)
qed simp

lemma words_of_token:
  assumes "0 < token_end input"
  shows "words_of input = take (token_end input) input # words_of (drop (token_end input) input)"
proof (cases "find_index is_ascii_whitespace input")
  case None
  with assms show ?thesis
    by (simp add: words_of_def token_end_def split_by_None)
next
  case (Some i)
  then have i: "i < length input" "is_ascii_whitespace (input ! i)" by (auto simp: find_index_Some)
  then have "words_of (drop i input) = words_of (drop (i + 1) input)"
    by (simp add: words_of_def Cons_nth_drop_Suc [symmetric])
  with Some assms i show ?thesis
    by (auto simp: words_of_def token_end_def split_by_Some)
qed

lemma words_of_blank: "find_index (\<lambda>b. \<not> is_ascii_whitespace b) input = None \<Longrightarrow> words_of input = []"
  by (induction input) (auto simp: words_of_def split: if_splits)

lemma words_of_start:
  assumes "find_index (\<lambda>b. \<not> is_ascii_whitespace b) input = Some start"
  shows "words_of (drop start input) = words_of input"
  using assms by (intro words_of_skip) (auto simp: find_index_Some)

lemma tokens_next_Some:
  assumes "find_index (\<lambda>b. \<not> is_ascii_whitespace b) input = Some start"
  shows "tokens_next dir input =
    (let input = drop start input; token = take (token_end input) input; input' = drop (token_end input) input
     in if is_directive_token dir token then tokens_next dir input' else Some (token, input'))"
  using assms by (subst tokens_next.simps) (auto simp: Let_def is_directive_token_def)

lemma tokens_next_None:
  "find_index (\<lambda>b. \<not> is_ascii_whitespace b) input = None \<Longrightarrow> tokens_next dir input = None"
  by (subst tokens_next.simps) simp

lemma launch_tokens_words:
  "launch_tokens dir input = filter (\<lambda>t. \<not> is_directive_token dir t) (words_of input)"
proof (induction input rule: measure_induct_rule [where f = length])
  case (less input)
  show ?case
  proof (cases "find_index (\<lambda>b. \<not> is_ascii_whitespace b) input")
    case None
    then show ?thesis by (simp add: launch_tokens.simps tokens_next_None words_of_blank)
  next
    case (Some start)
    let ?rest = "drop (token_end (drop start input)) (drop start input)"
    have "words_of input = take (token_end (drop start input)) (drop start input) # words_of ?rest"
      using words_of_token [OF token_end_pos(1) [OF Some]] words_of_start [OF Some] by simp
    moreover have "launch_tokens dir ?rest = filter (\<lambda>t. \<not> is_directive_token dir t) (words_of ?rest)"
      using token_end_pos [OF Some] by (intro less.IH) simp
    moreover have "launch_tokens dir ?rest = (case tokens_next dir ?rest of
        None \<Rightarrow> [] | Some (t, rest) \<Rightarrow> t # launch_tokens dir rest)"
      by (rule launch_tokens.simps)
    ultimately show ?thesis
      by (simp add: launch_tokens.simps [of dir input] tokens_next_Some [OF Some] Let_def)
  qed
qed

lemma launch_of_tokens:
  "launch_of segment dir =
     (case launch_tokens dir segment of [] \<Rightarrow> None
      | t # _ \<Rightarrow> map_option (\<lambda>(p, rest). \<lparr>program = p, arguments_input = rest\<rparr>) (tokens_next dir segment))"
  by (simp add: launch_of_def launch_tokens.simps split: option.splits)

section \<open>The bounded argument copy\<close>

definition spaced :: "u8 list list \<Rightarrow> u8 list" where
  "spaced args = concat (map (\<lambda>a. 0x20 # a) args)"

lemma write_args_take:
  assumes "0 < len" "len \<le> length out"
  shows "\<exists>out'. write_args args out len = (out', min (length out) (len + length (spaced args))) \<and>
    length out' = length out \<and>
    take (min (length out) (len + length (spaced args))) out' =
      take (length out) (take len out @ spaced args)"
  using assms
proof (induction args arbitrary: out len)
  case Nil
  then show ?case by (simp add: spaced_def min_absorb2)
next
  case (Cons a args)
  have sp: "spaced (a # args) = 0x20 # a @ spaced args" by (simp add: spaced_def)
  consider "len = length out" | "len < length out" "length out - (len + 1) < length a"
    | "len < length out" "len + 1 + length a \<le> length out"
    using Cons.prems by linarith
  then show ?case
  proof cases
    case 1
    then show ?thesis using Cons.prems by simp
  next
    case 2
    let ?k = "length out - (len + 1)"
    let ?out = "take (len + 1) (out[len := 0x20]) @ take ?k a"
    have "write_args (a # args) out len = (?out, length out)"
      using 2 Cons.prems by (simp add: Let_def)
    moreover have "?out = take (length out) (take len out @ spaced (a # args))"
      using 2 Cons.prems
      by (simp add: sp take_Cons' take_Suc_conv_app_nth Suc_diff_Suc)
    ultimately show ?thesis using 2 by (simp add: sp)
  next
    case 3
    let ?out = "take (len + 1) (out[len := 0x20]) @ a @ drop (len + 1 + length a) (out[len := 0x20])"
    have out: "length ?out = length out" "take (len + 1 + length a) ?out = take len out @ 0x20 # a"
      using 3 by (simp_all add: take_Suc_conv_app_nth)
    have "min (length a) (length out - (len + 1)) = length a" using 3 by simp
    then have "write_args (a # args) out len = write_args args ?out (len + 1 + length a)"
      using 3 Cons.prems by (simp add: Let_def)
    then show ?thesis
      using Cons.IH [of "len + 1 + length a" ?out] 3
      unfolding out by (simp add: sp ac_simps)
  qed
qed

text \<open>
  Into a buffer of \<open>n\<close> bytes the copy puts the first \<open>n\<close> bytes of the arguments joined by single
  spaces, no more and no less.
\<close>

lemma write_args_joined:
  assumes "[] \<notin> set args"
  shows "take (snd (write_args args out 0)) (fst (write_args args out 0)) =
           take (length out) (tl (spaced args))"
    and "length (fst (write_args args out 0)) = length out"
proof -
  have "take (snd (write_args args out 0)) (fst (write_args args out 0)) = take (length out) (tl (spaced args)) \<and>
      length (fst (write_args args out 0)) = length out"
  proof (cases args)
    case Nil
    then show ?thesis by (simp add: spaced_def)
  next
    case (Cons a rest)
    with assms have "0 < length a" by auto
    show ?thesis
    proof (cases "length a \<le> length out")
      case True
      then show ?thesis
        using write_args_take [of "length a" "a @ drop (length a) out" rest] \<open>0 < length a\<close>
        by (auto simp: Cons spaced_def Let_def min_def)
    next
      case False
      then show ?thesis by (simp add: Cons spaced_def Let_def min_def)
    qed
  qed
  then show "take (snd (write_args args out 0)) (fst (write_args args out 0)) =
           take (length out) (tl (spaced args))"
    and "length (fst (write_args args out 0)) = length out" by simp_all
qed

lemma words_of_nonempty: "[] \<notin> set (words_of input)"
  by (simp add: words_of_def)

lemma launch_of_Some:
  assumes "launch_of segment dir = Some l"
  shows "launch_tokens dir segment = program l # launch_arguments dir l"
  using assms by (auto simp: launch_of_def launch_arguments_def launch_tokens.simps [of dir segment]
      split: option.splits)

section \<open>Properties\<close>

text \<open>
  C23.  The incremental scanners compute the plain splittings: the key/value visits are those of
  the fields between blanks and semicolons, the launch segments are the non-empty trimmed fields
  between semicolons, and the launch tokens are the blank-separated words that are not the
  caller's directives.
\<close>

theorem cmdline_splitting:
  "for_each_key_value input =
     List.map_filter parse_key_value (split_by (\<lambda>b. is_ascii_whitespace b \<or> b = 0x3B) input)
   \<and> segments input = filter (\<lambda>s. s \<noteq> []) (map trim_ascii (split_by (\<lambda>b. b = 0x3B) input))
   \<and> launch_tokens dir input = filter (\<lambda>t. \<not> is_directive_token dir t) (words_of input)"
  by (intro conjI for_each_key_value_split segments_split launch_tokens_words)

text \<open>
  The argument copy keeps the size of the caller's buffer and fills it with exactly the
  longest prefix that fits of the arguments joined by single spaces, the arguments being the
  tokens after the program.
\<close>

theorem write_arguments_prefix:
  assumes "launch_of segment dir = Some l"
  shows "take (snd (write_arguments dir l out)) (fst (write_arguments dir l out)) =
           take (length out) (tl (spaced (tl (launch_tokens dir segment))))
         \<and> length (fst (write_arguments dir l out)) = length out
         \<and> program l = hd (launch_tokens dir segment)"
proof -
  have tok: "launch_tokens dir segment = program l # launch_arguments dir l"
    by (rule launch_of_Some [OF assms])
  have "[] \<notin> set (launch_arguments dir l)"
    by (auto simp: launch_arguments_def launch_tokens_words words_of_def)
  then show ?thesis
    using write_args_joined [of "launch_arguments dir l" out] by (simp add: tok write_arguments_def)
qed

text \<open>
  The limit falls anywhere, so the copy can end in a space: of \<open>p a b\<close> a two-byte buffer receives
  \<open>a\<close> and a space.
\<close>

lemma write_arguments_trailing_space:
  "launch_of (bytes_of ''p a b'') (\<lambda>_. False) =
     Some \<lparr>program = bytes_of ''p'', arguments_input = bytes_of '' a b''\<rparr>
   \<and> write_arguments (\<lambda>_. False) \<lparr>program = bytes_of ''p'', arguments_input = bytes_of '' a b''\<rparr> [0, 0] =
       (bytes_of ''a '', 2)"
  by code_simp

theorem write_arguments_prefix_witness:
  "take (snd (write_arguments (\<lambda>_. False) \<lparr>program = bytes_of ''p'', arguments_input = bytes_of '' a b''\<rparr> [0, 0]))
        (fst (write_arguments (\<lambda>_. False) \<lparr>program = bytes_of ''p'', arguments_input = bytes_of '' a b''\<rparr> [0, 0]))
     = take 2 (bytes_of ''a b'')"
proof -
  have tok: "launch_tokens (\<lambda>_. False) (bytes_of ''p a b'') = map bytes_of [''p'', ''a'', ''b'']"
    unfolding launch_tokens_words by code_simp
  have "take 2 (tl (spaced (tl (map bytes_of [''p'', ''a'', ''b''])))) = take 2 (bytes_of ''a b'')"
    by code_simp
  then show ?thesis
    using write_arguments_prefix [OF write_arguments_trailing_space [THEN conjunct1], of "[0, 0]"]
    unfolding tok by (simp add: numeral_2_eq_2)
qed

end
