(* ===== verification/DosPath.thy ===== *)
theory DosPath
  imports Cmdline
begin

text \<open>
  DOS path names (\<^verbatim>\<open>kernel/src/kernel/dos/dfs.rs\<close>): drives, the current directory of each drive, and the
  resolution of a path to the absolute form \<open>X:\PATH\<close>.  The code builds the path in a buffer of 128
  bytes and rewrites it in place; the definitions keep the buffer, its indices and its loops.  The
  lemmas show that the result is the one of the plain definition \<open>resolve_path\<close> on lists of
  components, that it is canonical, and that resolving it again changes nothing.

  Errors are the DOS codes of the source.  A buffer whose filling fails is abandoned by every caller.
\<close>

section \<open>Bytes and constants\<close>

definition to_ascii_uppercase :: "u8 \<Rightarrow> u8" where
  "to_ascii_uppercase b = (if 0x61 \<le> b \<and> b \<le> 0x7A then b - 0x20 else b)"

definition is_ascii_alphabetic :: "u8 \<Rightarrow> bool" where
  "is_ascii_alphabetic b \<longleftrightarrow> 0x41 \<le> b \<and> b \<le> 0x5A \<or> 0x61 \<le> b \<and> b \<le> 0x7A"

definition DFS_PATH_MAX :: nat where "DFS_PATH_MAX = 128"
definition DFS_CWD_MAX :: nat where "DFS_CWD_MAX = 64"

text \<open>A path byte in DOS form: a slash becomes a backslash, a letter its capital.\<close>
definition dos_byte :: "u8 \<Rightarrow> u8" where
  "dos_byte b = (if b = 0x2F then 0x5C else to_ascii_uppercase b)"

section \<open>The state of a DOS thread\<close>

record dfs_state =
  cwd :: "u8 list list"
  cwd_len :: "u8 list"
  current_drive :: u8
  hostfs_enabled :: bool

definition dfs_new_with_hostfs :: "bool \<Rightarrow> dfs_state" where
  "dfs_new_with_hostfs h =
     \<lparr>cwd = replicate 5 (replicate DFS_CWD_MAX 0), cwd_len = replicate 5 0, current_drive = 0x43, hostfs_enabled = h\<rparr>"

definition dfs_new :: dfs_state where
  "dfs_new = dfs_new_with_hostfs False"

definition drive_slot :: "u8 \<Rightarrow> nat option" where
  "drive_slot drive =
     (let d = to_ascii_uppercase drive in
      if d = 0x43 then Some 0 else if d = 0x44 then Some 1 else if d = 0x48 then Some 2
      else if d = 0x41 then Some 3 else if d = 0x42 then Some 4 else None)"

definition drive_available :: "dfs_state \<Rightarrow> u8 \<Rightarrow> bool" where
  "drive_available s drive =
     (let drive = to_ascii_uppercase drive
      in drive_slot drive \<noteq> None \<and> (drive \<noteq> 0x48 \<or> hostfs_enabled s))"

definition get_cwd_for :: "dfs_state \<Rightarrow> u8 \<Rightarrow> u8 list option" where
  "get_cwd_for s drive =
     (if \<not> drive_available s drive then None
      else case drive_slot drive of
             None \<Rightarrow> None
           | Some slot \<Rightarrow> Some (take (unat (cwd_len s ! slot)) (cwd s ! slot)))"

definition get_cwd :: "dfs_state \<Rightarrow> u8 list" where
  "get_cwd s = (case get_cwd_for s (current_drive s) of Some c \<Rightarrow> c | None \<Rightarrow> [])"

text \<open>A slice copied over the start of a buffer.\<close>
definition copy_from_slice :: "'a list \<Rightarrow> 'a list \<Rightarrow> 'a list" where
  "copy_from_slice src buf = src @ drop (length src) buf"

definition set_cwd_for :: "u8 \<Rightarrow> u8 list \<Rightarrow> dfs_state \<Rightarrow> dfs_state" where
  "set_cwd_for drive new_cwd s =
     (if \<not> drive_available s drive then s
      else case drive_slot drive of
             None \<Rightarrow> s
           | Some slot \<Rightarrow>
               let n = min (length new_cwd) DFS_CWD_MAX
               in s\<lparr>cwd := (cwd s)[slot := copy_from_slice (take n new_cwd) (cwd s ! slot)],
                    cwd_len := (cwd_len s)[slot := of_nat n]\<rparr>)"

definition set_cwd :: "u8 list \<Rightarrow> dfs_state \<Rightarrow> dfs_state" where
  "set_cwd new_cwd s = set_cwd_for (current_drive s) new_cwd s"

definition select_drive :: "u8 \<Rightarrow> dfs_state \<Rightarrow> bool \<times> dfs_state" where
  "select_drive drive s =
     (let drive = to_ascii_uppercase drive in
      if \<not> drive_available s drive then (False, s) else (True, s\<lparr>current_drive := drive\<rparr>))"

definition current_drive_number :: "dfs_state \<Rightarrow> u8" where
  "current_drive_number s = current_drive s - 0x41"

text \<open>The static prefix of drive C: its buffer and its length.\<close>
definition set_c_root :: "u8 list \<Rightarrow> u8 list \<times> nat \<Rightarrow> u8 list \<times> nat" where
  "set_c_root pre = (\<lambda>(buf, _). let n = min (length pre) 128 in (copy_from_slice (take n pre) buf, n))"

definition c_root :: "u8 list \<times> nat \<Rightarrow> u8 list" where
  "c_root = (\<lambda>(buf, n). take n buf)"

definition trim_first :: "u8 list \<Rightarrow> u8 list" where
  "trim_first = dropWhile (\<lambda>b. b = 0x2F)"

definition trim_last :: "u8 list \<Rightarrow> u8 list" where
  "trim_last s = rev (dropWhile (\<lambda>b. b = 0x2F) (rev s))"

definition store_cwd_slot :: "nat \<Rightarrow> u8 list \<Rightarrow> dfs_state \<Rightarrow> dfs_state" where
  "store_cwd_slot slot p s =
     (let p = trim_last (trim_first p); n = min (length p) DFS_CWD_MAX
      in s\<lparr>cwd := (cwd s)[slot := copy_from_slice (map dos_byte (take n p)) (cwd s ! slot)],
           cwd_len := (cwd_len s)[slot := of_nat n]\<rparr>)"

definition strip_c_root :: "u8 list \<Rightarrow> u8 list \<Rightarrow> u8 list" where
  "strip_c_root cr s = (if length cr \<le> length s \<and> take (length cr) s = cr then drop (length cr) s else s)"

definition init_from_vfs :: "u8 list \<Rightarrow> u8 list \<Rightarrow> dfs_state \<Rightarrow> dfs_state" where
  "init_from_vfs cr vfs_cwd s =
     (let drive = to_ascii_uppercase (vfs_cwd ! 0) in
      if 2 \<le> length vfs_cwd \<and> vfs_cwd ! 1 = 0x3A \<and> is_ascii_alphabetic (vfs_cwd ! 0) \<and>
         drive_available s drive \<and> drive_slot drive \<noteq> None
      then store_cwd_slot (the (drive_slot drive)) (drop 2 vfs_cwd) (s\<lparr>current_drive := drive\<rparr>)
      else store_cwd_slot 0 (strip_c_root cr (trim_first vfs_cwd)) s)"

section \<open>Resolving a path in the buffer\<close>

definition and_then :: "'e + 'a \<Rightarrow> ('a \<Rightarrow> 'e + 'b) \<Rightarrow> 'e + 'b" where
  "and_then r f = (case r of Inl e \<Rightarrow> Inl e | Inr x \<Rightarrow> f x)"

text \<open>The loops that append bytes to the buffer, with their bound check.\<close>
fun emit :: "u8 list \<Rightarrow> u8 list \<times> nat \<Rightarrow> int + (u8 list \<times> nat)" where
  "emit [] (out, pos) = Inr (out, pos)" |
  "emit (b # bs) (out, pos) =
     (if length out \<le> pos then Inl 3 else emit bs (out[pos := b], Suc pos))"

function skip_while :: "(u8 \<Rightarrow> bool) \<Rightarrow> u8 list \<Rightarrow> nat \<Rightarrow> nat \<Rightarrow> nat" where
  "skip_while P buf len read = (if read < len \<and> P (buf ! read) then skip_while P buf len (Suc read) else read)"
  by pat_completeness auto
termination
  by (relation "measure (\<lambda>(_, _, len, read). len - read)") auto

declare skip_while.simps [simp del]

text \<open>One step of the loop that drops the spaces of a component.\<close>
definition squeeze :: "nat \<Rightarrow> u8 list \<times> nat \<Rightarrow> u8 list \<times> nat" where
  "squeeze src = (\<lambda>(buf, comp_end).
     if buf ! src \<noteq> 0x20 then (buf[comp_end := buf ! src], Suc comp_end) else (buf, comp_end))"

text \<open>Moves \<open>write\<close> back over the last written component, not below the root.\<close>
fun pop_chars :: "u8 list \<Rightarrow> nat \<Rightarrow> nat" where
  "pop_chars buf 0 = 0" |
  "pop_chars buf (Suc w) = (if 3 < Suc w \<and> buf ! w \<noteq> 0x5C then pop_chars buf w else Suc w)"

definition pop_component :: "u8 list \<Rightarrow> nat \<Rightarrow> nat" where
  "pop_component buf write = (let w = pop_chars buf write in if 3 < w then w - 1 else w)"

definition copy_down :: "nat \<Rightarrow> nat \<Rightarrow> nat \<Rightarrow> u8 list \<Rightarrow> u8 list" where
  "copy_down write comp_start comp_len buf =
     fold (\<lambda>i buf. buf[write + i := buf ! (comp_start + i)]) [0..<comp_len] buf"

text \<open>The body of the loop for the component that starts at \<open>comp_start\<close> and ends before \<open>read\<close>.\<close>
definition canon_component :: "nat \<Rightarrow> nat \<Rightarrow> u8 list \<times> nat \<Rightarrow> u8 list \<times> nat" where
  "canon_component comp_start read = (\<lambda>(buf, write).
     let (buf, comp_end) = fold squeeze [comp_start..<read] (buf, comp_start);
         comp_len = comp_end - comp_start;
         is_dot = (comp_len = 1 \<and> buf ! comp_start = 0x2E);
         is_dotdot = (comp_len = 2 \<and> buf ! comp_start = 0x2E \<and> buf ! (comp_start + 1) = 0x2E)
     in if comp_len = 0 \<or> is_dot then (buf, write)
        else if is_dotdot then (buf, pop_component buf write)
        else let (buf, write) = (if 3 < write then (buf[write := 0x5C], Suc write) else (buf, write))
             in (copy_down write comp_start comp_len buf, write + comp_len))"

lemma skip_while_spec:
  "read \<le> skip_while P buf len read"
  "skip_while P buf len read < len \<Longrightarrow> \<not> P (buf ! skip_while P buf len read)"
proof (induction P buf len read rule: skip_while.induct)
  case (1 P buf len read)
  {
    case 1
    then show ?case using "1.IH"(1) by (subst skip_while.simps) auto
  next
    case 2
    then show ?case using "1.IH"(2) by (cases "read < len \<and> P (buf ! read)") (simp_all add: skip_while.simps [of P buf len read])
  }
qed

function canon_loop :: "nat \<Rightarrow> nat \<Rightarrow> u8 list \<times> nat \<Rightarrow> u8 list \<times> nat" where
  "canon_loop len read (buf, write) =
     (if read < len then
        let comp_start = skip_while (\<lambda>b. b = 0x5C) buf len read
        in if len \<le> comp_start then (buf, write)
           else let read = skip_while (\<lambda>b. b \<noteq> 0x5C) buf len comp_start
                in canon_loop len read (canon_component comp_start read (buf, write))
      else (buf, write))"
  by pat_completeness auto
termination
proof (relation "measure (\<lambda>(len, read, _). len - read)")
  fix len read x xa wr :: nat and buf :: "u8 list"
  assume "read < len" and x: "x = skip_while (\<lambda>b. b = 0x5C) buf len read" and lt: "\<not> len \<le> x"
    and xa: "xa = skip_while (\<lambda>b. b \<noteq> 0x5C) buf len x"
  have "read \<le> x" "buf ! x \<noteq> 0x5C" using skip_while_spec [where P = "\<lambda>b. b = 0x5C" and buf = buf and len = len and read = read] x lt by auto
  moreover from this have "xa = skip_while (\<lambda>b. b \<noteq> 0x5C) buf len (Suc x)" using lt xa by (simp add: skip_while.simps)
  then have "Suc x \<le> xa" using skip_while_spec(1) by simp
  ultimately show "((len, xa, canon_component x xa (buf, wr)), len, read, buf, wr) \<in> measure (\<lambda>(len, read, _). len - read)"
    using lt by simp
qed simp

declare canon_loop.simps [simp del]

definition canonicalize_components :: "u8 list \<Rightarrow> nat \<Rightarrow> u8 list \<times> nat" where
  "canonicalize_components buf len = (if len \<le> 3 then (buf, len) else canon_loop len 3 (buf, 3))"

text \<open>The final loop over trailing backslashes.\<close>
fun trim_seps :: "u8 list \<Rightarrow> nat \<Rightarrow> nat" where
  "trim_seps buf 0 = 0" |
  "trim_seps buf (Suc pos) = (if 3 < Suc pos \<and> buf ! pos = 0x5C then trim_seps buf pos else Suc pos)"

definition split_drive :: "dfs_state \<Rightarrow> u8 list \<Rightarrow> u8 \<times> u8 list" where
  "split_drive s dos_in =
     (if 2 \<le> length dos_in \<and> dos_in ! 1 = 0x3A then (to_ascii_uppercase (dos_in ! 0), drop 2 dos_in)
      else (current_drive s, dos_in))"

definition resolve :: "dfs_state \<Rightarrow> u8 list \<Rightarrow> u8 list \<Rightarrow> int + (u8 list \<times> nat)" where
  "resolve s dos_in out =
     (let (drive, rest) = split_drive s dos_in in
      if \<not> drive_available s drive then Inl 15
      else if length out < 0 + 3 then Inl 3
      else let out = out[0 := drive, 1 := 0x3A, 2 := 0x5C];
               absolute = (rest \<noteq> [] \<and> (rest ! 0 = 0x5C \<or> rest ! 0 = 0x2F));
               rest = (if absolute then drop 1 rest else rest);
               cwd = (case get_cwd_for s drive of Some c \<Rightarrow> c | None \<Rightarrow> [])
           in and_then (if absolute then Inr (out, 3)
                        else and_then (emit cwd (out, 3)) (\<lambda>r. if cwd \<noteq> [] \<and> rest \<noteq> [] then emit [0x5C] r else Inr r))
                (\<lambda>r. and_then (emit (map dos_byte rest) r)
                (\<lambda>(out, pos). let (out, pos) = canonicalize_components out pos in Inr (out, trim_seps out pos))))"

definition vfs_to_dos :: "u8 list \<Rightarrow> u8 list \<Rightarrow> u8 list \<Rightarrow> u8 list \<times> nat" where
  "vfs_to_dos cr vfs out =
     (let s = strip_c_root cr (trim_first vfs) in
      if length out < 0 + 3 then (out, 0)
      else let p = take (length out - 3) (map dos_byte s)
           in (copy_from_slice ([0x43, 0x3A, 0x5C] @ p) out, 3 + length p))"

section \<open>The reference definition\<close>

text \<open>The path a filled buffer holds.\<close>
fun written :: "int + (u8 list \<times> nat) \<Rightarrow> int + u8 list" where
  "written (Inl e) = Inl e" |
  "written (Inr (b, n)) = Inr (take n b)"

text \<open>A path as its components, each without its spaces.\<close>
definition path_comps :: "u8 list \<Rightarrow> u8 list list" where
  "path_comps raw = map (filter (\<lambda>b. b \<noteq> 0x20)) (split_by (\<lambda>b. b = 0x5C) raw)"

definition collapse_step :: "u8 list list \<Rightarrow> u8 list \<Rightarrow> u8 list list" where
  "collapse_step st c = (if c = [] \<or> c = [0x2E] then st else if c = [0x2E, 0x2E] then butlast st else st @ [c])"

definition collapse :: "u8 list list \<Rightarrow> u8 list \<Rightarrow> u8 list list" where
  "collapse st raw = foldl collapse_step st (path_comps raw)"

fun join_path :: "u8 list list \<Rightarrow> u8 list" where
  "join_path [] = []" |
  "join_path [c] = c" |
  "join_path (c # cs) = c @ 0x5C # join_path cs"

definition raw_path :: "dfs_state \<Rightarrow> u8 \<Rightarrow> u8 list \<Rightarrow> u8 list" where
  "raw_path s drive rest =
     (if rest \<noteq> [] \<and> (hd rest = 0x5C \<or> hd rest = 0x2F) then map dos_byte (tl rest)
      else let c = the (get_cwd_for s drive)
           in c @ (if c \<noteq> [] \<and> rest \<noteq> [] then [0x5C] else []) @ map dos_byte rest)"

definition resolve_path :: "dfs_state \<Rightarrow> u8 list \<Rightarrow> int + u8 list" where
  "resolve_path s dos_in =
     (let (drive, rest) = split_drive s dos_in; raw = raw_path s drive rest in
      if \<not> drive_available s drive then Inl 15
      else if DFS_PATH_MAX < 3 + length raw then Inl 3
      else Inr ([drive, 0x3A, 0x5C] @ join_path (collapse [] raw)))"

section \<open>The loops\<close>

definition comps_ok :: "u8 list list \<Rightarrow> bool" where
  "comps_ok st \<longleftrightarrow> list_all (\<lambda>c. c \<noteq> [] \<and> 0x5C \<notin> set c) st"

lemma comps_ok_Nil [simp]: "comps_ok []"
  by (simp add: comps_ok_def)

lemma join_path_snoc: "join_path (st @ [c]) = (if st = [] then c else join_path st @ 0x5C # c)"
  by (induction st rule: join_path.induct) auto

lemma skip_while_length:
  "read \<le> len \<Longrightarrow> len \<le> length buf \<Longrightarrow>
   skip_while P buf len read = read + length (takeWhile P (drop read (take len buf)))"
proof (induction P buf len read rule: skip_while.induct)
  case (1 P buf len read)
  show ?case
  proof (cases "read < len")
    case True
    then have "drop read (take len buf) = buf ! read # drop (Suc read) (take len buf)"
      using 1 by (simp add: Cons_nth_drop_Suc [symmetric])
    then show ?thesis using 1 True by (simp add: skip_while.simps [of P buf len read])
  next
    case False
    then have "read = len" using 1 by simp
    then show ?thesis by (simp add: skip_while.simps [of P buf len len])
  qed
qed

lemma squeeze_spec:
  assumes "d \<le> a" and "a \<le> b" and "b \<le> length buf"
  defines "c \<equiv> filter (\<lambda>b. b \<noteq> 0x20) (take (b - a) (drop a buf))"
  shows "\<exists>buf'. fold squeeze [a..<b] (buf, d) = (buf', d + length c) \<and> length buf' = length buf \<and>
    take (d + length c) buf' = take d buf @ c \<and> drop b buf' = drop b buf"
  using assms(2,3) unfolding c_def
proof (induction b rule: dec_induct)
  case base
  then show ?case by simp
next
  case (step n)
  let ?c = "filter (\<lambda>b. b \<noteq> 0x20) (take (n - a) (drop a buf))"
  obtain buf' where b: "fold squeeze [a..<n] (buf, d) = (buf', d + length ?c)" "length buf' = length buf"
    "take (d + length ?c) buf' = take d buf @ ?c" "drop n buf' = drop n buf" using step by auto
  have "length ?c \<le> n - a" by (rule le_trans [OF length_filter_le]) simp
  then have le: "d + length ?c \<le> n" using step assms(1) by linarith
  have nth: "buf' ! n = buf ! n" using b(2,4) step by (metis Cons_nth_drop_Suc Suc_le_lessD list.inject)
  have tk: "take (Suc n - a) (drop a buf) = take (n - a) (drop a buf) @ [buf ! n]"
    using step by (simp add: Suc_diff_le take_Suc_conv_app_nth)
  have dr: "drop (Suc n) buf' = drop (Suc n) buf" using b(4) by (metis drop_Suc tl_drop)
  have "fold squeeze [a..<Suc n] (buf, d) = squeeze n (buf', d + length ?c)" using b(1) step by simp
  also have "\<dots> = (if buf ! n = 0x20 then (buf', d + length ?c) else (buf'[d + length ?c := buf ! n], Suc (d + length ?c)))"
    by (simp add: squeeze_def nth)
  finally show ?case
    using b(2,3) step(2,4) le dr by (cases "buf ! n = 0x20") (simp_all add: tk take_Suc_update)
qed

lemma copy_down_spec:
  assumes "wr \<le> cs" and "cs + n \<le> length buf"
  shows "length (copy_down wr cs n buf) = length buf \<and>
    take (wr + n) (copy_down wr cs n buf) = take wr buf @ take n (drop cs buf) \<and>
    drop (wr + n) (copy_down wr cs n buf) = drop (wr + n) buf"
  using assms(2)
proof (induction n)
  case 0
  then show ?case by (simp add: copy_down_def)
next
  case (Suc n)
  let ?b = "copy_down wr cs n buf"
  have ih: "length ?b = length buf" "take (wr + n) ?b = take wr buf @ take n (drop cs buf)"
    "drop (wr + n) ?b = drop (wr + n) buf" using Suc by auto
  have "drop (cs - wr) (drop (wr + n) ?b) = drop (cs - wr) (drop (wr + n) buf)" using ih(3) by simp
  then have "drop (cs + n) ?b = drop (cs + n) buf" using assms(1) by simp
  then have nth: "?b ! (cs + n) = buf ! (cs + n)"
    using ih(1) Suc.prems nth_drop [of "cs + n" ?b 0] nth_drop [of "cs + n" buf 0] by simp
  have step: "copy_down wr cs (Suc n) buf = ?b[wr + n := buf ! (cs + n)]"
    using nth by (simp add: copy_down_def)
  have "drop (Suc (wr + n)) ?b = drop (Suc (wr + n)) buf" using ih(3) by (metis drop_Suc tl_drop)
  then show ?case using ih Suc.prems assms(1) unfolding step
    by (simp add: take_Suc_update take_Suc_conv_app_nth [of n "drop cs buf"])
qed

lemma pop_chars_spec:
  assumes "0x5C \<notin> set c" and "3 \<le> length p" and "length p = 3 \<or> last p = 0x5C"
  shows "take w buf = p @ c \<Longrightarrow> w \<le> length buf \<Longrightarrow> pop_chars buf w = length p"
  using assms(1)
proof (induction c arbitrary: w rule: rev_induct)
  case Nil
  then have w: "w = length p" by (metis append_Nil2 length_take min.absorb2)
  then have "w \<noteq> 0" using assms(2) by auto
  then obtain v where v: "w = Suc v" by (cases w) auto
  have "last (take w buf) = buf ! v" using Nil.prems(2) v by (simp add: take_Suc_conv_app_nth)
  then have "buf ! v = last p" using Nil.prems(1) by simp
  then have "\<not> (3 < Suc v \<and> buf ! v \<noteq> 0x5C)" using assms(3) v w by auto
  then have "pop_chars buf (Suc v) = Suc v" by auto
  then show ?case using v w by simp
next
  case (snoc x c)
  let ?n = "length (p @ c)"
  have w: "w = Suc ?n" using snoc.prems(2) arg_cong [OF snoc.prems(1), of length] by simp
  then have "take w buf = take ?n buf @ [buf ! ?n]" using snoc.prems(2) by (simp add: take_Suc_conv_app_nth)
  with snoc.prems(1) have "take ?n buf @ [buf ! ?n] = (p @ c) @ [x]" by (simp only: append_assoc)
  then have "take ?n buf = p @ c" "buf ! ?n = x" by (simp_all only: append1_eq_conv)
  moreover have "pop_chars buf ?n = length p" using snoc calculation(1) w by (intro snoc.IH) auto
  ultimately show ?case using snoc.prems(3) assms(2) w by simp
qed

lemma pop_component_spec:
  assumes "take w buf = root @ join_path st" and "w \<le> length buf" and "length root = 3" and "comps_ok st"
  shows "pop_component buf w = 3 + length (join_path (butlast st))"
proof (cases st rule: rev_cases)
  case Nil
  then have "w = 3" using assms by (metis append_Nil2 join_path.simps(1) length_take min.absorb2)
  then show ?thesis using Nil by (simp add: pop_component_def numeral_3_eq_3)
next
  case (snoc cs c)
  let ?p = "root @ join_path cs @ (if cs = [] then [] else [0x5C])"
  have "take w buf = ?p @ c" using assms(1) snoc by (simp add: join_path_snoc)
  moreover have "0x5C \<notin> set c" using assms(4) snoc by (simp add: comps_ok_def)
  ultimately have "pop_chars buf w = length ?p" using assms(2,3) by (intro pop_chars_spec) auto
  then show ?thesis using snoc assms(3) by (simp add: pop_component_def)
qed

lemma comps_ok_step: "comps_ok st \<Longrightarrow> 0x5C \<notin> set c \<Longrightarrow> comps_ok (collapse_step st c)"
  by (auto simp: comps_ok_def collapse_step_def list_all_iff dest: in_set_butlastD)

lemma join_path_eq_Nil: "comps_ok st \<Longrightarrow> join_path st = [] \<longleftrightarrow> st = []"
  by (cases st rule: join_path.cases) (auto simp: comps_ok_def)

lemma join_path_butlast: "\<exists>r. join_path st = join_path (butlast st) @ r"
  by (cases st rule: rev_cases) (auto simp: join_path_snoc)

text \<open>One component moves down onto the written path, and the unread part stays.\<close>

lemma canon_component_spec:
  assumes path: "take wr buf = root @ join_path st" "length root = 3" "comps_ok st"
    and pos: "wr \<le> cs" "3 < wr \<longrightarrow> wr < cs" "cs \<le> rd" "rd \<le> length buf"
    and comp: "0x5C \<notin> set (take (rd - cs) (drop cs buf))"
  defines "c \<equiv> filter (\<lambda>b. b \<noteq> 0x20) (take (rd - cs) (drop cs buf))"
  shows "\<exists>buf' wr'. canon_component cs rd (buf, wr) = (buf', wr') \<and> length buf' = length buf \<and>
    drop rd buf' = drop rd buf \<and> wr' \<le> rd \<and> take wr' buf' = root @ join_path (collapse_step st c)"
proof -
  obtain b1 where b1: "fold squeeze [cs..<rd] (buf, cs) = (b1, cs + length c)" "length b1 = length buf"
    "take (cs + length c) b1 = take cs buf @ c" "drop rd b1 = drop rd buf"
    using squeeze_spec [of cs cs rd buf] pos unfolding c_def by auto
  have "length c \<le> rd - cs" unfolding c_def by (rule le_trans [OF length_filter_le]) simp
  then have lc: "cs + length c \<le> rd" using pos(3) by linarith
  have seg: "take (length c) (drop cs b1) = c"
    using arg_cong [OF b1(3), of "drop cs"] pos by (simp add: drop_take)
  have nth: "i < length c \<Longrightarrow> b1 ! (cs + i) = c ! i" for i
    using arg_cong [OF seg, of "\<lambda>xs. xs ! i"] b1(2) lc pos by simp
  have low: "take wr b1 = take wr buf"
    using arg_cong [OF b1(3), of "take wr"] pos(1,3,4) by (simp add: min.absorb1)
  have wr: "wr = 3 + length (join_path st)" using arg_cong [OF path(1), of length] pos path(2) by simp
  consider "c = [] \<or> c = [0x2E]" | "c = [0x2E, 0x2E]" | "c \<noteq> []" "c \<noteq> [0x2E]" "c \<noteq> [0x2E, 0x2E]" by blast
  then show ?thesis
  proof cases
    case 1
    then have "canon_component cs rd (buf, wr) = (b1, wr)" using b1(1) nth [of 0] by (auto simp: canon_component_def)
    then show ?thesis using 1 b1 low path pos by (auto simp: collapse_step_def)
  next
    case 2
    then have "canon_component cs rd (buf, wr) = (b1, pop_component b1 wr)"
      using b1(1) nth [of 0] nth [of 1] by (simp add: canon_component_def)
    moreover have "pop_component b1 wr = 3 + length (join_path (butlast st))"
      using path low pos b1(2) by (intro pop_component_spec) auto
    moreover obtain r where r: "join_path st = join_path (butlast st) @ r" using join_path_butlast by blast
    moreover have "take (3 + length (join_path (butlast st))) b1 = root @ join_path (butlast st)"
      using arg_cong [OF low [unfolded path(1)], of "take (3 + length (join_path (butlast st)))"] path(2) r wr
      by (simp add: min.absorb1)
    ultimately show ?thesis using 2 b1 wr pos by (simp add: collapse_step_def)
  next
    case 3
    let ?w = "if 3 < wr then Suc wr else wr" and ?b = "if 3 < wr then b1[wr := 0x5C] else b1"
    have dot: "\<not> (length c = Suc 0 \<and> b1 ! cs = 0x2E)" "\<not> (length c = 2 \<and> b1 ! cs = 0x2E \<and> b1 ! Suc cs = 0x2E)"
      using 3 nth [of 0] nth [of 1] by (auto simp: length_Suc_conv numeral_2_eq_2)
    then have "canon_component cs rd (buf, wr) = (copy_down ?w cs (length c) ?b, ?w + length c)"
      using b1(1) 3 by (auto simp: canon_component_def Let_def)
    moreover have w: "?w \<le> cs" using pos by auto
    moreover have b: "length ?b = length buf" "drop rd ?b = drop rd buf" "take (length c) (drop cs ?b) = c"
      using b1 pos seg by auto
    moreover have "take ?w ?b = root @ join_path st @ (if st = [] then [] else [0x5C])"
    proof (cases "st = []")
      case False
      then have "3 < wr" using wr path(3) by (simp add: join_path_eq_Nil)
      moreover have "wr < length b1" using calculation pos b1(2) by linarith
      ultimately show ?thesis using low path(1) False by (simp add: take_Suc_update)
    qed (use wr low path in simp)
    moreover have "drop rd (copy_down ?w cs (length c) ?b) = drop rd ?b"
      using copy_down_spec [OF w, of "length c" ?b, THEN conjunct2, THEN conjunct2, THEN arg_cong, of "drop (rd - (?w + length c))"]
        lc b(1) pos w by (simp del: if_split)
    ultimately show ?thesis using copy_down_spec [OF w, of "length c" ?b] lc pos 3
      by (simp add: collapse_step_def join_path_snoc)
  qed
qed

lemma split_by_comp: "y \<notin> set w \<Longrightarrow> split_by (\<lambda>b. b = y) w = [w]"
  and split_by_sep: "y \<notin> set w \<Longrightarrow> split_by (\<lambda>b. b = y) (w @ y # r) = w # split_by (\<lambda>b. b = y) r"
  by (induction w) auto

lemma collapse_Nil [simp]: "collapse st [] = st"
  by (simp add: collapse_def path_comps_def collapse_step_def)

lemma collapse_seps: "\<forall>x\<in>set w. x = 0x5C \<Longrightarrow> collapse st (w @ r) = collapse st r"
  by (induction w) (auto simp: collapse_def path_comps_def collapse_step_def)

lemma collapse_comp:
  "0x5C \<notin> set w \<Longrightarrow> r = [] \<or> hd r = 0x5C \<Longrightarrow>
   collapse st (w @ r) = collapse (collapse_step st (filter (\<lambda>b. b \<noteq> 0x20) w)) r"
  by (cases r) (auto simp: collapse_def path_comps_def split_by_comp split_by_sep collapse_step_def [of _ "[]"])

text \<open>Each round of the loop consumes separators and one component of the unread part.\<close>

lemma canon_loop_spec:
  assumes "take wr buf = root @ join_path st" and "length root = 3" and "comps_ok st"
    and "wr \<le> read" and "3 < wr \<longrightarrow> read < len \<longrightarrow> buf ! read = 0x5C" and "read \<le> len" and "len \<le> length buf"
    and "canon_loop len read (buf, wr) = (buf', wr')"
  shows "length buf' = length buf \<and> wr' \<le> len \<and> take wr' buf' = root @ join_path (collapse st (drop read (take len buf)))"
  using assms
proof (induction len read "(buf, wr)" arbitrary: buf wr st rule: canon_loop.induct)
  case (1 len read buf wr)
  note IH = 1(1) and a = 1(2-9)
  let ?R = "drop read (take len buf)" and ?sep = "\<lambda>b. b = 0x5C"
  define cs where "cs = skip_while ?sep buf len read"
  define rd where "rd = skip_while (\<lambda>b. b \<noteq> 0x5C) buf len cs"
  have cs: "cs = read + length (takeWhile ?sep ?R)" unfolding cs_def using a by (simp add: skip_while_length)
  then have D: "drop cs (take len buf) = dropWhile ?sep ?R" by (simp add: dropWhile_eq_drop add.commute)
  have csle: "cs \<le> len" using cs a length_takeWhile_le [of ?sep ?R] by simp
  have skip: "collapse st ?R = collapse st (drop cs (take len buf))"
    unfolding D by (subst takeWhile_dropWhile_id [of ?sep ?R, symmetric], rule collapse_seps) (auto dest: set_takeWhileD)
  show ?case
  proof (cases "len \<le> cs")
    case True
    then have "canon_loop len read (buf, wr) = (buf, wr)" by (simp add: canon_loop.simps cs_def)
    then show ?thesis using a True skip by simp
  next
    case False
    let ?S = "drop cs (take len buf)"
    have rd: "rd = cs + length (takeWhile (\<lambda>b. b \<noteq> 0x5C) ?S)" unfolding rd_def using csle a by (simp add: skip_while_length)
    then have T: "take (rd - cs) (drop cs buf) = takeWhile (\<lambda>b. b \<noteq> 0x5C) ?S"
      using takeWhile_eq_take [of "\<lambda>b. b \<noteq> 0x5C" ?S] length_takeWhile_le [of "\<lambda>b. b \<noteq> 0x5C" ?S]
      by (simp add: drop_take)
    have E: "drop rd (take len buf) = dropWhile (\<lambda>b. b \<noteq> 0x5C) ?S" using rd by (simp add: dropWhile_eq_drop add.commute)
    have rdle: "rd \<le> len" "cs \<le> rd" using rd csle a length_takeWhile_le [of "\<lambda>b. b \<noteq> 0x5C" ?S] by simp_all
    have strict: "3 < wr \<longrightarrow> wr < cs" 
    proof
      assume "3 < wr"
      then have "read < len \<longrightarrow> buf ! read = 0x5C" using a(5) by simp
      moreover have "cs \<noteq> read \<or> buf ! read \<noteq> 0x5C"
        using skip_while_spec(2) [where P = ?sep and buf = buf and len = len and read = read] False cs_def by auto
      moreover have "read \<le> cs" using cs by simp
      ultimately show "wr < cs" using False a(4) by (cases "cs = read") auto
    qed
    have nosep: "0x5C \<notin> set (take (rd - cs) (drop cs buf))" unfolding T by (auto dest: set_takeWhileD)
    obtain b2 w2 where step: "canon_component cs rd (buf, wr) = (b2, w2)" "length b2 = length buf"
      "drop rd b2 = drop rd buf" "w2 \<le> rd"
      "take w2 b2 = root @ join_path (collapse_step st (filter (\<lambda>b. b \<noteq> 0x20) (take (rd - cs) (drop cs buf))))"
      using canon_component_spec [OF a(1-3) _ strict rdle(2) _ nosep] a(4,7) cs rdle by auto
    have same: "drop rd (take len b2) = drop rd (take len buf)" using step(3) by (simp add: drop_take)
    have at: "b2 ! rd = 0x5C" if "rd < len"
    proof -
      have "dropWhile (\<lambda>b. b \<noteq> 0x5C) ?S = b2 ! rd # drop (Suc rd) (take len b2)"
        using that a(7) step(2) unfolding E [symmetric] same [symmetric] by (simp add: Cons_nth_drop_Suc [symmetric])
      then show ?thesis by (simp add: dropWhile_eq_Cons_conv)
    qed
    have lt: "read < len" using False cs by simp
    then have "canon_loop len read (buf, wr) = canon_loop len rd (canon_component cs rd (buf, wr))"
      using False by (subst canon_loop.simps) (simp add: Let_def cs_def [symmetric] rd_def [symmetric])
    then have go: "canon_loop len rd (b2, w2) = (buf', wr')" using a(8) step(1) by simp
    have "length buf' = length b2 \<and> wr' \<le> len \<and>
      take wr' buf' = root @ join_path (collapse (collapse_step st (filter (\<lambda>b. b \<noteq> 0x20) (take (rd - cs) (drop cs buf)))) (drop rd (take len b2)))"
      by (rule IH [OF _ cs_def _ rd_def step(1) step(5) a(2) comps_ok_step [OF a(3)]])
         (use a(7) False lt step nosep at rdle go in auto)
    moreover have "collapse st ?S = collapse (collapse_step st (filter (\<lambda>b. b \<noteq> 0x20) (take (rd - cs) (drop cs buf)))) (drop rd (take len b2))"
      unfolding same E T
      by (subst takeWhile_dropWhile_id [of "\<lambda>b. b \<noteq> 0x5C" ?S, symmetric], rule collapse_comp)
         (use hd_dropWhile [of "\<lambda>b. b \<noteq> 0x5C" ?S] in \<open>auto dest: set_takeWhileD\<close>)
    ultimately show ?thesis using skip step(2) by simp
  qed
qed

lemma canonicalize_components_spec:
  assumes "3 \<le> len" and "len \<le> length buf" and "canonicalize_components buf len = (buf', n)"
  shows "length buf' = length buf \<and> n \<le> len \<and>
    take n buf' = take 3 buf @ join_path (collapse [] (drop 3 (take len buf)))"
proof (cases "len = 3")
  case True
  then show ?thesis using assms by (auto simp: canonicalize_components_def)
next
  case False
  then have "canon_loop len 3 (buf, 3) = (buf', n)" using assms by (simp add: canonicalize_components_def)
  then show ?thesis using assms by (intro canon_loop_spec [where st = "[]"]) (auto simp: comps_ok_def)
qed

lemma emit_spec:
  assumes "pos \<le> length out"
  shows "emit bs (out, pos) =
    (if pos + length bs \<le> length out then Inr (take pos out @ bs @ drop (pos + length bs) out, pos + length bs) else Inl 3)"
  using assms
proof (induction bs arbitrary: out pos)
  case (Cons b bs)
  show ?case
  proof (cases "pos < length out")
    case True
    then show ?thesis using Cons.IH [of "Suc pos" "out[pos := b]"] by (simp add: take_Suc_update)
  qed (use Cons.prems in simp)
qed simp

lemma comps_ok_collapse: "comps_ok st \<Longrightarrow> comps_ok (collapse st raw)"
proof -
  have "comps_ok st \<Longrightarrow> list_all (\<lambda>c. 0x5C \<notin> set c) cs \<Longrightarrow> comps_ok (foldl collapse_step st cs)" for cs
    by (induction cs arbitrary: st) (auto simp: comps_ok_step)
  moreover have "list_all (\<lambda>c. y \<notin> set c) (split_by (\<lambda>b. b = y) xs)" for y :: u8 and xs
    by (induction xs) (auto split: list.splits)
  ultimately show "comps_ok st \<Longrightarrow> ?thesis"
    by (auto simp: collapse_def path_comps_def list_all_iff)
qed

lemma join_path_last: "comps_ok st \<Longrightarrow> st \<noteq> [] \<Longrightarrow> last (join_path st) \<noteq> 0x5C"
  by (cases st rule: rev_cases) (auto simp: join_path_snoc comps_ok_def dest: last_in_set)

lemma trim_seps_path:
  assumes "take n buf = root @ join_path st" and "length root = 3" and "comps_ok st" and "n \<le> length buf"
  shows "trim_seps buf n = n"
proof (cases "st = []")
  case True
  then have "n = 3" using assms(4) arg_cong [OF assms(1), of length] assms(2) by simp
  then show ?thesis by (simp add: numeral_3_eq_3)
next
  case False
  then have ne: "join_path st \<noteq> []" using assms(3) by (simp add: join_path_eq_Nil)
  then obtain m where m: "n = Suc m" using assms(1) by (cases n) auto
  have "last (take n buf) = buf ! m" using assms(4) m by (simp add: take_Suc_conv_app_nth)
  then have "buf ! m \<noteq> 0x5C" using assms(1) ne join_path_last [OF assms(3) False] by simp
  then show ?thesis using m by simp
qed

section \<open>Invariant of the state\<close>

text \<open>
  Every current directory fits its row of 64 bytes and is kept in DOS form: capitals and
  backslashes.
\<close>

definition dfs_ok :: "dfs_state \<Rightarrow> bool" where
  "dfs_ok s \<longleftrightarrow> length (cwd s) = 5 \<and> length (cwd_len s) = 5 \<and> to_ascii_uppercase (current_drive s) = current_drive s \<and>
     (\<forall>i<5. length (cwd s ! i) = DFS_CWD_MAX \<and> unat (cwd_len s ! i) \<le> DFS_CWD_MAX \<and>
        (\<forall>b\<in>set (take (unat (cwd_len s ! i)) (cwd s ! i)). dos_byte b = b))"

lemma upper_upper [simp]: "to_ascii_uppercase (to_ascii_uppercase b) = to_ascii_uppercase b"
proof -
  have "\<not> 0x61 \<le> b - 0x20" if "0x61 \<le> b" "b \<le> 0x7A"
    using that by (simp add: word_le_nat_alt unat_sub_if')
  then show ?thesis by (simp add: to_ascii_uppercase_def)
qed

lemma upper_not_slash: "to_ascii_uppercase b = 0x2F \<longleftrightarrow> b = 0x2F"
proof -
  have "b - 0x20 \<noteq> 0x2F" if "0x61 \<le> b"
    using that unat_u8_less [of b] by (auto simp: word_le_nat_alt word_unat_eq_iff unat_sub_if')
  then show ?thesis by (auto simp: to_ascii_uppercase_def)
qed

lemma dos_byte_idem [simp]: "dos_byte (dos_byte b) = dos_byte b"
  by (auto simp: dos_byte_def upper_not_slash) (simp add: to_ascii_uppercase_def)

lemma drive_slot_less: "drive_slot d = Some i \<Longrightarrow> i < 5"
  by (auto simp: drive_slot_def Let_def split: if_splits)

lemma dfs_ok_new [simp]: "dfs_ok (dfs_new_with_hostfs h)"
  by (auto simp: dfs_ok_def dfs_new_with_hostfs_def DFS_CWD_MAX_def to_ascii_uppercase_def)

lemma dfs_ok_store:
  assumes "dfs_ok s" and "i < 5" and "\<forall>b\<in>set p. dos_byte b = b" and "length p \<le> DFS_CWD_MAX"
  shows "dfs_ok (s\<lparr>cwd := (cwd s)[i := copy_from_slice p (cwd s ! i)], cwd_len := (cwd_len s)[i := of_nat (length p)]\<rparr>)"
proof -
  have "unat (of_nat (length p) :: u8) = length p"
    using assms(4) by (intro unat_of_nat_small) (simp add: DFS_CWD_MAX_def)
  then show ?thesis
    using assms by (auto simp: dfs_ok_def nth_list_update copy_from_slice_def)
qed

lemma take_min_length: "take (min (length xs) n) xs = take n xs"
  by (simp add: min_def)

lemma dfs_ok_set_cwd_for:
  assumes "dfs_ok s" and "\<forall>b\<in>set p. dos_byte b = b"
  shows "dfs_ok (set_cwd_for d p s)"
proof -
  have "\<forall>b\<in>set (take DFS_CWD_MAX p). dos_byte b = b" using assms(2) by (auto dest: in_set_takeD)
  then show ?thesis
    using assms(1) dfs_ok_store [of s _ "take DFS_CWD_MAX p"]
    by (auto simp: set_cwd_for_def Let_def take_min_length min.commute [of DFS_CWD_MAX] drive_slot_less split: option.splits)
qed

lemma dfs_ok_store_cwd_slot: "dfs_ok s \<Longrightarrow> i < 5 \<Longrightarrow> dfs_ok (store_cwd_slot i p s)"
  using dfs_ok_store [of s i "map dos_byte (take DFS_CWD_MAX (trim_last (trim_first p)))"]
  by (auto simp: store_cwd_slot_def Let_def take_min_length min.commute [of DFS_CWD_MAX])

lemma dfs_ok_drive: "dfs_ok s \<Longrightarrow> dfs_ok (s\<lparr>current_drive := to_ascii_uppercase d\<rparr>)"
  by (simp add: dfs_ok_def)

lemma dfs_ok_init: "dfs_ok s \<Longrightarrow> dfs_ok (init_from_vfs cr p s)"
  by (auto simp: init_from_vfs_def Let_def drive_slot_less intro!: dfs_ok_store_cwd_slot dfs_ok_drive)

lemma dfs_ok_select: "dfs_ok s \<Longrightarrow> dfs_ok (snd (select_drive d s))"
  by (simp add: select_drive_def Let_def dfs_ok_drive)

section \<open>Resolution\<close>

lemma get_cwd_for_Some:
  assumes "dfs_ok s" and "drive_available s d"
  shows "\<exists>c. get_cwd_for s d = Some c \<and> length c \<le> DFS_CWD_MAX \<and> (\<forall>b\<in>set c. dos_byte b = b)"
proof -
  obtain i where "drive_slot d = Some i" "i < 5"
    using assms(2) drive_slot_less by (auto simp: drive_available_def drive_slot_def Let_def split: if_splits)
  then show ?thesis using assms by (auto simp: get_cwd_for_def dfs_ok_def)
qed

lemma emit_append: "emit (as @ bs) r = and_then (emit as r) (emit bs)"
  by (cases r, induction as arbitrary: r) (auto simp: and_then_def split: sum.splits)

lemma and_then_simps [simp]:
  "and_then (Inl e) f = Inl e" "and_then (Inr x) f = f x" "and_then (and_then r f) g = and_then r (\<lambda>x. and_then (f x) g)"
  by (simp_all add: and_then_def split: sum.splits)

lemma emit_Nil [simp]: "emit [] r = Inr r"
  by (cases r) simp

text \<open>The stages that fill the buffer append the raw path byte by byte after the drive prefix.\<close>

lemma resolve_emit:
  assumes "split_drive s dos_in = (drive, rest)" and "drive_available s drive" and "get_cwd_for s drive \<noteq> None" and "3 \<le> length out"
  shows "resolve s dos_in out = and_then (emit (raw_path s drive rest) (out[0 := drive, 1 := 0x3A, 2 := 0x5C], 3))
    (\<lambda>(out, pos). let (out, pos) = canonicalize_components out pos in Inr (out, trim_seps out pos))"
  using assms
  by (cases rest) (auto simp: resolve_def raw_path_def Let_def emit_append hd_conv_nth cong: if_cong)

lemma resolve_raw:
  assumes "dfs_ok s" and "length out = DFS_PATH_MAX" and "split_drive s dos_in = (drive, rest)" and "drive_available s drive"
  defines "raw \<equiv> raw_path s drive rest"
  shows "written (resolve s dos_in out) =
    (if DFS_PATH_MAX < 3 + length raw then Inl 3 else Inr ([drive, 0x3A, 0x5C] @ join_path (collapse [] raw)))"
proof -
  define ob where "ob = out[0 := drive, 1 := 0x3A, 2 := 0x5C]"
  have lo: "length ob = DFS_PATH_MAX" using assms(2) by (simp add: ob_def)
  have three: "take 3 ob = [drive, 0x3A, 0x5C]"
    using assms(2) unfolding ob_def by (cases out; cases "tl out"; cases "tl (tl out)") (auto simp: DFS_PATH_MAX_def numeral_3_eq_3)
  have r: "resolve s dos_in out = and_then (emit raw (ob, 3))
    (\<lambda>(out, pos). let (out, pos) = canonicalize_components out pos in Inr (out, trim_seps out pos))"
    unfolding raw_def ob_def using assms get_cwd_for_Some [OF assms(1,4)]
    by (intro resolve_emit) (auto simp: DFS_PATH_MAX_def)
  show ?thesis
  proof (cases "3 + length raw \<le> DFS_PATH_MAX")
    case True
    let ?b = "take 3 ob @ raw @ drop (3 + length raw) ob"
    have e: "emit raw (ob, 3) = Inr (?b, 3 + length raw)"
      using True lo by (simp add: emit_spec DFS_PATH_MAX_def)
    obtain b n where c: "canonicalize_components ?b (3 + length raw) = (b, n)" by fastforce
    have seg: "drop 3 (take (3 + length raw) ?b) = raw" using lo True by (simp add: drop_take)
    have pre: "take 3 ?b = [drive, 0x3A, 0x5C]" by (simp add: three)
    have lb: "length ?b = DFS_PATH_MAX" using True lo by (simp add: three)
    have "length b = DFS_PATH_MAX \<and> n \<le> 3 + length raw \<and> take n b = [drive, 0x3A, 0x5C] @ join_path (collapse [] raw)"
      using canonicalize_components_spec [OF _ _ c] True unfolding lb seg pre by simp
    moreover from this have "trim_seps b n = n"
      using True by (intro trim_seps_path [where st = "collapse [] raw"]) (auto intro: comps_ok_collapse)
    ultimately show ?thesis using True by (simp add: r e c)
  next
    case False
    then show ?thesis using lo by (simp add: r emit_spec DFS_PATH_MAX_def)
  qed
qed

lemma resolve_resolve_path:
  assumes "dfs_ok s" and "length out = DFS_PATH_MAX"
  shows "written (resolve s dos_in out) = resolve_path s dos_in"
proof (cases "drive_available s (fst (split_drive s dos_in))")
  case True
  then show ?thesis
    using resolve_raw [OF assms, of dos_in] by (cases "split_drive s dos_in") (simp add: resolve_path_def Let_def)
qed (simp add: resolve_def resolve_path_def Let_def case_prod_beta)

section \<open>Canonical paths\<close>

text \<open>
  A component is canonical when it is not empty, not a dot or two dots, and has no space, no
  separator and no small letter; a path is canonical when all of its components are.
\<close>

definition comp_canonical :: "u8 list \<Rightarrow> bool" where
  "comp_canonical c \<longleftrightarrow> c \<noteq> [] \<and> c \<noteq> [0x2E] \<and> c \<noteq> [0x2E, 0x2E] \<and>
     list_all (\<lambda>b. b \<noteq> 0x20 \<and> b \<noteq> 0x5C \<and> dos_byte b = b) c"

definition canonical_path :: "u8 list \<Rightarrow> bool" where
  "canonical_path q \<longleftrightarrow> 3 \<le> length q \<and> length q \<le> DFS_PATH_MAX \<and> to_ascii_uppercase (q ! 0) = q ! 0 \<and> q ! 1 = 0x3A \<and> q ! 2 = 0x5C \<and>
     (drop 3 q = [] \<or> list_all comp_canonical (split_by (\<lambda>b. b = 0x5C) (drop 3 q)))"

lemma comps_ok_canonical: "list_all comp_canonical cs \<Longrightarrow> comps_ok cs"
  by (auto simp: comps_ok_def comp_canonical_def list_all_iff)

lemma split_join_path: "comps_ok cs \<Longrightarrow> cs \<noteq> [] \<Longrightarrow> split_by (\<lambda>b. b = 0x5C) (join_path cs) = cs"
  by (induction cs rule: join_path.induct) (simp_all add: comps_ok_def split_by_comp split_by_sep)

lemma collapse_join_path:
  assumes "list_all comp_canonical cs"
  shows "collapse [] (join_path cs) = cs"
proof (cases "cs = []")
  case False
  have "foldl collapse_step st cs = st @ cs" for st
    using assms by (induction cs arbitrary: st) (auto simp: collapse_step_def comp_canonical_def)
  moreover have "map (filter (\<lambda>b. b \<noteq> 0x20)) cs = cs"
    using assms by (intro map_idI filter_True) (auto simp: comp_canonical_def list_all_iff)
  ultimately show ?thesis
    using split_join_path [OF comps_ok_canonical [OF assms] False] by (simp add: collapse_def path_comps_def)
qed simp

lemma split_by_in: "\<forall>c\<in>set (split_by P xs). \<forall>x\<in>set c. x \<in> set xs \<and> \<not> P x"
  by (induction xs) (auto split: list.splits)

lemma join_path_Cons_Cons: "join_path ((x # w) # ws) = x # join_path (w # ws)"
  by (cases ws) auto

lemma join_split: "join_path (split_by (\<lambda>b. b = 0x5C) raw) = raw"
proof (induction raw)
  case (Cons x raw)
  then show ?case by (cases "split_by (\<lambda>b. b = 0x5C) raw") (auto simp: join_path_Cons_Cons)
qed simp

lemma set_join_path: "set (join_path cs) \<subseteq> insert 0x5C (\<Union> (set ` set cs))"
  by (induction cs rule: join_path.induct) auto

lemma collapse_step_canonical:
  "list_all comp_canonical st \<Longrightarrow> list_all (\<lambda>b. b \<noteq> 0x20 \<and> b \<noteq> 0x5C \<and> dos_byte b = b) c \<Longrightarrow>
   list_all comp_canonical (collapse_step st c)"
  by (cases st rule: rev_cases) (simp_all add: collapse_step_def comp_canonical_def)

lemma collapse_canonical:
  assumes "\<forall>b\<in>set raw. dos_byte b = b"
  shows "list_all comp_canonical (collapse [] raw)"
proof -
  let ?ok = "list_all (\<lambda>b. b \<noteq> 0x20 \<and> b \<noteq> 0x5C \<and> dos_byte b = b)"
  have "list_all comp_canonical st \<Longrightarrow> list_all ?ok cs \<Longrightarrow> list_all comp_canonical (foldl collapse_step st cs)" for st cs
    by (induction cs arbitrary: st) (simp_all add: collapse_step_canonical)
  moreover have "list_all ?ok (path_comps raw)"
    using assms split_by_in [of "\<lambda>b. b = 0x5C" raw] by (auto simp: path_comps_def list_all_iff)
  ultimately show ?thesis by (simp add: collapse_def)
qed

lemma join_path_length: "cs \<noteq> [] \<Longrightarrow> Suc (length (join_path cs)) = sum_list (map (\<lambda>c. Suc (length c)) cs)"
  by (induction cs rule: join_path.induct) auto

lemma split_by_length: "sum_list (map (\<lambda>c. Suc (length c)) (split_by P xs)) = Suc (length xs)"
  by (induction xs) (auto split: list.splits)

lemma collapse_length: "length (join_path (collapse [] raw)) \<le> length raw"
proof -
  let ?sz = "\<lambda>cs :: u8 list list. sum_list (map (\<lambda>c. Suc (length c)) cs)"
  have step: "?sz (collapse_step st c) \<le> ?sz st + Suc (length c)" for st c
    by (cases st rule: rev_cases) (auto simp: collapse_step_def)
  have fold: "?sz (foldl collapse_step st cs) \<le> ?sz st + ?sz cs" for st cs
  proof (induction cs arbitrary: st)
    case (Cons c cs)
    from Cons [of "collapse_step st c"] step [of st c] show ?case by simp
  qed simp
  have "?sz (collapse [] raw) \<le> ?sz (path_comps raw)" using fold [of "[]"] by (simp add: collapse_def)
  also have "\<dots> \<le> ?sz (split_by (\<lambda>b. b = 0x5C) raw)"
    unfolding path_comps_def map_map comp_def by (intro sum_list_mono) (simp add: length_filter_le)
  also have "\<dots> = Suc (length raw)" by (rule split_by_length)
  finally show ?thesis using join_path_length [of "collapse [] raw"] by (cases "collapse [] raw = []") auto
qed

lemma raw_path_dos:
  assumes "dfs_ok s" and "drive_available s d"
  shows "\<forall>b\<in>set (raw_path s d rest). dos_byte b = b"
proof -
  have "dos_byte 0x5C = 0x5C" by (simp add: dos_byte_def to_ascii_uppercase_def)
  then show ?thesis using get_cwd_for_Some [OF assms] by (auto simp: raw_path_def Let_def)
qed

lemma resolve_path_canonical:
  assumes "dfs_ok s" and "resolve_path s p = Inr q"
  shows "canonical_path q"
proof -
  obtain d rest where d: "split_drive s p = (d, rest)" by fastforce
  let ?raw = "raw_path s d rest" and ?cs = "collapse [] (raw_path s d rest)"
  have q: "drive_available s d" "3 + length ?raw \<le> DFS_PATH_MAX" "q = [d, 0x3A, 0x5C] @ join_path ?cs"
    using assms(2) d by (auto simp: resolve_path_def Let_def split: if_splits)
  have up: "to_ascii_uppercase d = d" using d assms(1) by (auto simp: split_drive_def dfs_ok_def split: if_splits)
  have can: "list_all comp_canonical ?cs" using collapse_canonical [OF raw_path_dos [OF assms(1) q(1)]] .
  show ?thesis
    using q(2,3) up can collapse_length [of ?raw] split_join_path [OF comps_ok_canonical [OF can]]
    by (cases "?cs = []") (auto simp: canonical_path_def)
qed

lemma resolve_path_canonical_id:
  assumes "canonical_path q" and "drive_available s (q ! 0)"
  shows "resolve_path s q = Inr q"
proof -
  obtain d raw where q: "q = d # 0x3A # 0x5C # raw"
    using assms(1) by (cases q; cases "tl q"; cases "tl (tl q)") (auto simp: canonical_path_def)
  define cs where "cs = (if raw = [] then [] else split_by (\<lambda>b. b = 0x5C) raw)"
  have cs: "list_all comp_canonical cs" "raw = join_path cs"
    using assms(1) q by (auto simp: canonical_path_def cs_def join_split)
  have "dos_byte 0x5C = 0x5C" by (simp add: dos_byte_def to_ascii_uppercase_def)
  then have "\<forall>b\<in>set raw. dos_byte b = b"
    using set_join_path [of cs] cs by (fastforce simp: comp_canonical_def list_all_iff)
  then have "map dos_byte raw = raw" by (simp add: map_idI)
  moreover have "collapse [] raw = cs" using collapse_join_path [OF cs(1)] cs(2) by simp
  ultimately show ?thesis
    using assms q cs(2) by (auto simp: resolve_path_def split_drive_def raw_path_def canonical_path_def Let_def)
qed

end
