(* ===== verification/OrdMap.thy ===== *)
theory OrdMap
  imports Main
begin

text \<open>
  The ordered map of the standard library (\<^verbatim>\<open>alloc::collections::BTreeMap\<close>), as the block layer
  uses it: an association list in ascending key order, so that iteration visits the entries in
  the order the library guarantees.  The lemmas relate every operation to the finite map
  \<^const>\<open>map_of\<close> reads off the list.
\<close>

type_synonym ('k, 'v) btree = "('k \<times> 'v) list"

definition btree_wf :: "('k::linorder, 'v) btree \<Rightarrow> bool" where
  "btree_wf m \<longleftrightarrow> sorted_wrt (<) (map fst m)"

abbreviation btree_get :: "('k, 'v) btree \<Rightarrow> 'k \<Rightarrow> 'v option" where
  "btree_get \<equiv> map_of"

fun btree_insert :: "'k::linorder \<Rightarrow> 'v \<Rightarrow> ('k, 'v) btree \<Rightarrow> ('k, 'v) btree" where
  "btree_insert k v [] = [(k, v)]" |
  "btree_insert k v ((k', v') # m) =
     (if k < k' then (k, v) # (k', v') # m
      else if k = k' then (k, v) # m
      else (k', v') # btree_insert k v m)"

definition btree_remove :: "'k \<Rightarrow> ('k, 'v) btree \<Rightarrow> ('k, 'v) btree" where
  "btree_remove k m = filter (\<lambda>(k', _). k' \<noteq> k) m"

text \<open>\<open>get_mut\<close>: rewrite the value stored under one key.\<close>
definition btree_modify :: "'k \<Rightarrow> ('v \<Rightarrow> 'v) \<Rightarrow> ('k, 'v) btree \<Rightarrow> ('k, 'v) btree" where
  "btree_modify k f m = map (\<lambda>(k', v). (k', if k' = k then f v else v)) m"

text \<open>\<open>values_mut\<close>: rewrite every value.\<close>
definition btree_map_values :: "('v \<Rightarrow> 'v) \<Rightarrow> ('k, 'v) btree \<Rightarrow> ('k, 'v) btree" where
  "btree_map_values f m = map (\<lambda>(k, v). (k, f v)) m"

text \<open>\<open>Iterator::min_by_key\<close>: the first of the entries whose key is least.\<close>
fun min_by_key :: "('a \<Rightarrow> 'b::linorder) \<Rightarrow> 'a list \<Rightarrow> 'a option" where
  "min_by_key f [] = None" |
  "min_by_key f (x # xs) =
     (case min_by_key f xs of None \<Rightarrow> Some x | Some y \<Rightarrow> Some (if f y < f x then y else x))"

lemma min_by_key_in: "min_by_key f xs = Some x \<Longrightarrow> x \<in> set xs"
  by (induction xs arbitrary: x) (auto split: option.splits if_splits)

lemma min_by_key_None [simp]: "min_by_key f xs = None \<longleftrightarrow> xs = []"
  by (cases xs) (auto split: option.splits)

lemma min_by_key_le: "min_by_key f xs = Some x \<Longrightarrow> y \<in> set xs \<Longrightarrow> f x \<le> f y"
  by (induction xs arbitrary: x) (auto split: option.splits if_splits)

lemma btree_wf_Nil [simp]: "btree_wf []"
  by (simp add: btree_wf_def)

lemma btree_wf_distinct: "btree_wf m \<Longrightarrow> distinct (map fst m)"
  by (simp add: btree_wf_def strict_sorted_iff)

lemma btree_insert_keys [simp]: "fst ` set (btree_insert k v m) = insert k (fst ` set m)"
  by (induction k v m rule: btree_insert.induct) auto

lemma btree_insert_wf [simp]: "btree_wf m \<Longrightarrow> btree_wf (btree_insert k v m)"
proof (induction k v m rule: btree_insert.induct)
  case (2 k v k' v' m)
  then have "\<forall>x\<in>fst ` set m. k' < x" and "btree_wf m"
    by (auto simp: btree_wf_def)
  moreover have "fst ` set (btree_insert k v m) = insert k (fst ` set m)"
    by simp
  ultimately show ?case
    using 2 by (auto simp: btree_wf_def simp del: btree_insert_keys)
qed (simp add: btree_wf_def)

lemma btree_get_insert [simp]:
  "btree_wf m \<Longrightarrow> btree_get (btree_insert k v m) = (btree_get m)(k \<mapsto> v)"
  by (induction k v m rule: btree_insert.induct) (auto simp: btree_wf_def fun_eq_iff)

lemma btree_insert_set: "set (btree_insert k v m) \<subseteq> insert (k, v) (set m)"
  by (induction k v m rule: btree_insert.induct) auto

lemma btree_insert_length:
  "btree_wf m \<Longrightarrow>
   length (btree_insert k v m) = (if k \<in> fst ` set m then length m else Suc (length m))"
  by (induction k v m rule: btree_insert.induct) (auto simp: btree_wf_def)

lemma btree_remove_wf [simp]: "btree_wf m \<Longrightarrow> btree_wf (btree_remove k m)"
  by (induction m) (auto simp: btree_remove_def btree_wf_def)

lemma btree_get_remove [simp]: "btree_get (btree_remove k m) = (btree_get m)(k := None)"
  by (induction m) (auto simp: btree_remove_def fun_eq_iff)

lemma btree_remove_set: "set (btree_remove k m) = {e \<in> set m. fst e \<noteq> k}"
  by (auto simp: btree_remove_def)

lemma btree_remove_length:
  "btree_wf m \<Longrightarrow> k \<in> fst ` set m \<Longrightarrow> Suc (length (btree_remove k m)) = length m"
  by (induction m) (auto simp: btree_remove_def btree_wf_def intro!: arg_cong [where f = length] filter_True)

lemma map_fst_modify [simp]: "map fst (btree_modify k f m) = map fst m"
  by (simp add: btree_modify_def comp_def case_prod_beta)

lemma map_fst_map_values [simp]: "map fst (btree_map_values f m) = map fst m"
  by (simp add: btree_map_values_def comp_def case_prod_beta)

lemma length_modify [simp]: "length (btree_modify k f m) = length m"
  by (simp add: btree_modify_def)

lemma length_map_values [simp]: "length (btree_map_values f m) = length m"
  by (simp add: btree_map_values_def)

lemma btree_modify_wf [simp]: "btree_wf (btree_modify k f m) = btree_wf m"
  by (simp add: btree_wf_def)

lemma btree_map_values_wf [simp]: "btree_wf (btree_map_values f m) = btree_wf m"
  by (simp add: btree_wf_def)

lemma btree_get_modify [simp]:
  "btree_get (btree_modify k f m) k' = (if k' = k then map_option f (btree_get m k) else btree_get m k')"
  by (induction m) (auto simp: btree_modify_def)

lemma btree_get_map_values [simp]:
  "btree_get (btree_map_values f m) k = map_option f (btree_get m k)"
  by (induction m) (auto simp: btree_map_values_def)

lemma btree_get_iff: "btree_wf m \<Longrightarrow> btree_get m k = Some v \<longleftrightarrow> (k, v) \<in> set m"
  using btree_wf_distinct by (metis map_of_eq_Some_iff)

lemma btree_get_keys: "btree_get m k \<noteq> None \<longleftrightarrow> k \<in> fst ` set m"
  by (auto simp: map_of_eq_None_iff)

lemma btree_modify_count:
  assumes "btree_wf m" "btree_get m k = Some v"
  shows "length (filter P (btree_modify k f m)) + (if P (k, v) then 1 else 0) =
         length (filter P m) + (if P (k, f v) then 1 else 0)"
  using assms
proof (induction m)
  case (Cons e m)
  obtain k' v' where e: "e = (k', v')" by (cases e)
  have wf: "btree_wf m" "k' \<notin> fst ` set m"
    using Cons.prems(1) by (auto simp: btree_wf_def e)
  show ?case
  proof (cases "k' = k")
    case True
    then have "btree_modify k f m = m"
      using wf(2) by (auto simp: btree_modify_def image_iff intro!: map_idI)
    with True Cons.prems(2) show ?thesis by (auto simp: e btree_modify_def)
  next
    case False
    with Cons.IH [OF wf(1)] Cons.prems(2) show ?thesis by (auto simp: e btree_modify_def)
  qed
qed simp

lemma btree_insert_filter:
  "\<not> P (k, v) \<Longrightarrow> k \<notin> fst ` set m \<Longrightarrow> filter P (btree_insert k v m) = filter P m"
  by (induction k v m rule: btree_insert.induct) auto

lemma btree_remove_count: "length (filter P (btree_remove k m)) \<le> length (filter P m)"
  by (induction m) (auto simp: btree_remove_def)

lemma btree_remove_length_le: "length (btree_remove k m) \<le> length m"
  by (simp add: btree_remove_def)

lemma fold_btree_remove:
  "btree_get (fold btree_remove ks m) k = (if k \<in> set ks then None else btree_get m k)"
  by (induction ks arbitrary: m) auto

lemma fold_btree_remove_wf: "btree_wf m \<Longrightarrow> btree_wf (fold btree_remove ks m)"
  by (induction ks arbitrary: m) auto

lemma fold_btree_remove_count: "length (filter P (fold btree_remove ks m)) \<le> length (filter P m)"
  by (induction ks arbitrary: m) (auto intro: order_trans [OF _ btree_remove_count])

end
