(* ===== verification/DosNames.thy ===== *)
theory DosNames
  imports DosPath OrdMap "HOL-Library.List_Lexorder"
begin

text \<open>
  The 8.3 names of \<^verbatim>\<open>kernel/src/kernel/dos/dfs.rs\<close>: the alias of a name, the sorted alias table of a
  directory and the cache of those tables (module \<^verbatim>\<open>ci\<close>).  What the file system layer answers at one
  moment is a record: the entries of each directory, which paths are directories, the prefixes
  of the mount table and the generation of the name space.  The lemmas show that a generated
  alias is new and well-formed, that the binary search finds exactly the aliases of the table,
  and that the cache answers as the file system does.
\<close>

section \<open>What the file system layer answers\<close>

record dirent =
  d_name :: "u8 list"
  d_size :: u32
  d_is_dir :: bool
  d_is_symlink :: bool
  d_mtime :: u32

record vfs_view =
  dir_entries :: "u8 list \<Rightarrow> dirent list"
  dir_exists :: "u8 list \<Rightarrow> bool"
  mount_prefixes :: "u8 list list"
  directory_generation :: u64

definition vfs_readdir :: "vfs_view \<Rightarrow> u8 list \<Rightarrow> nat \<Rightarrow> dirent option" where
  "vfs_readdir v dir index =
     (if index < length (dir_entries v dir) then Some (dir_entries v dir ! index) else None)"

definition strip_slash :: "u8 list \<Rightarrow> u8 list" where
  "strip_slash p = (if p \<noteq> [] \<and> last p = 0x2F then butlast p else p)"

definition mount_child :: "vfs_view \<Rightarrow> u8 list \<Rightarrow> u8 list \<Rightarrow> u8 list option" where
  "mount_child v parent name =
     (let par = trim_last (trim_first parent);
          child = (\<lambda>prefix.
            let p = strip_slash prefix;
                (dir, last) = (case rposition (\<lambda>b. b = 0x2F) p of
                                 Some idx \<Rightarrow> (take idx p, drop (idx + 1) p)
                               | None \<Rightarrow> ([], p))
            in if p = [] then None
               else if eq_ignore_ascii_case dir par \<and> eq_ignore_ascii_case last name then Some last else None)
      in case List.map_filter child (mount_prefixes v) of [] \<Rightarrow> None | m # _ \<Rightarrow> Some m)"

section \<open>The alias of a name\<close>

definition is_dos_legal :: "u8 \<Rightarrow> bool" where
  "is_dos_legal b \<longleftrightarrow> 0x41 \<le> b \<and> b \<le> 0x5A \<or> 0x61 \<le> b \<and> b \<le> 0x7A \<or> 0x30 \<le> b \<and> b \<le> 0x39 \<or>
     b \<in> {0x21, 0x23, 0x24, 0x25, 0x26, 0x27, 0x28, 0x29, 0x2D, 0x40, 0x5E, 0x5F, 0x60, 0x7B, 0x7D, 0x7E}"

definition fits_8_3 :: "u8 list \<Rightarrow> bool" where
  "fits_8_3 name =
     (let dots = length (filter (\<lambda>b. b = 0x2E) name);
          (base, ext) = (case find_index (\<lambda>b. b = 0x2E) name of
                           Some p \<Rightarrow> (take p name, drop (p + 1) name)
                         | None \<Rightarrow> (name, []))
      in \<not> 1 < dots \<and> \<not> (8 < length base \<or> 3 < length ext) \<and> \<not> (base = [] \<and> ext = []) \<and>
         list_all is_dos_legal base \<and> list_all is_dos_legal ext)"

record ci_entry =
  original :: "u8 list"
  e_size :: u32
  e_is_dir :: bool
  e_mtime :: u32

type_synonym dir_ci = "(u8 list \<times> ci_entry) list"

text \<open>The loop that writes the digits of \<open>n\<close>, lowest first.\<close>
fun dec_digits :: "nat \<Rightarrow> u8 list" where
  "dec_digits n = (if 0 < n then (0x30 + of_nat (n mod 10)) # dec_digits (n div 10) else [])"

declare dec_digits.simps [simp del]

definition numbered_alias :: "u8 list \<Rightarrow> u8 list \<Rightarrow> nat \<Rightarrow> u8 list" where
  "numbered_alias base_clean ext_clean n =
     (let dn = rev (dec_digits n);
          max_base = 8 - (1 + length dn);
          prefix_len = min (length base_clean) max_base
      in take prefix_len base_clean @ [0x7E] @ dn @ (if ext_clean \<noteq> [] then [0x2E] @ ext_clean else []))"

definition alias_taken :: "u8 list \<Rightarrow> dir_ci \<Rightarrow> bool" where
  "alias_taken a existing \<longleftrightarrow> (\<exists>e\<in>set existing. fst e = a)"

function alias_loop :: "u8 list \<Rightarrow> u8 list \<Rightarrow> dir_ci \<Rightarrow> nat \<Rightarrow> u8 list option" where
  "alias_loop base_clean ext_clean existing n =
     (if n \<le> 999999 then
        let a = numbered_alias base_clean ext_clean n
        in if \<not> alias_taken a existing then Some a else alias_loop base_clean ext_clean existing (n + 1)
      else None)"
  by pat_completeness auto
termination
  by (relation "measure (\<lambda>(_, _, _, n). 1000000 - n)") auto

declare alias_loop.simps [simp del]

definition compute_alias_8_3 :: "u8 list \<Rightarrow> dir_ci \<Rightarrow> u8 list" where
  "compute_alias_8_3 name existing =
     (if fits_8_3 name then map to_ascii_uppercase name
      else let last_dot = (case rposition (\<lambda>b. b = 0x2E) name of Some p \<Rightarrow> p | None \<Rightarrow> length name);
               base_src = take last_dot name;
               ext_src = (if last_dot < length name then drop (last_dot + 1) name else []);
               base_clean = map to_ascii_uppercase (filter is_dos_legal base_src);
               ext_clean = take 3 (map to_ascii_uppercase (filter is_dos_legal ext_src))
           in case alias_loop base_clean ext_clean existing 1 of
                Some a \<Rightarrow> a
              | None \<Rightarrow> map to_ascii_uppercase name)"

section \<open>The alias table of a directory\<close>

definition ci_norm :: "u8 list \<Rightarrow> u8 list" where
  "ci_norm vfs_dir = strip_slash vfs_dir"

definition ci_entry_of :: "vfs_view \<Rightarrow> u8 list \<Rightarrow> dirent \<Rightarrow> ci_entry" where
  "ci_entry_of v readdir_key e =
     \<lparr>original = d_name e, e_size = d_size e,
      e_is_dir = (if d_is_dir e then True else if d_is_symlink e then dir_exists v (readdir_key @ d_name e) else False),
      e_mtime = d_mtime e\<rparr>"

function build_loop :: "vfs_view \<Rightarrow> u8 list \<Rightarrow> nat \<Rightarrow> dir_ci \<Rightarrow> dir_ci" where
  "build_loop v readdir_key idx entries =
     (case vfs_readdir v readdir_key idx of
        None \<Rightarrow> entries
      | Some e \<Rightarrow> build_loop v readdir_key (idx + 1)
                    (entries @ [(compute_alias_8_3 (d_name e) entries, ci_entry_of v readdir_key e)]))"
  by pat_completeness auto
termination
  by (relation "measure (\<lambda>(v, key, idx, _). length (dir_entries v key) - idx)") (auto simp: vfs_readdir_def split: if_splits)

declare build_loop.simps [simp del]

definition ci_build :: "vfs_view \<Rightarrow> u8 list \<Rightarrow> dir_ci" where
  "ci_build v vfs_dir =
     (let readdir_key = (if vfs_dir \<noteq> [] \<and> last vfs_dir \<noteq> 0x2F then vfs_dir @ [0x2F] else vfs_dir)
      in sort_key fst (build_loop v readdir_key 0 []))"

text \<open>\<open>binary_search_by\<close> of the standard library on the keys of a table.\<close>

function bs_loop :: "'k::linorder list \<Rightarrow> 'k \<Rightarrow> nat \<Rightarrow> nat \<Rightarrow> nat" where
  "bs_loop ks x base sz =
     (if 1 < sz then
        let half = sz div 2; mid = base + half
        in bs_loop ks x (if x < ks ! mid then base else mid) (sz - half)
      else base)"
  by pat_completeness auto
termination
  by (relation "measure (\<lambda>(_, _, _, sz). sz)") auto

declare bs_loop.simps [simp del]

definition binary_search :: "'k::linorder list \<Rightarrow> 'k \<Rightarrow> nat option" where
  "binary_search ks x =
     (if ks = [] then None
      else let base = bs_loop ks x 0 (length ks) in if ks ! base = x then Some base else None)"

section \<open>The cache\<close>

record ci_state =
  ci_cache :: "(u8 list, dir_ci) btree"
  ci_generation :: u64

definition ci_init :: ci_state where
  "ci_init = \<lparr>ci_cache = [], ci_generation = - 1\<rparr>"

definition ensure_cached :: "vfs_view \<Rightarrow> u8 list \<Rightarrow> ci_state \<Rightarrow> dir_ci \<times> ci_state" where
  "ensure_cached v vfs_dir st =
     (let st = (if ci_generation st \<noteq> directory_generation v
                then st\<lparr>ci_cache := [], ci_generation := directory_generation v\<rparr> else st);
          key = ci_norm vfs_dir;
          st = (if btree_get (ci_cache st) key = None
                then st\<lparr>ci_cache := btree_insert key (ci_build v key) (ci_cache st)\<rparr> else st)
      in (the (btree_get (ci_cache st) key), st))"

definition ci_lookup :: "vfs_view \<Rightarrow> u8 list \<Rightarrow> u8 list \<Rightarrow> ci_state \<Rightarrow> u8 list option \<times> ci_state" where
  "ci_lookup v vfs_dir alias st =
     (let (dir, st) = ensure_cached v vfs_dir st in
      case binary_search (map fst dir) alias of
        Some i \<Rightarrow> (Some (original (snd (dir ! i))), st)
      | None \<Rightarrow> (mount_child v vfs_dir alias, st))"

definition ci_entry_at :: "vfs_view \<Rightarrow> u8 list \<Rightarrow> nat \<Rightarrow> ci_state \<Rightarrow> (u8 list \<times> ci_entry) option \<times> ci_state" where
  "ci_entry_at v vfs_dir idx st =
     (let (dir, st) = ensure_cached v vfs_dir st
      in (if idx < length dir then Some (dir ! idx) else None, st))"

definition ci_invalidate :: "u8 list \<Rightarrow> ci_state \<Rightarrow> ci_state" where
  "ci_invalidate vfs_dir st = st\<lparr>ci_cache := btree_remove (ci_norm vfs_dir) (ci_cache st)\<rparr>"

section \<open>Binary search\<close>

lemma bs_loop_spec:
  assumes "sorted ks" and "0 < sz" and "base + sz \<le> length ks" and "base = 0 \<or> ks ! base \<le> x"
    and "base + sz < length ks \<longrightarrow> x < ks ! (base + sz)"
  shows "bs_loop ks x base sz < length ks \<and> (bs_loop ks x base sz = 0 \<or> ks ! bs_loop ks x base sz \<le> x) \<and>
    (Suc (bs_loop ks x base sz) < length ks \<longrightarrow> x < ks ! Suc (bs_loop ks x base sz))"
  using assms
proof (induction ks x base sz rule: bs_loop.induct)
  case (1 ks x base sz)
  show ?case
  proof (cases "1 < sz")
    case True
    define half where "half = sz div 2"
    have half: "0 < half" "half < sz" using True by (auto simp: half_def)
    have eq: "bs_loop ks x base sz = bs_loop ks x (if x < ks ! (base + half) then base else base + half) (sz - half)"
      using True by (subst bs_loop.simps) (simp add: half_def Let_def)
    have next_lt: "x < ks ! (base + half) \<Longrightarrow> base + (sz - half) < length ks \<Longrightarrow> x < ks ! (base + (sz - half))"
    proof -
      assume lt: "x < ks ! (base + half)" and b: "base + (sz - half) < length ks"
      have "half \<le> sz - half" by (simp add: half_def)
      then have "ks ! (base + half) \<le> ks ! (base + (sz - half))"
        using 1(2) b by (intro sorted_nth_mono) auto
      with lt show ?thesis by order
    qed
    show ?thesis unfolding eq
      by (rule 1(1) [OF True half_def refl]) (use 1(2-6) half next_lt in auto)
  next
    case False
    then have "sz = 1" using 1(3) by simp
    moreover have "bs_loop ks x base sz = base" using False by (subst bs_loop.simps) simp
    ultimately show ?thesis using 1(4-6) by simp
  qed
qed

lemma binary_search_Some:
  assumes "sorted ks" and "binary_search ks x = Some i"
  shows "i < length ks \<and> ks ! i = x"
  using assms bs_loop_spec [OF assms(1), of "length ks" 0 x] by (auto simp: binary_search_def Let_def split: if_splits)

lemma binary_search_None:
  assumes "sorted ks"
  shows "binary_search ks x = None \<longleftrightarrow> x \<notin> set ks"
proof (cases "ks = []")
  case False
  define b where "b = bs_loop ks x 0 (length ks)"
  have b: "b < length ks" "b = 0 \<or> ks ! b \<le> x" "Suc b < length ks \<longrightarrow> x < ks ! Suc b"
    using bs_loop_spec [OF assms, of "length ks" 0 x] False by (auto simp: b_def)
  have "ks ! b = x" if "x \<in> set ks"
  proof -
    from that obtain j where j: "j < length ks" "ks ! j = x" by (auto simp: in_set_conv_nth)
    have "j \<le> b"
    proof (rule ccontr)
      assume "\<not> j \<le> b"
      then have "Suc b < length ks" "ks ! Suc b \<le> ks ! j" using j assms by (auto intro: sorted_nth_mono)
      then show False using b j by auto
    qed
    then have "ks ! j \<le> ks ! b" using b assms by (intro sorted_nth_mono) auto
    then show ?thesis using b(2) j \<open>j \<le> b\<close> by auto
  qed
  then show ?thesis using b(1) False by (auto simp: binary_search_def b_def [symmetric])
qed (simp add: binary_search_def)

section \<open>Aliases\<close>

lemma dec_digits_simps [simp]: "dec_digits 0 = []" "0 < n \<Longrightarrow> dec_digits n = (0x30 + of_nat (n mod 10)) # dec_digits (n div 10)"
  by (simp_all add: dec_digits.simps)

lemma digit_inj:
  assumes "a < 10" and "b < 10" and "(0x30 + of_nat a :: u8) = 0x30 + of_nat b"
  shows "a = b"
proof -
  have "unat (of_nat a :: u8) = a" "unat (of_nat b :: u8) = b"
    using assms(1,2) by (intro unat_of_nat_small, simp)+
  moreover have "(of_nat a :: u8) = of_nat b" using assms(3) by simp
  ultimately show ?thesis by metis
qed

lemma dec_digits_inj: "dec_digits n = dec_digits m \<Longrightarrow> n = m"
proof (induction n arbitrary: m rule: dec_digits.induct)
  case (1 n)
  show ?case
  proof (cases "0 < n \<and> 0 < m")
    case True
    then have "dec_digits (n div 10) = dec_digits (m div 10)" "n mod 10 = m mod 10"
      using 1(2) digit_inj [of "n mod 10" "m mod 10"] by auto
    with True have "n div 10 = m div 10" using 1(1) by blast
    with \<open>n mod 10 = m mod 10\<close> show ?thesis by (metis div_mult_mod_eq)
  next
    case False
    then show ?thesis using 1(2) by (cases "n = 0"; cases "m = 0") auto
  qed
qed

lemma dec_digits_length: "n < 10 ^ k \<Longrightarrow> length (dec_digits n) \<le> k"
proof (induction k arbitrary: n)
  case (Suc k)
  then have "n div 10 < 10 ^ k" by (simp add: div_less_iff_less_mult)
  then show ?case using Suc.IH by (cases "n = 0") auto
qed simp

lemma dec_digits_range: "d \<in> set (dec_digits n) \<Longrightarrow> 0x30 \<le> d \<and> d \<le> 0x39"
proof (induction n rule: dec_digits.induct)
  case (1 n)
  have "unat (0x30 + of_nat (n mod 10) :: u8) = 0x30 + n mod 10"
    by (subst unat_add_lem [THEN iffD1]) (simp_all add: unat_of_nat_small)
  then have "0x30 \<le> (0x30 + of_nat (n mod 10) :: u8) \<and> (0x30 + of_nat (n mod 10) :: u8) \<le> 0x39"
    by (simp add: word_le_nat_alt)
  then show ?case using 1 by (cases "n = 0") auto
qed

text \<open>A clean part of an alias: legal bytes in capitals, hence without a dot.\<close>
definition clean :: "u8 list \<Rightarrow> bool" where
  "clean bs \<longleftrightarrow> list_all (\<lambda>b. is_dos_legal b \<and> to_ascii_uppercase b = b) bs"

definition alias_ok :: "u8 list \<Rightarrow> bool" where
  "alias_ok a \<longleftrightarrow> fits_8_3 a \<and> map to_ascii_uppercase a = a"

lemma clean_simps [simp]: "clean []" "clean (b # bs) \<longleftrightarrow> is_dos_legal b \<and> to_ascii_uppercase b = b \<and> clean bs" "clean (as @ bs) \<longleftrightarrow> clean as \<and> clean bs"
  by (simp_all add: clean_def)

lemma clean_take: "clean bs \<Longrightarrow> clean (take n bs)"
  by (auto simp: clean_def list_all_iff dest: in_set_takeD)

lemma legal_upper: "is_dos_legal b \<Longrightarrow> is_dos_legal (to_ascii_uppercase b)"
proof -
  have "0x41 \<le> b - 0x20 \<and> b - 0x20 \<le> 0x5A" if "0x61 \<le> b" "b \<le> 0x7A"
    using that by (auto simp: word_le_nat_alt unat_sub_if')
  then show "is_dos_legal b \<Longrightarrow> ?thesis" by (auto simp: is_dos_legal_def to_ascii_uppercase_def)
qed

lemma clean_filter: "clean (map to_ascii_uppercase (filter is_dos_legal bs))"
  by (auto simp: clean_def list_all_iff legal_upper)

lemma clean_digits: "clean (dec_digits n)" "clean (rev (dec_digits n))"
proof -
  have "is_dos_legal d \<and> to_ascii_uppercase d = d" if "0x30 \<le> d" "d \<le> 0x39" for d
    using that by (auto simp: is_dos_legal_def to_ascii_uppercase_def word_le_nat_alt)
  then show "clean (dec_digits n)" "clean (rev (dec_digits n))"
    using dec_digits_range [of _ n] by (auto simp: clean_def list_all_iff)
qed

lemma legal_not_dot: "is_dos_legal b \<Longrightarrow> b \<noteq> 0x2E"
  by (auto simp: is_dos_legal_def)

lemma find_index_append_Cons: "\<forall>x\<in>set xs. \<not> P x \<Longrightarrow> P y \<Longrightarrow> find_index P (xs @ y # ys) = Some (length xs)"
  by (induction xs) auto

lemma alias_ok_parts:
  assumes "clean base" and "clean ext" and "base \<noteq> []" and "length base \<le> 8" and "length ext \<le> 3"
  shows "alias_ok (base @ (if ext \<noteq> [] then [0x2E] @ ext else []))"
proof -
  have legal: "list_all is_dos_legal base" "list_all is_dos_legal ext"
    and upper: "map to_ascii_uppercase base = base" "map to_ascii_uppercase ext = ext"
    using assms(1,2) by (auto simp: clean_def list_all_iff intro: map_idI)
  have nodot: "filter (\<lambda>b. b = 0x2E) base = []" "filter (\<lambda>b. b = 0x2E) ext = []" "\<forall>b\<in>set base. b \<noteq> 0x2E"
    using legal legal_not_dot by (auto simp: filter_empty_conv list_all_iff)
  have "find_index (\<lambda>b. b = 0x2E) base = None" using nodot(3) by (simp add: find_index_None)
  moreover have "find_index (\<lambda>b. b = 0x2E) (base @ 0x2E # ext) = Some (length base)"
    using nodot(3) by (intro find_index_append_Cons) auto
  moreover have "to_ascii_uppercase 0x2E = 0x2E" by (simp add: to_ascii_uppercase_def)
  ultimately show ?thesis using assms legal upper nodot by (auto simp: alias_ok_def fits_8_3_def)
qed

lemma numbered_alias_ok:
  assumes "clean base" and "clean ext" and "length ext \<le> 3" and "n \<le> 999999"
  shows "alias_ok (numbered_alias base ext n)"
proof -
  let ?d = "rev (dec_digits n)"
  have "length (dec_digits n) \<le> 6" using assms(4) by (intro dec_digits_length) simp
  moreover have "is_dos_legal 0x7E" "to_ascii_uppercase 0x7E = 0x7E" by (simp_all add: is_dos_legal_def to_ascii_uppercase_def)
  ultimately have "alias_ok ((take (min (length base) (8 - (1 + length ?d))) base @ [0x7E] @ ?d) @ (if ext \<noteq> [] then [0x2E] @ ext else []))"
    using assms clean_take [OF assms(1)] clean_digits [of n] by (intro alias_ok_parts) auto
  then show ?thesis by (simp add: numbered_alias_def Let_def)
qed

lemma numbered_alias_inj:
  assumes "numbered_alias base ext n = numbered_alias base ext m"
  shows "n = m"
proof -
  have tilde: "0x7E \<notin> set (dec_digits k)" for k
    using dec_digits_range [of "0x7E" k] by (auto simp: word_le_nat_alt)
  define pre where "pre k = take (min (length base) (8 - (1 + length (dec_digits k)))) base" for k
  have "(pre n @ [0x7E]) @ rev (dec_digits n) = (pre m @ [0x7E]) @ rev (dec_digits m)"
    using assms by (auto simp: numbered_alias_def pre_def Let_def simp flip: append_Cons append_assoc)
  then have "rev ((pre n @ [0x7E]) @ rev (dec_digits n)) = rev ((pre m @ [0x7E]) @ rev (dec_digits m))" by (rule arg_cong)
  then have "dec_digits n @ 0x7E # rev (pre n) = dec_digits m @ 0x7E # rev (pre m)" by simp
  moreover have "takeWhile (\<lambda>b. b \<noteq> 0x7E) (dec_digits k @ 0x7E # r) = dec_digits k" for k r
    using tilde [of k] by (subst takeWhile_append2) auto
  ultimately have "dec_digits n = dec_digits m" by metis
  then show ?thesis by (rule dec_digits_inj)
qed

lemma alias_taken_iff: "alias_taken a existing \<longleftrightarrow> a \<in> fst ` set existing"
  by (force simp: alias_taken_def)

lemma alias_loop_unfold:
  "alias_loop base ext existing n =
    (if 999999 < n then None
     else if alias_taken (numbered_alias base ext n) existing then alias_loop base ext existing (Suc n)
     else Some (numbered_alias base ext n))"
  by (subst alias_loop.simps) (simp add: Let_def)

text \<open>For evaluation, the bound is compared as a binary integer.\<close>

lemma alias_loop_code [code]:
  "alias_loop base ext existing n =
    (if 999999 < int n then None
     else if alias_taken (numbered_alias base ext n) existing then alias_loop base ext existing (Suc n)
     else Some (numbered_alias base ext n))"
  by (subst alias_loop_unfold) simp

lemma alias_loop_Some:
  assumes "alias_loop base ext existing n = Some a"
  shows "\<exists>k\<ge>n. k \<le> 999999 \<and> a = numbered_alias base ext k \<and> \<not> alias_taken a existing"
  using assms
proof (induction "1000000 - n" arbitrary: n)
  case 0
  then show ?case by (simp add: alias_loop_unfold [of _ _ _ n])
next
  case (Suc m)
  show ?case
  proof (cases "alias_taken (numbered_alias base ext n) existing")
    case True
    then have "\<exists>k\<ge>Suc n. k \<le> 999999 \<and> a = numbered_alias base ext k \<and> \<not> alias_taken a existing"
      using Suc(2,3) by (intro Suc(1)) (auto simp: alias_loop_unfold [of _ _ _ n] split: if_splits)
    then show ?thesis by (metis Suc_leD)
  next
    case False
    then show ?thesis using Suc(3) by (auto simp: alias_loop_unfold [of _ _ _ n] split: if_splits)
  qed
qed

lemma alias_loop_None:
  assumes "alias_loop base ext existing n = None" and "n \<le> k" and "k \<le> 999999"
  shows "alias_taken (numbered_alias base ext k) existing"
  using assms
proof (induction "1000000 - n" arbitrary: n)
  case (Suc m)
  then have "alias_taken (numbered_alias base ext n) existing" "alias_loop base ext existing (Suc n) = None"
    by (auto simp: alias_loop_unfold [of _ _ _ n] split: if_splits)
  then show ?case using Suc(1) [of "Suc n"] Suc(2,4,5) by (cases "k = n") auto
qed simp

lemma alias_loop_returns:
  assumes "length existing < 999999"
  shows "alias_loop base ext existing 1 \<noteq> None"
proof
  let ?f = "numbered_alias base ext"
  assume "alias_loop base ext existing 1 = None"
  then have "alias_taken (?f k) existing" if "k \<in> {1..999999}" for k
    using alias_loop_None [of base ext existing 1 k] that by simp
  then have "?f ` {1..999999} \<subseteq> set (map fst existing)" by (auto simp: alias_taken_iff)
  then have "card (?f ` {1..999999}) \<le> card (set (map fst existing))" by (intro card_mono) simp_all
  also have "\<dots> \<le> length existing" using card_length [of "map fst existing"] by simp
  finally have "card (?f ` {1..999999}) \<le> length existing" .
  moreover have "card (?f ` {1..999999}) = 999999"
    by (subst card_image) (auto intro: inj_onI dest: numbered_alias_inj)
  ultimately show False using assms by simp
qed

lemma fits_upper: "fits_8_3 name \<Longrightarrow> alias_ok (map to_ascii_uppercase name)"
proof -
  have dot: "to_ascii_uppercase b = 0x2E \<longleftrightarrow> b = 0x2E" for b
  proof -
    have "b - 0x20 \<noteq> 0x2E" if "0x61 \<le> b"
      using that unat_u8_less [of b] by (auto simp: word_le_nat_alt word_unat_eq_iff unat_sub_if')
    then show ?thesis by (auto simp: to_ascii_uppercase_def)
  qed
  have "find_index (\<lambda>b. b = 0x2E) (map to_ascii_uppercase name) = find_index (\<lambda>b. b = 0x2E) name"
    by (induction name) (simp_all add: dot)
  moreover have "filter (\<lambda>b. b = 0x2E) (map to_ascii_uppercase name) = filter (\<lambda>b. b = 0x2E) (map to_ascii_uppercase (filter (\<lambda>b. b = 0x2E) name))"
    by (induction name) (simp_all add: dot)
  then have "length (filter (\<lambda>b. b = 0x2E) (map to_ascii_uppercase name)) = length (filter (\<lambda>b. b = 0x2E) name)"
    by (simp add: filter_map comp_def dot)
  ultimately show "fits_8_3 name \<Longrightarrow> ?thesis"
    by (auto simp: alias_ok_def fits_8_3_def Let_def list_all_iff legal_upper take_map drop_map split: option.splits)
qed

lemma compute_alias_ok:
  assumes "length existing < 999999"
  shows "alias_ok (compute_alias_8_3 name existing) \<and>
    (\<not> fits_8_3 name \<longrightarrow> compute_alias_8_3 name existing \<notin> fst ` set existing)"
proof (cases "fits_8_3 name")
  case True
  then show ?thesis by (simp add: compute_alias_8_3_def fits_upper)
next
  case False
  define dot where "dot = (case rposition (\<lambda>b. b = 0x2E) name of Some p \<Rightarrow> p | None \<Rightarrow> length name)"
  define base where "base = map to_ascii_uppercase (filter is_dos_legal (take dot name))"
  define ext where "ext = take 3 (map to_ascii_uppercase (filter is_dos_legal (if dot < length name then drop (dot + 1) name else [])))"
  have c: "clean base" "clean ext" "length ext \<le> 3" unfolding base_def ext_def by (simp_all add: clean_take clean_filter)
  have a: "compute_alias_8_3 name existing = the (alias_loop base ext existing 1)"
    using False alias_loop_returns [OF assms, of base ext]
    by (auto simp: compute_alias_8_3_def Let_def base_def ext_def dot_def)
  obtain k where "k \<le> 999999" "the (alias_loop base ext existing 1) = numbered_alias base ext k"
    "\<not> alias_taken (the (alias_loop base ext existing 1)) existing"
    using alias_loop_returns [OF assms, of base ext] alias_loop_Some [of base ext existing 1] by auto
  then show ?thesis using a c numbered_alias_ok by (simp add: alias_taken_iff)
qed

section \<open>Tables and cache\<close>

text \<open>What the file system itself answers to a lookup, without the cache.\<close>

definition fs_lookup :: "vfs_view \<Rightarrow> u8 list \<Rightarrow> u8 list \<Rightarrow> u8 list option" where
  "fs_lookup v vfs_dir alias =
     (let dir = ci_build v (ci_norm vfs_dir) in
      case binary_search (map fst dir) alias of
        Some i \<Rightarrow> Some (original (snd (dir ! i)))
      | None \<Rightarrow> mount_child v vfs_dir alias)"

lemma ci_build_sorted: "sorted (map fst (ci_build v dir))"
  by (simp add: ci_build_def Let_def)

lemma fs_lookup_alias:
  assumes "a \<in> fst ` set (ci_build v (ci_norm dir))"
  shows "\<exists>e. (a, e) \<in> set (ci_build v (ci_norm dir)) \<and> fs_lookup v dir a = Some (original e)"
proof -
  let ?t = "ci_build v (ci_norm dir)"
  obtain i where i: "binary_search (map fst ?t) a = Some i"
    using binary_search_None [OF ci_build_sorted, of v "ci_norm dir" a] assms by auto
  then have "i < length ?t" "fst (?t ! i) = a" using binary_search_Some [OF ci_build_sorted i] by auto
  then have "(a, snd (?t ! i)) \<in> set ?t" by (metis nth_mem prod.collapse)
  with i show ?thesis by (auto simp: fs_lookup_def Let_def)
qed

lemma fs_lookup_other:
  "a \<notin> fst ` set (ci_build v (ci_norm dir)) \<Longrightarrow> fs_lookup v dir a = mount_child v dir a"
  using binary_search_None [OF ci_build_sorted, of v "ci_norm dir" a] by (simp add: fs_lookup_def Let_def)

text \<open>
  The directory tree is a function of the generation: the file system layer changes the
  generation whenever a directory may have changed.
\<close>

definition view_at :: "(u64 \<Rightarrow> vfs_view) \<Rightarrow> u64 \<Rightarrow> vfs_view" where
  "view_at h g = (h g)\<lparr>directory_generation := g\<rparr>"

definition ci_ok :: "(u64 \<Rightarrow> vfs_view) \<Rightarrow> ci_state \<Rightarrow> bool" where
  "ci_ok h st \<longleftrightarrow> btree_wf (ci_cache st) \<and>
     (\<forall>k d. btree_get (ci_cache st) k = Some d \<longrightarrow> d = ci_build (view_at h (ci_generation st)) k)"

lemma ci_ok_init [simp]: "ci_ok h ci_init"
  by (simp add: ci_ok_def ci_init_def)

lemma ensure_cached_ok:
  assumes "ci_ok h st"
  shows "fst (ensure_cached (view_at h g) dir st) = ci_build (view_at h g) (ci_norm dir) \<and>
    ci_ok h (snd (ensure_cached (view_at h g) dir st))"
proof -
  have gen: "directory_generation (view_at h g) = g" by (simp add: view_at_def)
  define s1 where "s1 = (if ci_generation st \<noteq> g then st\<lparr>ci_cache := [], ci_generation := g\<rparr> else st)"
  have s1: "ci_ok h s1" "ci_generation s1 = g" using assms by (auto simp: s1_def ci_ok_def)
  define s2 where "s2 = (if btree_get (ci_cache s1) (ci_norm dir) = None
    then s1\<lparr>ci_cache := btree_insert (ci_norm dir) (ci_build (view_at h g) (ci_norm dir)) (ci_cache s1)\<rparr> else s1)"
  have eq: "ensure_cached (view_at h g) dir st = (the (btree_get (ci_cache s2) (ci_norm dir)), s2)"
    unfolding ensure_cached_def Let_def gen s1_def s2_def by (rule refl)
  show ?thesis unfolding eq using s1 by (auto simp: s2_def ci_ok_def)
qed

lemma ci_ok_invalidate: "ci_ok h st \<Longrightarrow> ci_ok h (ci_invalidate dir st)"
  by (auto simp: ci_ok_def ci_invalidate_def)

lemma ci_lookup_ok:
  assumes "ci_ok h st"
  shows "fst (ci_lookup (view_at h g) dir a st) = fs_lookup (view_at h g) dir a \<and> ci_ok h (snd (ci_lookup (view_at h g) dir a st))"
  using ensure_cached_ok [OF assms, of g dir]
  by (cases "ensure_cached (view_at h g) dir st") (auto simp: ci_lookup_def fs_lookup_def Let_def split: option.splits)

section \<open>Sequences of lookups\<close>

datatype ci_op = Lookup "u8 list" "u8 list" | EntryAt "u8 list" nat | Invalidate "u8 list"
datatype ci_out = Name "u8 list option" | Listed "(u8 list \<times> ci_entry) option" | Dropped

fun ci_step :: "vfs_view \<Rightarrow> ci_op \<Rightarrow> ci_state \<Rightarrow> ci_out \<times> ci_state" where
  "ci_step v (Lookup dir a) st = map_prod Name id (ci_lookup v dir a st)" |
  "ci_step v (EntryAt dir i) st = map_prod Listed id (ci_entry_at v dir i st)" |
  "ci_step v (Invalidate dir) st = (Dropped, ci_invalidate dir st)"

text \<open>A history of operations, each at the generation the file system has reached.\<close>
fun ci_run :: "(u64 \<Rightarrow> vfs_view) \<Rightarrow> (u64 \<times> ci_op) list \<Rightarrow> ci_state \<Rightarrow> ci_out list \<times> ci_state" where
  "ci_run h [] st = ([], st)" |
  "ci_run h ((g, op) # ops) st =
     (let (r, st) = ci_step (view_at h g) op st; (rs, st) = ci_run h ops st in (r # rs, st))"

text \<open>The answers computed from the file system alone.\<close>
fun fs_answer :: "vfs_view \<Rightarrow> ci_op \<Rightarrow> ci_out" where
  "fs_answer v (Lookup dir a) = Name (fs_lookup v dir a)" |
  "fs_answer v (EntryAt dir i) =
     (let t = ci_build v (ci_norm dir) in Listed (if i < length t then Some (t ! i) else None))" |
  "fs_answer v (Invalidate dir) = Dropped"

lemma ci_entry_at_ok:
  assumes "ci_ok h st"
  shows "fst (ci_entry_at (view_at h g) dir i st) =
      (let t = ci_build (view_at h g) (ci_norm dir) in if i < length t then Some (t ! i) else None) \<and>
    ci_ok h (snd (ci_entry_at (view_at h g) dir i st))"
  using ensure_cached_ok [OF assms, of g dir]
  by (cases "ensure_cached (view_at h g) dir st") (simp add: ci_entry_at_def Let_def)

lemma ci_step_ok:
  assumes "ci_ok h st"
  shows "fst (ci_step (view_at h g) op st) = fs_answer (view_at h g) op \<and> ci_ok h (snd (ci_step (view_at h g) op st))"
  using ci_lookup_ok [OF assms] ci_entry_at_ok [OF assms] ci_ok_invalidate [OF assms]
  by (cases op) (simp_all add: Let_def)

lemma ci_run_ok:
  "ci_ok h st \<Longrightarrow> fst (ci_run h ops st) = map (\<lambda>(g, op). fs_answer (view_at h g) op) ops"
proof (induction ops arbitrary: st)
  case (Cons x ops)
  obtain g op where x: "x = (g, op)" by fastforce
  show ?case
    using ci_step_ok [OF Cons.prems, of g op] Cons.IH [of "snd (ci_step (view_at h g) op st)"]
    by (simp add: x case_prod_beta Let_def)
qed simp

section \<open>Properties\<close>

text \<open>
  C36. The alias of a name is always a well-formed 8.3 name in capitals, and in a directory of fewer than
  999999 entries the numbered alias of a name that does not fit 8.3 is different from every alias
  given before it.
\<close>

theorem dos_alias_fresh:
  assumes "length existing < 999999"
  shows "alias_ok (compute_alias_8_3 name existing) \<and>
    (\<not> fits_8_3 name \<longrightarrow> compute_alias_8_3 name existing \<notin> fst ` set existing)"
  using assms by (rule compute_alias_ok)

definition example_entry :: ci_entry where
  "example_entry = \<lparr>original = bytes_of ''longfile name.txt'', e_size = 0, e_is_dir = False, e_mtime = 0\<rparr>"

theorem dos_alias_fresh_witness:
  "compute_alias_8_3 (bytes_of ''longfile two.text'') [(bytes_of ''LONGFI~1.TEX'', example_entry)] = bytes_of ''LONGFI~2.TEX'' \<and>
   alias_ok (bytes_of ''LONGFI~2.TEX'')"
proof -
  have "compute_alias_8_3 (bytes_of ''longfile two.text'') [(bytes_of ''LONGFI~1.TEX'', example_entry)] = bytes_of ''LONGFI~2.TEX''"
    by code_simp
  moreover have "length [(bytes_of ''LONGFI~1.TEX'', example_entry)] < 999999" by simp
  ultimately show ?thesis using dos_alias_fresh by metis
qed

text \<open>
  C14. Whatever sequence of lookups, listings and invalidations reaches the alias cache, while the file
  system changes and changes its generation with every change of a directory, each answer is the
  one computed from the file system at that moment.
\<close>

theorem dos_cache_transparent:
  "fst (ci_run h ops ci_init) = map (\<lambda>(g, op). fs_answer (view_at h g) op) ops"
  by (simp add: ci_run_ok)

text \<open>
  A name that fits 8.3 is its own alias even when an earlier entry already has that alias: two
  entries then share it and only one of them can be opened.
\<close>

lemma alias_collision:
  "map (\<lambda>n. compute_alias_8_3 n [(bytes_of ''README'', example_entry)]) [bytes_of ''readme'', bytes_of ''ReadMe''] =
   [bytes_of ''README'', bytes_of ''README'']"
  by code_simp

end
