(* ===== verification/Dfs.thy ===== *)
theory Dfs
  imports DosNames
begin

text \<open>
  The DOS view of the file system (\<^verbatim>\<open>kernel/src/kernel/dos/dfs.rs\<close>): mapping an absolute DOS path to the path
  of the file system layer, component by component through the alias tables, and changing the
  current directory.  The lemmas show that the walk in the buffer is the plain walk over the list
  of components, with the errors of the source, and what a successful change of directory means
  for the names resolved after it.
\<close>

section \<open>Walking a path\<close>

definition strip_drive_prefix :: "u8 list \<Rightarrow> u8 list \<Rightarrow> u8 list \<Rightarrow> int + ((u8 list \<times> nat) \<times> u8 list)" where
  "strip_drive_prefix cr abs_dos out =
     (if length abs_dos < 3 \<or> abs_dos ! 1 \<noteq> 0x3A \<or> abs_dos ! 2 \<noteq> 0x5C then Inl 3
      else and_then
        (if abs_dos ! 0 = 0x41 then Inr (bytes_of ''floppya/'')
         else if abs_dos ! 0 = 0x42 then Inr (bytes_of ''floppyb/'')
         else if abs_dos ! 0 = 0x43 then Inr cr
         else if abs_dos ! 0 = 0x44 then Inr (bytes_of ''cdrom/'')
         else if abs_dos ! 0 = 0x48 then Inr (bytes_of ''host/'')
         else Inl 15)
        (\<lambda>prefix. let prefix = strip_slash prefix
                  in Inr ((copy_from_slice prefix out, length prefix), drop 3 abs_dos)))"

text \<open>A name after the path written so far, with a slash between them.\<close>
definition append_name :: "u8 list \<Rightarrow> u8 list \<times> nat \<Rightarrow> int + (u8 list \<times> nat)" where
  "append_name nm = (\<lambda>(out, pos).
     and_then (if 0 < pos then emit [0x2F] (out, pos) else Inr (out, pos)) (emit nm))"

function walk_loop ::
  "vfs_view \<Rightarrow> u8 list \<Rightarrow> bool \<Rightarrow> nat \<Rightarrow> u8 list \<times> nat \<Rightarrow> ci_state \<Rightarrow> (int + (u8 list \<times> nat)) \<times> ci_state" where
  "walk_loop v rest allow_missing_last i (out, pos) st =
     (if i < length rest then
        let start = i;
            i = skip_while (\<lambda>b. b \<noteq> 0x5C) rest (length rest) i;
            comp = take (i - start) (drop start rest);
            is_last = (i = length rest);
            i' = (if \<not> is_last then i + 1 else i)
        in if comp = [] then walk_loop v rest allow_missing_last i' (out, pos) st
           else let (found, st) = ci_lookup v (take pos out) comp st in
             case (case found of
                     Some orig \<Rightarrow> append_name orig (out, pos)
                   | None \<Rightarrow> if is_last \<and> allow_missing_last then append_name comp (out, pos)
                             else if is_last then Inl 2 else Inl 3) of
               Inl e \<Rightarrow> (Inl e, st)
             | Inr r \<Rightarrow> walk_loop v rest allow_missing_last i' r st
      else (Inr (out, pos), st))"
  by pat_completeness auto
termination
proof (relation "measure (\<lambda>(_, rest, _, i, _). length rest - i)", goal_cases)
  case (2 v rest allow i out pos st start i' comp is_last i'')
  have "i \<le> i'" using 2 skip_while_spec(1) by auto
  moreover have "i' = length rest \<Longrightarrow> i < i'" using 2 by simp
  ultimately show ?case using 2 by auto
next
  case (3 v rest allow i out pos st start i' comp is_last i'')
  have "i \<le> i'" using 3 skip_while_spec(1) by auto
  moreover have "i' = length rest \<Longrightarrow> i < i'" using 3 by simp
  ultimately show ?case using 3 by auto
qed simp

declare walk_loop.simps [simp del]

definition walk_components ::
  "vfs_view \<Rightarrow> u8 list \<Rightarrow> u8 list \<times> nat \<Rightarrow> bool \<Rightarrow> ci_state \<Rightarrow> (int + (u8 list \<times> nat)) \<times> ci_state" where
  "walk_components v rest r allow_missing_last st =
     (if rest = [] then (Inr r, st) else walk_loop v rest allow_missing_last 0 r st)"

definition to_vfs :: "bool \<Rightarrow> vfs_view \<Rightarrow> u8 list \<Rightarrow> u8 list \<Rightarrow> u8 list \<Rightarrow> ci_state \<Rightarrow> (int + (u8 list \<times> nat)) \<times> ci_state" where
  "to_vfs allow_missing_last v cr abs_dos out st =
     (case strip_drive_prefix cr abs_dos out of
        Inl e \<Rightarrow> (Inl e, st)
      | Inr (r, rest) \<Rightarrow> walk_components v rest r allow_missing_last st)"

definition to_vfs_open :: "vfs_view \<Rightarrow> u8 list \<Rightarrow> u8 list \<Rightarrow> u8 list \<Rightarrow> ci_state \<Rightarrow> (int + (u8 list \<times> nat)) \<times> ci_state" where
  "to_vfs_open = to_vfs False"

definition to_vfs_create :: "vfs_view \<Rightarrow> u8 list \<Rightarrow> u8 list \<Rightarrow> u8 list \<Rightarrow> ci_state \<Rightarrow> (int + (u8 list \<times> nat)) \<times> ci_state" where
  "to_vfs_create = to_vfs True"

definition chdir :: "vfs_view \<Rightarrow> u8 list \<Rightarrow> u8 list \<Rightarrow> dfs_state \<Rightarrow> ci_state \<Rightarrow> int \<times> dfs_state \<times> ci_state" where
  "chdir v cr dos_in s st =
     (case resolve s dos_in (replicate DFS_PATH_MAX 0) of
        Inl e \<Rightarrow> (e, s, st)
      | Inr (abs_dos, alen) \<Rightarrow>
          (case to_vfs_open v cr (take alen abs_dos) (replicate DFS_PATH_MAX 0) st of
             (Inl e, st) \<Rightarrow> (e, s, st)
           | (Inr (vfs_buf, vlen), st) \<Rightarrow>
               if \<not> dir_exists v (take vlen vfs_buf) then (3, s, st)
               else (0, set_cwd_for (abs_dos ! 0) (drop 3 (take alen abs_dos)) s, st)))"

section \<open>The reference walk\<close>

text \<open>
  Each component is looked up in the directory reached so far.  A missing last component is taken
  as it is when it may be created and is error 2 otherwise; any other missing one is error 3, and
  so is a path that does not fit the buffer.
\<close>

fun vfs_walk :: "(u8 list \<Rightarrow> u8 list \<Rightarrow> u8 list option) \<Rightarrow> bool \<Rightarrow> u8 list \<Rightarrow> u8 list list \<Rightarrow> int + u8 list" where
  "vfs_walk look create path [] = Inr path" |
  "vfs_walk look create path (c # cs) =
     (case (case look path c of Some orig \<Rightarrow> Inr orig
            | None \<Rightarrow> if cs \<noteq> [] then Inl 3 else if create then Inr c else Inl 2) of
        Inl e \<Rightarrow> Inl e
      | Inr nm \<Rightarrow>
          let path = (if path = [] then nm else path @ [0x2F] @ nm)
          in if DFS_PATH_MAX < length path then Inl 3 else vfs_walk look create path cs)"

lemma append_name_spec:
  assumes "length out = DFS_PATH_MAX" and "pos \<le> DFS_PATH_MAX"
  shows "let path = (if take pos out = [] then nm else take pos out @ [0x2F] @ nm) in
    if DFS_PATH_MAX < length path then append_name nm (out, pos) = Inl 3
    else \<exists>out'. append_name nm (out, pos) = Inr (out', length path) \<and> length out' = DFS_PATH_MAX \<and> take (length path) out' = path"
proof (cases "pos = 0")
  case True
  then show ?thesis using assms by (simp add: append_name_def emit_spec)
next
  case False
  let ?o = "take pos out @ 0x2F # drop (Suc pos) out"
  show ?thesis
  proof (cases "pos < DFS_PATH_MAX")
    case True
    then have "append_name nm (out, pos) = emit nm (?o, Suc pos)"
      using False assms by (simp add: append_name_def upd_conv_take_nth_drop)
    then show ?thesis using False True assms by (auto simp: emit_spec)
  qed (use False assms in \<open>auto simp: append_name_def emit_spec DFS_PATH_MAX_def\<close>)
qed

lemma join_path_split:
  assumes "comps_ok (c # cs)" and "drop i rest = join_path (c # cs)" and "i \<le> length rest"
  defines "j \<equiv> skip_while (\<lambda>b. b \<noteq> 0x5C) rest (length rest) i"
  shows "i < length rest" "take (j - i) (drop i rest) = c" "j = length rest \<longleftrightarrow> cs = []"
    "cs = [] \<Longrightarrow> drop j rest = []" "cs \<noteq> [] \<Longrightarrow> drop (j + 1) rest = join_path cs \<and> j + 1 \<le> length rest"
proof -
  have c: "c \<noteq> []" "0x5C \<notin> set c" "comps_ok cs" using assms(1) by (auto simp: comps_ok_def)
  obtain r where r: "drop i rest = c @ r" "r = (if cs = [] then [] else 0x5C # join_path cs)"
    using assms(2) by (cases cs) auto
  have "takeWhile (\<lambda>b. b \<noteq> 0x5C) (c @ r) = c @ takeWhile (\<lambda>b. b \<noteq> 0x5C) r"
    using c(2) by (intro takeWhile_append2) auto
  also have "\<dots> = c" using r(2) by simp
  finally have j: "j = i + length c"
    using assms(3) r(1) by (simp add: j_def skip_while_length)
  have len: "length rest = i + length c + length r" using arg_cong [OF r(1), of length] assms(3) by simp
  show "i < length rest" "take (j - i) (drop i rest) = c" "j = length rest \<longleftrightarrow> cs = []" "cs = [] \<Longrightarrow> drop j rest = []"
    using c(1) len r j by auto
  have "drop (Suc (length c)) (drop i rest) = drop (Suc (length c)) (c @ r)" using r(1) by simp
  then show "cs \<noteq> [] \<Longrightarrow> drop (j + 1) rest = join_path cs \<and> j + 1 \<le> length rest"
    using r(2) j len by (simp add: add.commute)
qed

text \<open>One component of the walk.\<close>

lemma walk_loop_step:
  assumes "comps_ok (c # cs)" and "drop i rest = join_path (c # cs)" and "i \<le> length rest"
  obtains i' where "cs = [] \<Longrightarrow> i' = length rest" "cs \<noteq> [] \<Longrightarrow> drop i' rest = join_path cs" "i' \<le> length rest"
    "walk_loop v rest create i (out, pos) st =
      (let (found, st) = ci_lookup v (take pos out) c st in
        case (case found of Some orig \<Rightarrow> append_name orig (out, pos)
              | None \<Rightarrow> if cs = [] \<and> create then append_name c (out, pos) else if cs = [] then Inl 2 else Inl 3) of
          Inl e \<Rightarrow> (Inl e, st) | Inr r \<Rightarrow> walk_loop v rest create i' r st)"
proof -
  define j where "j = skip_while (\<lambda>b. b \<noteq> 0x5C) rest (length rest) i"
  note sp = join_path_split [OF assms, folded j_def]
  define i' where "i' = (if \<not> cs = [] then j + 1 else j)"
  have c: "c \<noteq> []" using assms(1) by (simp add: comps_ok_def)
  have "walk_loop v rest create i (out, pos) st =
      (let (found, st) = ci_lookup v (take pos out) c st in
        case (case found of Some orig \<Rightarrow> append_name orig (out, pos)
              | None \<Rightarrow> if cs = [] \<and> create then append_name c (out, pos) else if cs = [] then Inl 2 else Inl 3) of
          Inl e \<Rightarrow> (Inl e, st) | Inr r \<Rightarrow> walk_loop v rest create i' r st)"
    unfolding walk_loop.simps [of v rest create i] Let_def j_def [symmetric] sp(2,3) i'_def
    by (simp only: sp(1) c if_True if_False)
  moreover have "cs = [] \<Longrightarrow> i' = length rest" "cs \<noteq> [] \<Longrightarrow> drop i' rest = join_path cs" "i' \<le> length rest"
    using sp(3,5) by (auto simp: i'_def)
  ultimately show ?thesis using that by blast
qed

lemma walk_loop_spec:
  assumes "comps_ok cs" and "drop i rest = join_path cs" and "i \<le> length rest" and "length out = DFS_PATH_MAX"
    and "pos \<le> DFS_PATH_MAX" and "ci_ok h st"
  shows "written (fst (walk_loop (view_at h g) rest create i (out, pos) st)) =
      vfs_walk (fs_lookup (view_at h g)) create (take pos out) cs \<and>
    ci_ok h (snd (walk_loop (view_at h g) rest create i (out, pos) st))"
  using assms
proof (induction cs arbitrary: i out pos st)
  case Nil
  then show ?case by (simp add: walk_loop.simps)
next
  case (Cons c cs)
  obtain i' where i': "cs = [] \<Longrightarrow> i' = length rest" "cs \<noteq> [] \<Longrightarrow> drop i' rest = join_path cs" "i' \<le> length rest"
    and w: "walk_loop (view_at h g) rest create i (out, pos) st =
      (let (found, st) = ci_lookup (view_at h g) (take pos out) c st in
        case (case found of Some orig \<Rightarrow> append_name orig (out, pos)
              | None \<Rightarrow> if cs = [] \<and> create then append_name c (out, pos) else if cs = [] then Inl 2 else Inl 3) of
          Inl e \<Rightarrow> (Inl e, st) | Inr r \<Rightarrow> walk_loop (view_at h g) rest create i' r st)"
    using walk_loop_step [OF Cons.prems(1-3)] by blast
  obtain found st' where l: "ci_lookup (view_at h g) (take pos out) c st = (found, st')" by fastforce
  have f: "found = fs_lookup (view_at h g) (take pos out) c" "ci_ok h st'"
    using ci_lookup_ok [OF Cons.prems(6), of g "take pos out" c] l by auto
  have rest: "comps_ok cs" "drop i' rest = join_path cs" using Cons.prems(1) i' by (auto simp: comps_ok_def) (cases "cs = []"; simp)
  have go: "written (fst (case append_name nm (out, pos) of Inl e \<Rightarrow> (Inl e, st')
        | Inr r \<Rightarrow> walk_loop (view_at h g) rest create i' r st')) =
      (let path = (if take pos out = [] then nm else take pos out @ [0x2F] @ nm) in
        if DFS_PATH_MAX < length path then Inl 3 else vfs_walk (fs_lookup (view_at h g)) create path cs) \<and>
      ci_ok h (snd (case append_name nm (out, pos) of Inl e \<Rightarrow> (Inl e, st')
        | Inr r \<Rightarrow> walk_loop (view_at h g) rest create i' r st'))" for nm
    using append_name_spec [OF Cons.prems(4,5), of nm] f(2) Cons.IH [OF rest i'(3), of _ _ st']
    unfolding Let_def by (cases "DFS_PATH_MAX < length (if take pos out = [] then nm else take pos out @ [0x2F] @ nm)") fastforce+
  show ?case
  proof (cases found)
    case None
    then show ?thesis unfolding w l using go [of c] f by (cases "cs = []"; cases create) simp_all
  next
    case (Some orig)
    then show ?thesis unfolding w l using go [of orig] f by simp
  qed
qed

lemma walk_components_spec:
  assumes "comps_ok cs" and "length out = DFS_PATH_MAX" and "pos \<le> DFS_PATH_MAX" and "ci_ok h st"
  shows "written (fst (walk_components (view_at h g) (join_path cs) (out, pos) create st)) =
      vfs_walk (fs_lookup (view_at h g)) create (take pos out) cs \<and>
    ci_ok h (snd (walk_components (view_at h g) (join_path cs) (out, pos) create st))"
  using walk_loop_spec [OF assms(1) _ _ assms(2-4), of 0 "join_path cs"] join_path_eq_Nil [OF assms(1)] assms(4)
  by (auto simp: walk_components_def)

text \<open>The directory a drive stands for.\<close>
definition drive_root :: "u8 list \<Rightarrow> u8 \<Rightarrow> u8 list" where
  "drive_root cr d =
     (if d = 0x41 then bytes_of ''floppya'' else if d = 0x42 then bytes_of ''floppyb''
      else if d = 0x44 then bytes_of ''cdrom'' else if d = 0x48 then bytes_of ''host'' else strip_slash cr)"

lemma strip_drive_prefix_spec:
  assumes "d \<in> {0x41, 0x42, 0x43, 0x44, 0x48}" and "length out = DFS_PATH_MAX" and "length cr \<le> 128"
  shows "\<exists>out'. strip_drive_prefix cr ([d, 0x3A, 0x5C] @ p) out = Inr ((out', length (drive_root cr d)), p) \<and>
    length out' = DFS_PATH_MAX \<and> take (length (drive_root cr d)) out' = drive_root cr d \<and> length (drive_root cr d) \<le> DFS_PATH_MAX"
proof -
  have "length (strip_slash cr) \<le> 128" using assms(3) by (auto simp: strip_slash_def)
  then show ?thesis using assms(1,2)
    by (auto simp: strip_drive_prefix_def drive_root_def strip_slash_def bytes_of_def copy_from_slice_def DFS_PATH_MAX_def)
qed

section \<open>Changing the directory\<close>

lemma drive_available_set: "to_ascii_uppercase d = d \<Longrightarrow> drive_available s d \<Longrightarrow> d \<in> {0x41, 0x42, 0x43, 0x44, 0x48}"
  by (auto simp: drive_available_def drive_slot_def Let_def split: if_splits)

text \<open>The components of a canonical path.\<close>
definition comps_of :: "u8 list \<Rightarrow> u8 list list" where
  "comps_of q = (if drop 3 q = [] then [] else split_by (\<lambda>b. b = 0x5C) (drop 3 q))"

lemma canonical_path_comps:
  assumes "canonical_path q"
  shows "q = [q ! 0, 0x3A, 0x5C] @ join_path (comps_of q)" "comps_ok (comps_of q)"
proof -
  obtain d raw where q: "q = d # 0x3A # 0x5C # raw"
    using assms by (cases q; cases "tl q"; cases "tl (tl q)") (auto simp: canonical_path_def)
  then show "q = [q ! 0, 0x3A, 0x5C] @ join_path (comps_of q)" by (simp add: comps_of_def join_split)
  show "comps_ok (comps_of q)"
    using assms comps_ok_canonical by (auto simp: canonical_path_def comps_of_def)
qed

lemma to_vfs_spec:
  assumes "canonical_path q" and "q ! 0 \<in> {0x41, 0x42, 0x43, 0x44, 0x48}" and "length out = DFS_PATH_MAX" and "length cr \<le> 128" and "ci_ok h st"
  shows "written (fst (to_vfs create (view_at h g) cr q out st)) =
      vfs_walk (fs_lookup (view_at h g)) create (drive_root cr (q ! 0)) (comps_of q) \<and>
    ci_ok h (snd (to_vfs create (view_at h g) cr q out st))"
proof -
  note q = canonical_path_comps [OF assms(1)]
  obtain out' where o: "strip_drive_prefix cr q out = Inr ((out', length (drive_root cr (q ! 0))), join_path (comps_of q))"
    "length out' = DFS_PATH_MAX" "take (length (drive_root cr (q ! 0))) out' = drive_root cr (q ! 0)" "length (drive_root cr (q ! 0)) \<le> DFS_PATH_MAX"
    using strip_drive_prefix_spec [OF assms(2-4), of "join_path (comps_of q)"] q(1) by metis
  show ?thesis using walk_components_spec [OF q(2) o(2,4) assms(5), of g create] o(3) by (simp add: to_vfs_def o(1))
qed

lemma resolve_Inr:
  assumes "dfs_ok s" and "length out = DFS_PATH_MAX"
  shows "resolve s p out = Inr (b, n) \<Longrightarrow> resolve_path s p = Inr (take n b)"
    and "resolve s p out = Inl e \<Longrightarrow> resolve_path s p = Inl e"
  using resolve_resolve_path [OF assms, of p] by auto

lemma resolve_path_drive:
  assumes "dfs_ok s" and "resolve_path s p = Inr q"
  shows "drive_available s (q ! 0)" "q ! 0 \<in> {0x41, 0x42, 0x43, 0x44, 0x48}"
proof -
  show "drive_available s (q ! 0)"
    using assms(2) by (auto simp: resolve_path_def Let_def split: prod.splits if_splits)
  then show "q ! 0 \<in> {0x41, 0x42, 0x43, 0x44, 0x48}"
    using resolve_path_canonical [OF assms] drive_available_set by (simp add: canonical_path_def)
qed

text \<open>Changing the directory in terms of the reference definitions.\<close>

lemma chdir_spec:
  assumes "dfs_ok s" and "ci_ok h st" and "length cr \<le> 128"
  obtains st' where "ci_ok h st'" "chdir (view_at h g) cr p s st =
    (case resolve_path s p of Inl e \<Rightarrow> (e, s, st)
     | Inr q \<Rightarrow> (case vfs_walk (fs_lookup (view_at h g)) False (drive_root cr (q ! 0)) (comps_of q) of
                   Inl e \<Rightarrow> (e, s, st')
                 | Inr vp \<Rightarrow> if dir_exists (view_at h g) vp then (0, set_cwd_for (q ! 0) (drop 3 q) s, st') else (3, s, st')))"
proof (cases "resolve s p (replicate DFS_PATH_MAX 0)")
  case (Inl e)
  then show ?thesis using that [OF assms(2)] resolve_Inr(2) [OF assms(1), of "replicate DFS_PATH_MAX 0" p] by (simp add: chdir_def)
next
  case (Inr r)
  obtain b n where r: "r = (b, n)" by fastforce
  define q where "q = take n b"
  have q: "resolve_path s p = Inr q" using resolve_Inr(1) [OF assms(1), of "replicate DFS_PATH_MAX 0" p] Inr r by (simp add: q_def)
  have can: "canonical_path q" using resolve_path_canonical [OF assms(1) q] .
  have "b ! 0 = q ! 0" using can by (cases n) (auto simp: q_def canonical_path_def)
  moreover obtain w st' where w: "to_vfs False (view_at h g) cr q (replicate DFS_PATH_MAX 0) st = (w, st')" by fastforce
  have "ci_ok h st'" and "vfs_walk (fs_lookup (view_at h g)) False (drive_root cr (q ! 0)) (comps_of q) = written w"
    using to_vfs_spec [OF can resolve_path_drive(2) [OF assms(1) q] _ assms(3,2), of "replicate DFS_PATH_MAX 0" False g] w by auto
  ultimately show ?thesis
    using Inr by (intro that [of st']; cases w) (auto simp: chdir_def r q q_def [symmetric] to_vfs_open_def w)
qed

text \<open>The prefix of drive C as the boot code sets it.\<close>
definition boot_root :: "u8 list \<Rightarrow> u8 list" where
  "boot_root pre = c_root (set_c_root pre (replicate 128 0, 0))"

lemma boot_root_length: "length (boot_root pre) \<le> 128"
  by (simp add: boot_root_def c_root_def set_c_root_def Let_def)

text \<open>
  The states a DOS thread and the alias cache reach: threads start with a fresh state, select
  drives, inherit or change directories, and every thread uses the one cache.
\<close>

inductive dfs_reach :: "(u64 \<Rightarrow> vfs_view) \<Rightarrow> u8 list \<Rightarrow> dfs_state \<Rightarrow> ci_state \<Rightarrow> bool" for h pre where
  boot: "dfs_reach h pre (dfs_new_with_hostfs b) ci_init"
| spawn: "dfs_reach h pre s st \<Longrightarrow> dfs_reach h pre (dfs_new_with_hostfs b) st"
| inherit: "dfs_reach h pre s st \<Longrightarrow> dfs_reach h pre (init_from_vfs (boot_root pre) p s) st"
| select: "dfs_reach h pre s st \<Longrightarrow> dfs_reach h pre (snd (select_drive d s)) st"
| access: "dfs_reach h pre s st \<Longrightarrow> dfs_reach h pre s (snd (ci_step (view_at h g) op st))"
| change: "dfs_reach h pre s st \<Longrightarrow> chdir (view_at h g) (boot_root pre) p s st = (e, s', st') \<Longrightarrow> dfs_reach h pre s' st'"

lemma canonical_path_bytes:
  assumes "canonical_path q"
  shows "\<forall>b\<in>set (drop 3 q). dos_byte b = b"
proof -
  have cs: "list_all comp_canonical (comps_of q)" "drop 3 q = join_path (comps_of q)"
    using assms by (auto simp: canonical_path_def comps_of_def join_split)
  have "dos_byte 0x5C = 0x5C" by (simp add: dos_byte_def to_ascii_uppercase_def)
  then show ?thesis
    using set_join_path [of "comps_of q"] cs by (fastforce simp: comp_canonical_def list_all_iff)
qed

lemma vfs_walk_error: "vfs_walk look create path cs = Inl e \<Longrightarrow> e = 2 \<or> e = 3"
  by (induction look create path cs rule: vfs_walk.induct) (auto simp: Let_def split: option.splits if_splits)

lemma chdir_cases:
  assumes "dfs_ok s" and "ci_ok h st" and "chdir (view_at h g) (boot_root pre) p s st = (e, s', st')"
  shows "ci_ok h st' \<and> (s' = s \<or> (\<exists>q. resolve_path s p = Inr q \<and> s' = set_cwd_for (q ! 0) (drop 3 q) s))"
    and "e = 0 \<Longrightarrow> resolve_path s p = Inr q \<Longrightarrow> s' = set_cwd_for (q ! 0) (drop 3 q) s"
proof -
  obtain st2 where c: "ci_ok h st2" "chdir (view_at h g) (boot_root pre) p s st =
    (case resolve_path s p of Inl e \<Rightarrow> (e, s, st)
     | Inr q \<Rightarrow> (case vfs_walk (fs_lookup (view_at h g)) False (drive_root (boot_root pre) (q ! 0)) (comps_of q) of
                   Inl e \<Rightarrow> (e, s, st2)
                 | Inr vp \<Rightarrow> if dir_exists (view_at h g) vp then (0, set_cwd_for (q ! 0) (drop 3 q) s, st2) else (3, s, st2)))"
    using chdir_spec [OF assms(1,2) boot_root_length] by blast
  then show "ci_ok h st' \<and> (s' = s \<or> (\<exists>q. resolve_path s p = Inr q \<and> s' = set_cwd_for (q ! 0) (drop 3 q) s))"
    using assms(2,3) by (auto split: sum.splits if_splits)
  show "e = 0 \<Longrightarrow> resolve_path s p = Inr q \<Longrightarrow> s' = set_cwd_for (q ! 0) (drop 3 q) s"
    using c(2) assms(3) by (auto split: sum.splits if_splits dest: vfs_walk_error)
qed

lemma dfs_reach_ok: "dfs_reach h pre s st \<Longrightarrow> dfs_ok s \<and> ci_ok h st"
proof (induction rule: dfs_reach.induct)
  case (change s st g p e s' st')
  then show ?case
    using chdir_cases(1) [of s h st g pre p e s' st'] dfs_ok_set_cwd_for canonical_path_bytes resolve_path_canonical by blast
qed (auto simp: dfs_ok_init dfs_ok_select ci_step_ok)

lemma get_cwd_for_set:
  assumes "dfs_ok s" and "drive_available s d"
  shows "get_cwd_for (set_cwd_for d c s) d = Some (take DFS_CWD_MAX c)"
    and "drive_slot d' \<noteq> drive_slot d \<Longrightarrow> get_cwd_for (set_cwd_for d c s) d' = get_cwd_for s d'"
proof -
  obtain i where i: "drive_slot d = Some i" "i < 5"
    using assms(2) drive_slot_less by (auto simp: drive_available_def drive_slot_def Let_def split: if_splits)
  have n: "unat (of_nat (min (length c) DFS_CWD_MAX) :: u8) = min (length c) DFS_CWD_MAX"
    by (intro unat_of_nat_small) (simp add: DFS_CWD_MAX_def)
  have ok: "length (cwd s) = 5" "length (cwd_len s) = 5" using assms(1) by (auto simp: dfs_ok_def)
  have av: "drive_available (set_cwd_for d c s) x = drive_available s x" for x
    by (simp add: drive_available_def set_cwd_for_def Let_def split: option.splits)
  show "get_cwd_for (set_cwd_for d c s) d = Some (take DFS_CWD_MAX c)"
    using i ok n assms(2) by (simp add: get_cwd_for_def av) (simp add: set_cwd_for_def Let_def copy_from_slice_def take_min_length)
  show "drive_slot d' \<noteq> drive_slot d \<Longrightarrow> get_cwd_for (set_cwd_for d c s) d' = get_cwd_for s d'"
    using i ok assms(2) by (simp add: get_cwd_for_def av split: option.splits) (auto simp: set_cwd_for_def Let_def)
qed

lemma drive_available_cwd [simp]: "drive_available (set_cwd_for d c s) x = drive_available s x"
  by (simp add: drive_available_def set_cwd_for_def Let_def split: option.splits)

text \<open>A name on the drive of the new directory is the name below that directory.\<close>

lemma resolve_relative:
  assumes "dfs_ok s" and "canonical_path q" and "drive_available s (q ! 0)" and "length q \<le> 3 + DFS_CWD_MAX"
    and "r \<noteq> []" and "hd r \<noteq> 0x5C" and "hd r \<noteq> 0x2F"
  shows "resolve_path (set_cwd_for (q ! 0) (drop 3 q) s) ([q ! 0, 0x3A] @ r) =
    resolve_path s (q @ (if drop 3 q = [] then [] else [0x5C]) @ r)"
proof -
  define s' where "s' = set_cwd_for (q ! 0) (drop 3 q) s"
  obtain d raw where q: "q = d # 0x3A # 0x5C # raw"
    using assms(2) by (cases q; cases "tl q"; cases "tl (tl q)") (auto simp: canonical_path_def)
  have up: "to_ascii_uppercase d = d" using assms(2) q by (simp add: canonical_path_def)
  have b: "dos_byte 0x5C = 0x5C" by (simp add: dos_byte_def to_ascii_uppercase_def)
  have "map dos_byte raw = raw" using canonical_path_bytes [OF assms(2)] q by (simp add: map_idI)
  moreover have "get_cwd_for s' d = Some raw"
    using get_cwd_for_set(1) [OF assms(1,3), of "drop 3 q"] assms(4) q by (simp add: s'_def)
  ultimately have "raw_path s' d r = raw_path s d (0x5C # raw @ (if raw = [] then [] else [0x5C]) @ r)"
    using assms(5-7) b by (auto simp: raw_path_def)
  then show ?thesis
    unfolding s'_def [symmetric] using q up by (simp add: resolve_path_def split_drive_def Let_def) (simp add: s'_def)
qed

section \<open>Properties\<close>

text \<open>
  C7. In every state a DOS thread can reach, the in-place resolution of any path is the plain one: the
  drive is the one named or the current one, error 15 if it is not available; the raw path is the
  rest, after the drive's current directory unless it starts with a separator, with capitals and
  backslashes, error 3 if it does not fit 128 bytes; spaces, empty components and single dots are
  dropped and two dots remove the component before them, never the root.
\<close>

theorem dos_resolve_exact:
  assumes "dfs_reach h pre s st" and "length out = DFS_PATH_MAX"
  shows "written (resolve s dos_in out) = resolve_path s dos_in"
  using assms dfs_reach_ok resolve_resolve_path by blast

text \<open>
  C34. A resolved path is canonical, and resolving it again gives the same path, in the same or in any
  other reachable state in which its drive is available.
\<close>

theorem dos_resolve_stable:
  assumes "dfs_reach h pre s st" and "length out = DFS_PATH_MAX" and "resolve s dos_in out = Inr (b, n)"
    and "dfs_reach h pre s' st'" and "drive_available s' (b ! 0)" and "length out' = DFS_PATH_MAX"
  shows "canonical_path (take n b) \<and> written (resolve s' (take n b) out') = Inr (take n b)"
proof -
  have ok: "dfs_ok s" "dfs_ok s'" using assms dfs_reach_ok by blast+
  have "canonical_path (take n b)" using resolve_path_canonical [OF ok(1) resolve_Inr(1) [OF ok(1) assms(2,3)]] .
  moreover from this have "b ! 0 = take n b ! 0" by (cases n) (auto simp: canonical_path_def)
  ultimately show ?thesis
    using resolve_path_canonical_id [of "take n b" s'] resolve_resolve_path [OF ok(2) assms(6)] assms(5) by simp
qed

text \<open>
  C16. Mapping a resolved path to the file system layer, for opening or creating, is the walk over its
  components from the directory of the drive: every component is replaced by the name the file
  system has under that alias, a missing last one is taken as it is when creating and is error 2
  otherwise, a missing directory is error 3.  The cached tables never change the answer.
\<close>

theorem dos_walk_exact:
  assumes "dfs_reach h pre s st" and "length out = DFS_PATH_MAX" and "resolve s dos_in out = Inr (b, n)" and "length out' = DFS_PATH_MAX"
  shows "written (fst (to_vfs create (view_at h g) (boot_root pre) (take n b) out' st)) =
    vfs_walk (fs_lookup (view_at h g)) create (drive_root (boot_root pre) (b ! 0)) (comps_of (take n b))"
proof -
  have ok: "dfs_ok s" "ci_ok h st" using assms(1) dfs_reach_ok by blast+
  note q = resolve_Inr(1) [OF ok(1) assms(2,3)]
  have can: "canonical_path (take n b)" using resolve_path_canonical [OF ok(1) q] .
  then have "b ! 0 = take n b ! 0" by (cases n) (auto simp: canonical_path_def)
  then show ?thesis
    using to_vfs_spec [OF can resolve_path_drive(2) [OF ok(1) q] assms(4) boot_root_length ok(2)] by simp
qed

text \<open>
  C35. After a successful change of directory the drive's current directory is the first 64 bytes of the
  resolved path, the other drives keep theirs, and when the path fits those 64 bytes a relative name
  on that drive resolves to the name below that directory.
\<close>

theorem dos_chdir_relative:
  assumes "dfs_reach h pre s st" and "chdir (view_at h g) (boot_root pre) dos_in s st = (0, s', st')" and "resolve_path s dos_in = Inr q"
  shows "get_cwd_for s' (q ! 0) = Some (take DFS_CWD_MAX (drop 3 q)) \<and>
    (\<forall>d. drive_slot d \<noteq> drive_slot (q ! 0) \<longrightarrow> get_cwd_for s' d = get_cwd_for s d) \<and>
    (\<forall>r. length q \<le> 3 + DFS_CWD_MAX \<longrightarrow> r \<noteq> [] \<and> hd r \<noteq> 0x5C \<and> hd r \<noteq> 0x2F \<longrightarrow>
      resolve_path s' ([q ! 0, 0x3A] @ r) = resolve_path s (q @ (if drop 3 q = [] then [] else [0x5C]) @ r))"
proof -
  have ok: "dfs_ok s" "ci_ok h st" using assms(1) dfs_reach_ok by blast+
  have s': "s' = set_cwd_for (q ! 0) (drop 3 q) s" using chdir_cases(2) [OF ok assms(2) refl assms(3)] .
  have q: "canonical_path q" "drive_available s (q ! 0)"
    using resolve_path_canonical [OF ok(1) assms(3)] resolve_path_drive(1) [OF ok(1) assms(3)] by auto
  show ?thesis unfolding s' using get_cwd_for_set [OF ok(1) q(2)] resolve_relative [OF ok(1) q] by blast
qed

section \<open>Witnesses\<close>

text \<open>A disk with one directory whose name does not fit 8.3.\<close>

definition example_view :: "u64 \<Rightarrow> vfs_view" where
  "example_view g =
     \<lparr>dir_entries = (\<lambda>d. if d = [] then [\<lparr>d_name = bytes_of ''Old Games'', d_size = 0, d_is_dir = True, d_is_symlink = False, d_mtime = 0\<rparr>] else []),
      dir_exists = (\<lambda>d. d = bytes_of ''Old Games''), mount_prefixes = [], directory_generation = g\<rparr>"

theorem dos_resolve_exact_witness:
  "written (resolve dfs_new (bytes_of ''sub dir/../a.txt'') (replicate DFS_PATH_MAX 0)) =
   Inr ([0x43, 0x3A, 0x5C] @ bytes_of ''A.TXT'')"
proof -
  have "resolve_path dfs_new (bytes_of ''sub dir/../a.txt'') = Inr ([0x43, 0x3A, 0x5C] @ bytes_of ''A.TXT'')" by code_simp
  then show ?thesis
    using dos_resolve_exact [OF dfs_reach.boot, of "replicate DFS_PATH_MAX 0" False "bytes_of ''sub dir/../a.txt''"] by (simp add: dfs_new_def)
qed

lemma written_InrD: "written r = Inr q \<Longrightarrow> \<exists>b n. r = Inr (b, n) \<and> take n b = q"
  by (cases r) auto

lemma example_resolve:
  "\<exists>b n. resolve dfs_new (bytes_of ''oldgam~1'') (replicate DFS_PATH_MAX 0) = Inr (b, n) \<and>
     take n b = [0x43, 0x3A, 0x5C] @ bytes_of ''OLDGAM~1'' \<and> b ! 0 = 0x43"
proof -
  have "written (resolve dfs_new (bytes_of ''oldgam~1'') (replicate DFS_PATH_MAX 0)) = Inr ([0x43, 0x3A, 0x5C] @ bytes_of ''OLDGAM~1'')"
    by code_simp
  then obtain b n where bn: "resolve dfs_new (bytes_of ''oldgam~1'') (replicate DFS_PATH_MAX 0) = Inr (b, n)"
    "take n b = [0x43, 0x3A, 0x5C] @ bytes_of ''OLDGAM~1''" by (blast dest: written_InrD)
  then have "b ! 0 = 0x43" by (cases n; cases b) auto
  with bn show ?thesis by blast
qed

theorem dos_resolve_stable_witness:
  "canonical_path ([0x43, 0x3A, 0x5C] @ bytes_of ''OLDGAM~1'') \<and>
   written (resolve (dfs_new_with_hostfs True) ([0x43, 0x3A, 0x5C] @ bytes_of ''OLDGAM~1'') (replicate DFS_PATH_MAX 0)) =
     Inr ([0x43, 0x3A, 0x5C] @ bytes_of ''OLDGAM~1'')"
proof -
  obtain b n where bn: "resolve dfs_new (bytes_of ''oldgam~1'') (replicate DFS_PATH_MAX 0) = Inr (b, n)"
    "take n b = [0x43, 0x3A, 0x5C] @ bytes_of ''OLDGAM~1''" "b ! 0 = 0x43" using example_resolve by blast
  have "drive_available (dfs_new_with_hostfs True) (b ! 0)" unfolding bn(3) by code_simp
  from dos_resolve_stable [OF dfs_reach.boot [of example_view "[]"] _ bn(1) [unfolded dfs_new_def] dfs_reach.boot this, of "replicate DFS_PATH_MAX 0"]
  show ?thesis unfolding bn(2) by simp
qed

theorem dos_walk_exact_witness:
  "written (fst (to_vfs False (view_at example_view 7) (boot_root []) ([0x43, 0x3A, 0x5C] @ bytes_of ''OLDGAM~1'')
     (replicate DFS_PATH_MAX 0) ci_init)) = Inr (bytes_of ''Old Games'')"
proof -
  obtain b n where bn: "resolve dfs_new (bytes_of ''oldgam~1'') (replicate DFS_PATH_MAX 0) = Inr (b, n)"
    "take n b = [0x43, 0x3A, 0x5C] @ bytes_of ''OLDGAM~1''" "b ! 0 = 0x43" using example_resolve by blast
  have "vfs_walk (fs_lookup (view_at example_view 7)) False (drive_root (boot_root []) 0x43)
    (comps_of ([0x43, 0x3A, 0x5C] @ bytes_of ''OLDGAM~1'')) = Inr (bytes_of ''Old Games'')" by code_simp
  then show ?thesis
    using dos_walk_exact [OF dfs_reach.boot [of example_view "[]"] _ bn(1) [unfolded dfs_new_def], of "replicate DFS_PATH_MAX 0" False 7]
    unfolding bn(2,3) by simp
qed

theorem dos_chdir_relative_witness:
  "get_cwd_for (fst (snd (chdir (view_at example_view 7) (boot_root []) (bytes_of ''oldgam~1'') dfs_new ci_init))) 0x43 =
     Some (bytes_of ''OLDGAM~1'')"
proof -
  let ?c = "chdir (view_at example_view 7) (boot_root []) (bytes_of ''oldgam~1'') dfs_new ci_init"
  have "fst ?c = 0" by code_simp
  then have c: "?c = (0, fst (snd ?c), snd (snd ?c))" by (metis prod.collapse)
  have q: "resolve_path dfs_new (bytes_of ''oldgam~1'') = Inr ([0x43, 0x3A, 0x5C] @ bytes_of ''OLDGAM~1'')" by code_simp
  have "take DFS_CWD_MAX (drop 3 ([0x43, 0x3A, 0x5C] @ bytes_of ''OLDGAM~1'')) = bytes_of ''OLDGAM~1''" by code_simp
  then show ?thesis
    using dos_chdir_relative [OF dfs_reach.boot [of example_view "[]" False] c [unfolded dfs_new_def] q [unfolded dfs_new_def], THEN conjunct1]
    by (simp add: dfs_new_def)
qed

end
