(* ===== verification/Klog.thy ===== *)
theory Klog
  imports Cmdline
begin

text \<open>
  The kernel log (\<^verbatim>\<open>klog/src/lib.rs\<close>): a ring of bytes that drops its oldest line when it is full, the
  filter in front of it, and the line-by-line dump that freezes it.  The storage the kernel attaches is
  a list; indices stay below twice its length, so they are \<open>nat\<close>.  The lemmas relate the ring to the list
  of bytes it holds and show which part of everything printed that list is.
\<close>

definition MAX_LINE_LEN :: nat where "MAX_LINE_LEN = 512"

record klog =
  bytes :: "u8 list"
  head :: nat
  len :: nat
  cur_len :: nat
  dumping :: bool
  dump_head :: nat
  dump_bytes :: nat
  dump_pos :: nat
  dump_next_line :: nat

abbreviation capacity :: "klog \<Rightarrow> nat" where
  "capacity l \<equiv> length (bytes l)"

definition klog_new :: klog where
  "klog_new = \<lparr>bytes = [], head = 0, len = 0, cur_len = 0, dumping = False, dump_head = 0, dump_bytes = 0, dump_pos = 0, dump_next_line = 0\<rparr>"

definition klog_init :: "u8 list \<Rightarrow> klog" where
  "klog_init storage = klog_new\<lparr>bytes := storage\<rparr>"

definition byte_at :: "klog \<Rightarrow> nat \<Rightarrow> nat \<Rightarrow> u8" where
  "byte_at l start offset = bytes l ! ((start + offset) mod capacity l)"

function drop_oldest_line :: "klog \<Rightarrow> klog" where
  "drop_oldest_line l =
     (if len l \<noteq> 0 then
        let b = byte_at l (head l) 0;
            l = l\<lparr>head := (head l + 1) mod capacity l, len := len l - 1\<rparr>
        in if b = 0x0A then l else drop_oldest_line l
      else l\<lparr>cur_len := 0\<rparr>)"
  by pat_completeness auto
termination
  by (relation "measure len") auto

declare drop_oldest_line.simps [simp del]

definition klog_append :: "u8 \<Rightarrow> klog \<Rightarrow> klog" where
  "klog_append b l =
     (let l = (if len l = capacity l then drop_oldest_line l else l);
          tail = (head l + len l) mod capacity l
      in l\<lparr>bytes := (bytes l)[tail := b], len := len l + 1\<rparr>)"

definition push_byte :: "u8 \<Rightarrow> klog \<Rightarrow> klog" where
  "push_byte b l =
     (if capacity l = 0 \<or> dumping l then l
      else if b = 0x0D then l
      else if b = 0x0A then (klog_append b l)\<lparr>cur_len := 0\<rparr>
      else if cur_len l < MAX_LINE_LEN then let l = klog_append b l in l\<lparr>cur_len := cur_len l + 1\<rparr>
      else l)"

definition start_dump :: "klog \<Rightarrow> klog" where
  "start_dump l = l\<lparr>dumping := True, dump_head := head l, dump_bytes := len l, dump_pos := 0, dump_next_line := 0\<rparr>"

text \<open>\<open>n\<close> bytes of the line are already in \<open>out\<close>.\<close>
function scan_from :: "nat \<Rightarrow> u8 list \<Rightarrow> klog \<Rightarrow> (nat \<times> u8 list) option \<times> klog" where
  "scan_from n out l =
     (if dump_pos l < dump_bytes l then
        let b = byte_at l (dump_head l) (dump_pos l);
            l = l\<lparr>dump_pos := dump_pos l + 1\<rparr>
        in if b = 0x0A then (Some (n, out), l\<lparr>dump_next_line := dump_next_line l + 1\<rparr>)
           else if n < length out then scan_from (n + 1) (out[n := b]) l
           else scan_from n out l
      else (None, l))"
  by pat_completeness auto
termination
  by (relation "measure (\<lambda>(_, _, l). dump_bytes l - dump_pos l)") auto

declare scan_from.simps [simp del]

definition scan_dump_line :: "u8 list \<Rightarrow> klog \<Rightarrow> (nat \<times> u8 list) option \<times> klog" where
  "scan_dump_line = scan_from 0"

text \<open>The loop that skips to line \<open>idx\<close>; the flag tells whether it got there.\<close>
primrec skip_lines :: "nat \<Rightarrow> klog \<Rightarrow> bool \<times> klog" where
  "skip_lines 0 l = (True, l)" |
  "skip_lines (Suc k) l =
     (case scan_dump_line [] l of
        (None, l) \<Rightarrow> (False, l\<lparr>dumping := False\<rparr>)
      | (Some _, l) \<Rightarrow> skip_lines k l)"

definition klog_line :: "nat \<Rightarrow> u8 list \<Rightarrow> klog \<Rightarrow> (nat \<times> u8 list) option \<times> klog" where
  "klog_line idx out l =
     (if capacity l = 0 then (None, l)
      else let l = (if idx = 0 then start_dump l else l)
           in if \<not> dumping l then (None, l)
              else let (there, l) = (if idx \<noteq> dump_next_line l
                     then skip_lines idx (l\<lparr>dump_pos := 0, dump_next_line := 0\<rparr>) else (True, l))
                   in if \<not> there then (None, l)
                      else case scan_dump_line out l of
                             (None, l) \<Rightarrow> (None, l\<lparr>dumping := False\<rparr>)
                           | (Some r, l) \<Rightarrow> (Some r, l))"

definition byte_len :: "klog \<Rightarrow> u32" where
  "byte_len l = of_nat (len l)"

definition klog_read :: "u32 \<Rightarrow> u8 list \<Rightarrow> klog \<Rightarrow> u8 list \<times> nat" where
  "klog_read offset out l =
     (if capacity l = 0 then (out, 0)
      else let start = min (unat offset) (len l);
               n = min (length out) (len l - start)
           in (map (\<lambda>i. byte_at l (head l) (start + i)) [0..<n] @ drop n out, n))"

section \<open>The bytes of the ring\<close>

definition klog_items :: "klog \<Rightarrow> u8 list" where
  "klog_items l = map (byte_at l (head l)) [0..<len l]"

definition klog_ok :: "klog \<Rightarrow> bool" where
  "klog_ok l \<longleftrightarrow> 0 < capacity l \<and> head l < capacity l \<and> len l \<le> capacity l"

text \<open>Everything after the first line feed.\<close>
definition drop_line :: "u8 list \<Rightarrow> u8 list" where
  "drop_line xs = tl (dropWhile (\<lambda>b. b \<noteq> 0x0A) xs)"

lemma klog_items_Cons:
  assumes "klog_ok l" and "len l \<noteq> 0"
  shows "klog_items l = byte_at l (head l) 0 # klog_items (l\<lparr>head := (head l + 1) mod capacity l, len := len l - 1\<rparr>)"
proof -
  obtain n where n: "len l = Suc n" using assms(2) by (cases "len l") auto
  have "byte_at l (head l) (Suc i) = byte_at l ((head l + 1) mod capacity l) i" for i
    by (simp add: byte_at_def mod_simps)
  then show ?thesis by (simp add: klog_items_def n upt_conv_Cons map_Suc_upt [symmetric] byte_at_def del: upt_Suc)
qed

lemma drop_oldest_line_spec:
  "klog_ok l \<Longrightarrow> klog_ok (drop_oldest_line l) \<and> klog_items (drop_oldest_line l) = drop_line (klog_items l) \<and>
    len (drop_oldest_line l) \<le> len l - 1 \<and> bytes (drop_oldest_line l) = bytes l \<and> dumping (drop_oldest_line l) = dumping l \<and>
    cur_len (drop_oldest_line l) = (if 0x0A \<in> set (klog_items l) then cur_len l else 0)"
proof (induction l rule: drop_oldest_line.induct)
  case (1 l)
  show ?case
  proof (cases "len l = 0")
    case True
    then have "drop_oldest_line l = l\<lparr>cur_len := 0\<rparr>" by (subst drop_oldest_line.simps) simp
    then show ?thesis using True 1(2) by (simp add: klog_items_def klog_ok_def drop_line_def)
  next
    case False
    define l' where "l' = l\<lparr>head := (head l + 1) mod capacity l, len := len l - 1\<rparr>"
    have ok: "klog_ok l'" using 1(2) by (auto simp: klog_ok_def l'_def)
    have items: "klog_items l = byte_at l (head l) 0 # klog_items l'" using klog_items_Cons [OF 1(2) False] by (simp add: l'_def)
    have eq: "drop_oldest_line l = (if byte_at l (head l) 0 = 0x0A then l' else drop_oldest_line l')"
      using False by (subst drop_oldest_line.simps) (simp add: Let_def l'_def)
    show ?thesis
    proof (cases "byte_at l (head l) 0 = 0x0A")
      case True
      then show ?thesis using eq items ok by (simp add: drop_line_def) (simp add: l'_def)
    next
      case c: False
      have "klog_ok (drop_oldest_line l') \<and> klog_items (drop_oldest_line l') = drop_line (klog_items l') \<and>
        len (drop_oldest_line l') \<le> len l' - 1 \<and> bytes (drop_oldest_line l') = bytes l' \<and> dumping (drop_oldest_line l') = dumping l' \<and>
        cur_len (drop_oldest_line l') = (if 0x0A \<in> set (klog_items l') then cur_len l' else 0)"
        by (rule 1(1) [OF False refl l'_def c ok])
      moreover have "len l' = len l - 1" "bytes l' = bytes l" "dumping l' = dumping l" "cur_len l' = cur_len l" by (simp_all add: l'_def)
      ultimately show ?thesis using eq items c by (auto simp: drop_line_def)
    qed
  qed
qed

lemma klog_items_store:
  assumes "klog_ok l" and "len l < capacity l"
  shows "klog_items (l\<lparr>bytes := (bytes l)[(head l + len l) mod capacity l := b], len := len l + 1\<rparr>) = klog_items l @ [b]"
proof -
  have "(head l + len l) mod capacity l \<noteq> (head l + i) mod capacity l" if "i < len l" for i
  proof
    assume "(head l + len l) mod capacity l = (head l + i) mod capacity l"
    then have "capacity l dvd (head l + len l) - (head l + i)" using that mod_eq_dvd_iff_nat [of "head l + i" "head l + len l" "capacity l"] by simp
    then show False using that assms by (auto dest: dvd_imp_le)
  qed
  then show ?thesis using assms by (auto simp: klog_items_def byte_at_def klog_ok_def)
qed

lemma length_klog_items [simp]: "length (klog_items l) = len l"
  by (simp add: klog_items_def)

lemma klog_append_spec:
  assumes "klog_ok l"
  shows "klog_ok (klog_append b l) \<and> capacity (klog_append b l) = capacity l \<and> dumping (klog_append b l) = dumping l \<and>
    klog_items (klog_append b l) = (if len l = capacity l then drop_line (klog_items l) else klog_items l) @ [b] \<and>
    cur_len (klog_append b l) = (if len l = capacity l \<and> 0x0A \<notin> set (klog_items l) then 0 else cur_len l)"
proof -
  define l' where "l' = (if len l = capacity l then drop_oldest_line l else l)"
  have l': "klog_ok l'" "len l' < capacity l'" "bytes l' = bytes l" "dumping l' = dumping l"
    "klog_items l' = (if len l = capacity l then drop_line (klog_items l) else klog_items l)"
    "cur_len l' = (if len l = capacity l \<and> 0x0A \<notin> set (klog_items l) then 0 else cur_len l)"
    using drop_oldest_line_spec [OF assms] assms by (auto simp: l'_def klog_ok_def)
  have "klog_append b l = l'\<lparr>bytes := (bytes l')[(head l' + len l') mod capacity l' := b], len := len l' + 1\<rparr>"
    by (simp add: klog_append_def Let_def l'_def)
  then show ?thesis using klog_items_store [OF l'(1,2), of b] l' by (auto simp: klog_ok_def)
qed

section \<open>What the log keeps\<close>

text \<open>
  The stream without carriage returns and with every line cut after 512 bytes; the number is the
  length of the line so far.
\<close>

fun clip :: "nat \<Rightarrow> u8 list \<Rightarrow> u8 list" where
  "clip c [] = []" |
  "clip c (b # bs) =
     (if b = 0x0D then clip c bs
      else if b = 0x0A then b # clip 0 bs
      else if c < MAX_LINE_LEN then b # clip (c + 1) bs else clip c bs)"

fun clip_col :: "nat \<Rightarrow> u8 list \<Rightarrow> nat" where
  "clip_col c [] = c" |
  "clip_col c (b # bs) =
     (if b = 0x0D then clip_col c bs
      else if b = 0x0A then clip_col 0 bs
      else if c < MAX_LINE_LEN then clip_col (c + 1) bs else clip_col c bs)"

lemma clip_append: "clip c (as @ bs) = clip c as @ clip (clip_col c as) bs"
  by (induction c as rule: clip.induct) auto

lemma clip_col_append: "clip_col c (as @ bs) = clip_col (clip_col c as) bs"
  by (induction c as rule: clip.induct) auto

text \<open>No run without a line feed is longer than \<open>n\<close>.\<close>
definition runs_ok :: "nat \<Rightarrow> u8 list \<Rightarrow> bool" where
  "runs_ok n xs \<longleftrightarrow> (\<forall>p r q. xs = p @ r @ q \<longrightarrow> 0x0A \<notin> set r \<longrightarrow> length r \<le> n)"

lemma runs_ok_part: "runs_ok n (as @ bs) \<Longrightarrow> runs_ok n bs"
  unfolding runs_ok_def by (metis append.assoc)

lemma runs_okD: "runs_ok n (p @ r @ q) \<Longrightarrow> 0x0A \<notin> set r \<Longrightarrow> length r \<le> n"
  by (auto simp: runs_ok_def)

lemma takeWhile_prefix: "\<forall>x\<in>set r. P x \<Longrightarrow> length r \<le> length (takeWhile P (r @ q))"
  by (induction r) auto

lemma runs_ok_Cons:
  assumes "runs_ok n xs" and "length (takeWhile (\<lambda>b. b \<noteq> 0x0A) (x # xs)) \<le> n"
  shows "runs_ok n (x # xs)"
  unfolding runs_ok_def
proof (intro allI impI)
  fix p r q assume e: "x # xs = p @ r @ q" and r: "0x0A \<notin> set r"
  show "length r \<le> n"
  proof (cases p)
    case Nil
    have "length r \<le> length (takeWhile (\<lambda>b. b \<noteq> 0x0A) (x # xs))"
      unfolding e Nil append_Nil by (rule takeWhile_prefix) (use r in auto)
    then show ?thesis using assms(2) by linarith
  next
    case (Cons y p')
    then show ?thesis using e r assms(1) by (auto simp: runs_ok_def)
  qed
qed

lemma clip_runs: "c \<le> MAX_LINE_LEN \<Longrightarrow> runs_ok MAX_LINE_LEN (clip c s) \<and> length (takeWhile (\<lambda>b. b \<noteq> 0x0A) (clip c s)) \<le> MAX_LINE_LEN - c"
proof (induction c s rule: clip.induct)
  case (2 c b bs)
  then show ?case by (auto intro!: runs_ok_Cons)
qed (simp add: runs_ok_def)

lemma clip_col_le: "c \<le> MAX_LINE_LEN \<Longrightarrow> clip_col c s \<le> MAX_LINE_LEN"
  by (induction c s rule: clip.induct) auto

lemma drop_line_split:
  assumes "0x0A \<in> set xs"
  shows "xs = takeWhile (\<lambda>b. b \<noteq> 0x0A) xs @ [0x0A] @ drop_line xs"
proof -
  obtain y ys where d: "dropWhile (\<lambda>b. b \<noteq> 0x0A) xs = y # ys"
    using assms by (cases "dropWhile (\<lambda>b. b \<noteq> 0x0A) xs") (auto simp: dropWhile_eq_Nil_conv)
  then have "y = 0x0A" by (simp add: dropWhile_eq_Cons_conv)
  then show ?thesis using d takeWhile_dropWhile_id [of "\<lambda>b. b \<noteq> 0x0A" xs] by (simp add: drop_line_def)
qed

text \<open>The log after printing \<open>s\<close>: a suffix of the clipped stream that starts with a whole line.\<close>

definition log_inv :: "nat \<Rightarrow> u8 list \<Rightarrow> klog \<Rightarrow> bool" where
  "log_inv cap s l \<longleftrightarrow> klog_ok l \<and> capacity l = cap \<and> \<not> dumping l \<and> cur_len l = clip_col 0 s \<and>
     (\<exists>d. clip 0 s = d @ klog_items l \<and> (d = [] \<or> last d = 0x0A) \<and> (d \<noteq> [] \<longrightarrow> cap \<le> len l + MAX_LINE_LEN))"

lemma log_inv_append:
  assumes "log_inv cap s l" and "MAX_LINE_LEN < cap" and "clip (clip_col 0 s) [b] = [b]"
  defines "m \<equiv> klog_append b l"
  shows "klog_ok m \<and> capacity m = cap \<and> \<not> dumping m \<and> cur_len m = clip_col 0 s \<and>
    (\<exists>d. clip 0 (s @ [b]) = d @ klog_items m \<and> (d = [] \<or> last d = 0x0A) \<and> (d \<noteq> [] \<longrightarrow> cap \<le> len m + MAX_LINE_LEN))"
proof -
  have l: "klog_ok l" "capacity l = cap" "\<not> dumping l" "cur_len l = clip_col 0 s" using assms(1) by (auto simp: log_inv_def)
  obtain d where d: "clip 0 s = d @ klog_items l" "d = [] \<or> last d = 0x0A" "d \<noteq> [] \<longrightarrow> cap \<le> len l + MAX_LINE_LEN"
    using assms(1) by (auto simp: log_inv_def)
  have runs: "runs_ok MAX_LINE_LEN (clip 0 s)" using clip_runs by simp
  have m: "klog_ok m" "capacity m = cap" "\<not> dumping m"
    "klog_items m = (if len l = cap then drop_line (klog_items l) else klog_items l) @ [b]"
    "cur_len m = (if len l = cap \<and> 0x0A \<notin> set (klog_items l) then 0 else cur_len l)"
    using klog_append_spec [OF l(1), of b] l by (auto simp: m_def)
  have new: "clip 0 (s @ [b]) = clip 0 s @ [b]" using assms(3) by (simp add: clip_append)
  show ?thesis
  proof (cases "len l = cap")
    case False
    then have "len m = len l + 1" using arg_cong [OF m(4), of length] by simp
    then have "clip 0 (s @ [b]) = d @ klog_items m \<and> (d = [] \<or> last d = 0x0A) \<and> (d \<noteq> [] \<longrightarrow> cap \<le> len m + MAX_LINE_LEN)"
      using d m(4) False new by auto
    then show ?thesis using m False l(4) by auto
  next
    case True
    have nl: "0x0A \<in> set (klog_items l)"
      using runs_okD [of MAX_LINE_LEN d "klog_items l" "[]"] runs d(1) True assms(2) by auto
    let ?w = "takeWhile (\<lambda>b. b \<noteq> 0x0A) (klog_items l)"
    have sp: "klog_items l = ?w @ [0x0A] @ drop_line (klog_items l)" using drop_line_split [OF nl] .
    have "runs_ok MAX_LINE_LEN (klog_items l)" using runs d(1) runs_ok_part by simp
    then have "runs_ok MAX_LINE_LEN ([] @ ?w @ [0x0A] @ drop_line (klog_items l))" using sp by simp
    then have w: "length ?w \<le> MAX_LINE_LEN" by (rule runs_okD) (auto dest: set_takeWhileD)
    have "len l = length ?w + 1 + length (drop_line (klog_items l))" using arg_cong [OF sp, of length] by simp
    then have "cap \<le> len m + MAX_LINE_LEN" using w True arg_cong [OF m(4), of length] by simp
    moreover have "clip 0 (s @ [b]) = (d @ ?w @ [0x0A]) @ klog_items m" using new d(1) sp m(4) True by simp
    ultimately show ?thesis using m nl l(4) by (auto intro!: exI [of _ "d @ ?w @ [0x0A]"])
  qed
qed

lemma log_inv_push:
  assumes "log_inv cap s l" and "MAX_LINE_LEN < cap"
  shows "log_inv cap (s @ [b]) (push_byte b l)"
proof -
  have l: "capacity l = cap" "\<not> dumping l" "cur_len l = clip_col 0 s" using assms(1) by (auto simp: log_inv_def)
  show ?thesis
  proof (cases "clip (clip_col 0 s) [b] = [b]")
    case True
    then show ?thesis
      using log_inv_append [OF assms True] l assms(2)
      by (auto simp: push_byte_def log_inv_def clip_col_append Let_def klog_items_def klog_ok_def byte_at_def split: if_splits)
  next
    case False
    then have "push_byte b l = l" "clip 0 (s @ [b]) = clip 0 s" "clip_col 0 (s @ [b]) = clip_col 0 s"
      using l by (auto simp: push_byte_def clip_append clip_col_append split: if_splits)
    then show ?thesis using assms(1) by (simp add: log_inv_def)
  qed
qed

lemma log_inv_init: "0 < length storage \<Longrightarrow> log_inv (length storage) [] (klog_init storage)"
  by (simp add: log_inv_def klog_init_def klog_new_def klog_ok_def klog_items_def)

lemma log_inv_pushes: "MAX_LINE_LEN < length storage \<Longrightarrow> log_inv (length storage) s (fold push_byte s (klog_init storage))"
proof (induction s rule: rev_induct)
  case Nil
  then show ?case using log_inv_init [of storage] by (cases storage) auto
next
  case (snoc b s)
  then show ?case using log_inv_push [of "length storage" s _ b] by simp
qed

lemma klog_read_spec:
  assumes "klog_ok l"
  shows "klog_read offset out l =
    (let t = take (length out) (drop (unat offset) (klog_items l)) in (t @ drop (length t) out, length t))"
proof -
  let ?s = "min (unat offset) (len l)" and ?n = "min (length out) (len l - min (unat offset) (len l))"
  have "map (\<lambda>i. byte_at l (head l) (?s + i)) [0..<?n] = take (length out) (drop (unat offset) (klog_items l))"
  proof (cases "unat offset \<le> len l")
    case True
    then have "?s = unat offset" by simp
    then show ?thesis by (intro nth_equalityI) (auto simp: klog_items_def)
  qed simp
  moreover have "length (take (length out) (drop (unat offset) (klog_items l))) = ?n" by (simp add: min_def)
  ultimately show ?thesis using assms by (simp add: klog_read_def klog_ok_def Let_def)
qed

section \<open>Dumping lines\<close>

text \<open>The lines of a text that end with a line feed.\<close>
definition complete_lines :: "u8 list \<Rightarrow> u8 list list" where
  "complete_lines t = butlast (split_by (\<lambda>b. b = 0x0A) t)"

definition line_start :: "u8 list list \<Rightarrow> nat \<Rightarrow> nat" where
  "line_start ls k = sum_list (map (\<lambda>w. length w + 1) (take k ls))"

text \<open>As much of a line as the caller's buffer takes.\<close>
definition line_cut :: "u8 list \<Rightarrow> nat \<Rightarrow> u8 list \<Rightarrow> nat \<times> u8 list" where
  "line_cut w n out = (min (n + length w) (length out), take n out @ take (length out - n) w @ drop (n + length w) out)"

lemma split_by_lines: "t = concat (map (\<lambda>w. w @ [0x0A]) (complete_lines t)) @ last (split_by (\<lambda>b. b = 0x0A) t)"
proof (induction t)
  case (Cons b t)
  have "split_by (\<lambda>b. b = 0x0A) t \<noteq> []" by simp
  then show ?case using Cons
    by (cases "split_by (\<lambda>b. b = 0x0A) t"; cases "tl (split_by (\<lambda>b. b = 0x0A) t)") (auto simp: complete_lines_def)
qed (simp add: complete_lines_def)

lemma split_by_free: "\<forall>w\<in>set (split_by (\<lambda>b. b = y) t). y \<notin> set w"
  by (induction t) (auto split: list.splits)

lemma drop_line_start:
  "k \<le> length ls \<Longrightarrow> drop (line_start ls k) (concat (map (\<lambda>w. w @ [0x0A]) ls) @ r) = concat (map (\<lambda>w. w @ [0x0A]) (drop k ls)) @ r"
proof (induction ls arbitrary: k)
  case (Cons w ls)
  then show ?case by (cases k) (auto simp: line_start_def)
qed (simp add: line_start_def)

definition snapshot :: "klog \<Rightarrow> u8 list" where
  "snapshot l = map (byte_at l (dump_head l)) [0..<dump_bytes l]"

lemma snapshot_nth: "dump_pos l < dump_bytes l \<Longrightarrow>
  drop (dump_pos l) (snapshot l) = byte_at l (dump_head l) (dump_pos l) # drop (Suc (dump_pos l)) (snapshot l)"
  by (simp add: snapshot_def Cons_nth_drop_Suc [symmetric])

lemma snapshot_simps [simp]:
  "snapshot (l\<lparr>dump_pos := p\<rparr>) = snapshot l" "snapshot (l\<lparr>dump_next_line := k\<rparr>) = snapshot l" "snapshot (l\<lparr>dumping := d\<rparr>) = snapshot l"
  "length (snapshot l) = dump_bytes l"
  by (simp_all add: snapshot_def byte_at_def)

lemma scan_from_line:
  "drop (dump_pos l) (snapshot l) = w @ 0x0A # r \<Longrightarrow> 0x0A \<notin> set w \<Longrightarrow> n \<le> length out \<Longrightarrow>
   scan_from n out l = (Some (line_cut w n out), l\<lparr>dump_pos := dump_pos l + length w + 1, dump_next_line := dump_next_line l + 1\<rparr>)"
proof (induction w arbitrary: n out l)
  case Nil
  then have lt: "dump_pos l < dump_bytes l" by (metis append_Nil drop_eq_Nil2 leI list.distinct(1) snapshot_simps(4))
  then have "byte_at l (dump_head l) (dump_pos l) = 0x0A" using snapshot_nth [of l] Nil by simp
  then show ?case using lt Nil by (subst scan_from.simps) (simp add: Let_def line_cut_def min_def)
next
  case (Cons b w)
  then have lt: "dump_pos l < dump_bytes l" by (metis append_Cons drop_eq_Nil2 leI list.distinct(1) snapshot_simps(4))
  then have b: "byte_at l (dump_head l) (dump_pos l) = b" "drop (Suc (dump_pos l)) (snapshot l) = w @ 0x0A # r"
    using snapshot_nth [of l] Cons.prems(1) by auto
  let ?l = "l\<lparr>dump_pos := dump_pos l + 1\<rparr>"
  have "scan_from n out l = (if n < length out then scan_from (n + 1) (out[n := b]) ?l else scan_from n out ?l)"
    using lt b Cons.prems(2) by (subst scan_from.simps) (simp add: Let_def)
  then show ?case
    using Cons.IH [of ?l "n + 1" "out[n := b]"] Cons.IH [of ?l n out] Cons.prems b(2)
    by (cases "n < length out") (auto simp: line_cut_def take_Suc_update take_Cons' min_def)
qed

lemma scan_from_end:
  "0x0A \<notin> set (drop (dump_pos l) (snapshot l)) \<Longrightarrow> dump_pos l \<le> dump_bytes l \<Longrightarrow>
   \<exists>l'. scan_from n out l = (None, l') \<and> l' = l\<lparr>dump_pos := dump_bytes l\<rparr>"
proof (induction "dump_bytes l - dump_pos l" arbitrary: n out l)
  case 0
  then have "dump_pos l = dump_bytes l" by simp
  then show ?case by (subst scan_from.simps) simp
next
  case (Suc k)
  then have lt: "dump_pos l < dump_bytes l" by simp
  let ?l = "l\<lparr>dump_pos := dump_pos l + 1\<rparr>"
  have b: "byte_at l (dump_head l) (dump_pos l) \<noteq> 0x0A" "0x0A \<notin> set (drop (dump_pos ?l) (snapshot ?l))"
    using Suc.prems(1) snapshot_nth [OF lt] by auto
  have "scan_from n out l = (if n < length out then scan_from (n + 1) (out[n := byte_at l (dump_head l) (dump_pos l)]) ?l else scan_from n out ?l)"
    using lt b by (subst scan_from.simps) (simp add: Let_def)
  then show ?case using Suc.hyps(1) [of ?l] Suc.hyps(2) lt b(2) by auto
qed

section \<open>The log as a text\<close>

text \<open>
  The abstract log: the text it holds, the length of its last line, and whether a dump is in
  progress.  While one is, printing is ignored and lines are answered from the text.
\<close>

datatype klog_event = Print u8 | Line nat "u8 list" | ReadAt u32 "u8 list"
datatype klog_answer = Printed | LineText "(nat \<times> u8 list) option" | Slice "u8 list \<times> nat"

definition text_append :: "nat \<Rightarrow> u8 \<Rightarrow> u8 list \<times> nat \<Rightarrow> u8 list \<times> nat" where
  "text_append cap b = (\<lambda>(t, c).
     if length t = cap then (drop_line t @ [b], if 0x0A \<in> set t then c else 0) else (t @ [b], c))"

fun text_step :: "nat \<Rightarrow> klog_event \<Rightarrow> (u8 list \<times> nat) \<times> bool \<Rightarrow> klog_answer \<times> (u8 list \<times> nat) \<times> bool" where
  "text_step cap (Print b) ((t, c), active) =
     (Printed,
      if active \<or> b = 0x0D then (t, c)
      else if b = 0x0A then (fst (text_append cap b (t, c)), 0)
      else if c < MAX_LINE_LEN then (let (t, c) = text_append cap b (t, c) in (t, c + 1))
      else (t, c), active)" |
  "text_step cap (Line idx out) ((t, c), active) =
     (let ls = complete_lines t in
      if \<not> active \<and> idx \<noteq> 0 then (LineText None, (t, c), active)
      else if idx < length ls then (LineText (Some (line_cut (ls ! idx) 0 out)), (t, c), True)
      else (LineText None, (t, c), False))" |
  "text_step cap (ReadAt offset out) ((t, c), active) =
     (let r = take (length out) (drop (unat offset) t) in (Slice (r @ drop (length r) out, length r), (t, c), active))"

fun klog_step :: "klog_event \<Rightarrow> klog \<Rightarrow> klog_answer \<times> klog" where
  "klog_step (Print b) l = (Printed, push_byte b l)" |
  "klog_step (Line idx out) l = map_prod LineText id (klog_line idx out l)" |
  "klog_step (ReadAt offset out) l = (Slice (klog_read offset out l), l)"

definition klog_rel :: "klog \<Rightarrow> (u8 list \<times> nat) \<times> bool \<Rightarrow> bool" where
  "klog_rel l a \<longleftrightarrow> klog_ok l \<and> a = ((klog_items l, cur_len l), dumping l) \<and>
     (dumping l \<longrightarrow> dump_head l = head l \<and> dump_bytes l = len l \<and> dump_next_line l \<le> length (complete_lines (klog_items l)) \<and>
        dump_pos l = line_start (complete_lines (klog_items l)) (dump_next_line l))"

lemma line_rest:
  assumes "k \<le> length (complete_lines t)"
  shows "k < length (complete_lines t) \<Longrightarrow> \<exists>r. drop (line_start (complete_lines t) k) t = complete_lines t ! k @ 0x0A # r \<and> 0x0A \<notin> set (complete_lines t ! k)"
    and "k = length (complete_lines t) \<Longrightarrow> 0x0A \<notin> set (drop (line_start (complete_lines t) k) t)"
    and "line_start (complete_lines t) k \<le> length t"
proof -
  let ?ls = "complete_lines t" and ?r = "last (split_by (\<lambda>b. b = 0x0A) t)"
  have t: "t = concat (map (\<lambda>w. w @ [0x0A]) ?ls) @ ?r" by (rule split_by_lines)
  have d: "drop (line_start ?ls k) t = concat (map (\<lambda>w. w @ [0x0A]) (drop k ?ls)) @ ?r"
    using drop_line_start [OF assms, of ?r] t by simp
  have free: "\<forall>w\<in>set ?ls. 0x0A \<notin> set w" "0x0A \<notin> set ?r"
    using split_by_free [of "0x0A" t] by (auto simp: complete_lines_def dest: in_set_butlastD)
  show "\<exists>r. drop (line_start ?ls k) t = ?ls ! k @ 0x0A # r \<and> 0x0A \<notin> set (?ls ! k)" if "k < length ?ls"
    using that d free(1) by (simp add: Cons_nth_drop_Suc [symmetric])
  show "0x0A \<notin> set (drop (line_start ?ls k) t)" if "k = length ?ls" using that d free(2) by simp
  have "length (concat (map (\<lambda>w. w @ [0x0A]) ?ls)) = line_start ?ls (length ?ls)" by (simp add: line_start_def length_concat comp_def)
  moreover have "line_start ?ls k \<le> line_start ?ls (length ?ls)"
    unfolding line_start_def take_all_iff by (metis append_take_drop_id le_add1 map_append sum_list_append take_all order_refl)
  ultimately show "line_start ?ls k \<le> length t" using arg_cong [OF t, of length] by simp
qed

text \<open>Reading one line of a running dump.\<close>

lemma scan_dump_line_rel:
  assumes "klog_rel l ((t, c), True)"
  defines "k \<equiv> dump_next_line l"
  shows "k < length (complete_lines t) \<Longrightarrow>
      \<exists>l'. scan_dump_line out l = (Some (line_cut (complete_lines t ! k) 0 out), l') \<and> klog_rel l' ((t, c), True) \<and> dump_next_line l' = k + 1"
    and "\<not> k < length (complete_lines t) \<Longrightarrow> \<exists>l'. scan_dump_line out l = (None, l') \<and> klog_rel (l'\<lparr>dumping := False\<rparr>) ((t, c), False)"
proof -
  have l: "klog_ok l" "t = klog_items l" "c = cur_len l" "dumping l" "dump_head l = head l" "dump_bytes l = len l"
    "k \<le> length (complete_lines t)" "dump_pos l = line_start (complete_lines t) k"
    using assms(1) by (auto simp: klog_rel_def k_def)
  have snap: "snapshot l = t" using l by (simp add: snapshot_def klog_items_def)
  have it: "klog_items (l\<lparr>dump_pos := p, dump_next_line := n\<rparr>) = klog_items l" "klog_items (l\<lparr>dump_pos := p, dumping := b\<rparr>) = klog_items l" for p n b
    by (simp_all add: klog_items_def byte_at_def)
  show "\<exists>l'. scan_dump_line out l = (Some (line_cut (complete_lines t ! k) 0 out), l') \<and> klog_rel l' ((t, c), True) \<and> dump_next_line l' = k + 1"
    if lt: "k < length (complete_lines t)"
  proof -
    obtain r where r: "drop (dump_pos l) (snapshot l) = complete_lines t ! k @ 0x0A # r" "0x0A \<notin> set (complete_lines t ! k)"
      using line_rest(1) [OF l(7) lt] l(8) snap by auto
    have "line_start (complete_lines t) (Suc k) = line_start (complete_lines t) k + length (complete_lines t ! k) + 1"
      using lt by (simp add: line_start_def take_Suc_conv_app_nth)
    then show ?thesis using scan_from_line [OF r, of 0 out] l lt it
      by (auto simp: scan_dump_line_def klog_rel_def k_def klog_ok_def)
  qed
  show "\<exists>l'. scan_dump_line out l = (None, l') \<and> klog_rel (l'\<lparr>dumping := False\<rparr>) ((t, c), False)"
    if "\<not> k < length (complete_lines t)"
  proof -
    have "0x0A \<notin> set (drop (dump_pos l) (snapshot l))" "dump_pos l \<le> dump_bytes l"
      using line_rest(2,3) [OF l(7)] that l snap by auto
    from scan_from_end [OF this, of 0 out] show ?thesis using l it by (auto simp: scan_dump_line_def klog_rel_def klog_ok_def)
  qed
qed

lemma skip_lines_rel:
  "klog_rel l ((t, c), True) \<Longrightarrow> dump_next_line l = k \<Longrightarrow>
   (if k + m \<le> length (complete_lines t)
    then \<exists>l'. skip_lines m l = (True, l') \<and> klog_rel l' ((t, c), True) \<and> dump_next_line l' = k + m
    else \<exists>l'. skip_lines m l = (False, l') \<and> klog_rel l' ((t, c), False))"
proof (induction m arbitrary: l k)
  case 0
  then show ?case by (auto simp: klog_rel_def)
next
  case (Suc m)
  show ?case
  proof (cases "k < length (complete_lines t)")
    case True
    then obtain l' where "scan_dump_line [] l = (Some (line_cut (complete_lines t ! k) 0 []), l')" "klog_rel l' ((t, c), True)" "dump_next_line l' = Suc k"
      using scan_dump_line_rel(1) [OF Suc.prems(1), of "[]"] Suc.prems(2) by auto
    then show ?thesis using Suc.IH [of l' "Suc k"] by (auto split: if_splits)
  next
    case False
    then obtain l' where "scan_dump_line [] l = (None, l')" "klog_rel (l'\<lparr>dumping := False\<rparr>) ((t, c), False)"
      using scan_dump_line_rel(2) [OF Suc.prems(1), of "[]"] Suc.prems(2) by auto
    then show ?thesis using False by simp
  qed
qed

lemma klog_rel_restart:
  assumes "klog_rel l ((t, c), active)"
  shows "klog_rel (start_dump l) ((t, c), True)" "dump_next_line (start_dump l) = 0"
    and "active \<Longrightarrow> klog_rel (l\<lparr>dump_pos := 0, dump_next_line := 0\<rparr>) ((t, c), True)"
  using assms by (auto simp: klog_rel_def start_dump_def klog_ok_def klog_items_def byte_at_def line_start_def)

lemma klog_line_rel:
  assumes "klog_rel l ((t, c), active)"
  shows "fst (klog_step (Line idx out) l) = fst (text_step cap (Line idx out) ((t, c), active)) \<and>
    klog_rel (snd (klog_step (Line idx out) l)) (snd (text_step cap (Line idx out) ((t, c), active)))"
proof (cases "\<not> active \<and> idx \<noteq> 0")
  case True
  then have "klog_line idx out l = (None, l)" using assms by (auto simp: klog_line_def klog_rel_def)
  then show ?thesis using assms True by simp
next
  case False
  have cap: "capacity l \<noteq> 0" using assms by (simp add: klog_rel_def klog_ok_def)
  define l1 where "l1 = (if idx = 0 then start_dump l else l)"
  have l1: "klog_rel l1 ((t, c), True)" "idx = 0 \<Longrightarrow> dump_next_line l1 = 0"
    using klog_rel_restart [OF assms] assms False by (auto simp: l1_def)
  obtain there l2 where l2: "(if idx \<noteq> dump_next_line l1 then skip_lines idx (l1\<lparr>dump_pos := 0, dump_next_line := 0\<rparr>) else (True, l1)) = (there, l2)"
    by fastforce
  have line: "klog_line idx out l = (if \<not> there then (None, l2)
      else case scan_dump_line out l2 of (None, l) \<Rightarrow> (None, l\<lparr>dumping := False\<rparr>) | (Some r, l) \<Rightarrow> (Some r, l))"
    using cap l1(1) l2 by (simp add: klog_line_def l1_def [symmetric] klog_rel_def Let_def)
  have skip: "if idx \<le> length (complete_lines t) then there \<and> klog_rel l2 ((t, c), True) \<and> dump_next_line l2 = idx
      else \<not> there \<and> klog_rel l2 ((t, c), False)"
  proof (cases "idx = dump_next_line l1")
    case True
    then show ?thesis using l1(1) l2 by (auto simp: klog_rel_def)
  next
    case False
    then show ?thesis
      using skip_lines_rel [OF klog_rel_restart(3) [OF l1(1)], of 0 idx] l2 by (auto split: if_splits)
  qed
  show ?thesis
  proof (cases "idx < length (complete_lines t)")
    case True
    then show ?thesis using skip line scan_dump_line_rel(1) [of l2 t c out] \<open>\<not> (\<not> active \<and> idx \<noteq> 0)\<close> by auto
  next
    case ge: False
    show ?thesis
    proof (cases "idx = length (complete_lines t)")
      case True
      then show ?thesis using skip line scan_dump_line_rel(2) [of l2 t c out] False by auto
    next
      case False
      then show ?thesis using skip line ge \<open>\<not> (\<not> active \<and> idx \<noteq> 0)\<close> by auto
    qed
  qed
qed

lemma klog_print_rel:
  assumes "klog_rel l ((t, c), active)" and "capacity l = cap"
  shows "klog_rel (push_byte b l) (snd (text_step cap (Print b) ((t, c), active))) \<and> capacity (push_byte b l) = cap"
proof -
  have l: "klog_ok l" "t = klog_items l" "c = cur_len l" "dumping l = active" using assms(1) by (auto simp: klog_rel_def)
  have cl: "klog_items (l\<lparr>cur_len := n\<rparr>) = klog_items l" "klog_ok (l\<lparr>cur_len := n\<rparr>) = klog_ok l" for l n
    by (simp_all add: klog_items_def byte_at_def klog_ok_def)
  show ?thesis
  proof (cases active)
    case True
    then show ?thesis using assms l by (simp add: push_byte_def)
  next
    case False
    then show ?thesis using klog_append_spec [OF l(1), of b] l assms
      by (auto simp: push_byte_def klog_rel_def text_append_def Let_def cl klog_ok_def)
  qed
qed

lemma scan_from_capacity: "capacity (snd (scan_from n out l)) = capacity l"
proof (induction n out l rule: scan_from.induct)
  case (1 n out l)
  then show ?case by (subst scan_from.simps) (simp add: Let_def)
qed

lemma skip_lines_capacity: "capacity (snd (skip_lines m l)) = capacity l"
proof (induction m arbitrary: l)
  case (Suc m)
  then show ?case using scan_from_capacity [of 0 "[]" l] by (auto simp: scan_dump_line_def split: prod.splits option.splits)
qed simp

lemma klog_line_capacity: "capacity (snd (klog_line idx out l)) = capacity l"
proof -
  have "capacity (snd (skip_lines m (l\<lparr>dump_pos := 0, dump_next_line := 0\<rparr>))) = capacity l" for m l
    by (simp add: skip_lines_capacity)
  then show ?thesis
    using scan_from_capacity [of 0 out] unfolding klog_line_def scan_dump_line_def Let_def
    by (auto simp: start_dump_def case_prod_beta split: option.splits)
qed

lemma klog_step_rel:
  assumes "klog_rel l a" and "capacity l = cap"
  shows "fst (klog_step e l) = fst (text_step cap e a) \<and> klog_rel (snd (klog_step e l)) (snd (text_step cap e a)) \<and>
    capacity (snd (klog_step e l)) = cap"
proof -
  obtain t c active where a: "a = ((t, c), active)" by (metis prod.exhaust)
  show ?thesis
  proof (cases e)
    case (Print b)
    then show ?thesis using klog_print_rel [of l t c active cap b] assms a by simp
  next
    case (Line idx out)
    then show ?thesis using klog_line_rel [of l t c active idx out cap] klog_line_capacity assms a by simp
  next
    case (ReadAt offset out)
    then show ?thesis using klog_read_spec [of l offset out] assms a by (auto simp: klog_rel_def Let_def)
  qed
qed

fun klog_run :: "klog_event list \<Rightarrow> klog \<Rightarrow> klog_answer list" where
  "klog_run [] l = []" |
  "klog_run (e # es) l = (let (r, l) = klog_step e l in r # klog_run es l)"

fun text_run :: "nat \<Rightarrow> klog_event list \<Rightarrow> (u8 list \<times> nat) \<times> bool \<Rightarrow> klog_answer list" where
  "text_run cap [] a = []" |
  "text_run cap (e # es) a = (let (r, a) = text_step cap e a in r # text_run cap es a)"

lemma klog_run_rel: "klog_rel l a \<Longrightarrow> capacity l = cap \<Longrightarrow> klog_run es l = text_run cap es a"
proof (induction es arbitrary: l a)
  case (Cons e es)
  then show ?case
    using klog_step_rel [OF Cons.prems, of e] Cons.IH [of "snd (klog_step e l)" "snd (text_step cap e a)"]
    by (simp add: case_prod_beta Let_def)
qed simp

section \<open>Properties\<close>

text \<open>
  C37. A log with room for a longest line and its end holds, after any bytes are printed, a suffix of the
  stream with carriage returns dropped and lines cut after 512 bytes.  The suffix starts at the start
  of a line, and when something was dropped it fills all but at most 512 bytes of the storage.
  Reading the whole log returns exactly it.
\<close>

theorem klog_keeps_lines:
  fixes s :: "u8 list"
  assumes "MAX_LINE_LEN < length storage" and "length storage \<le> length out"
  defines "l \<equiv> fold push_byte s (klog_init storage)"
  shows "\<exists>d t. clip 0 s = d @ t \<and> (d = [] \<or> last d = 0x0A) \<and> (d \<noteq> [] \<longrightarrow> length storage \<le> length t + MAX_LINE_LEN) \<and>
    klog_read 0 out l = (t @ drop (length t) out, length t)"
proof -
  have inv: "log_inv (length storage) s l" unfolding l_def by (rule log_inv_pushes [OF assms(1)])
  then have "klog_ok l" "len l \<le> length out" using assms(2) by (auto simp: log_inv_def klog_ok_def)
  then have "klog_read 0 out l = (klog_items l @ drop (len l) out, len l)" by (simp add: klog_read_spec Let_def)
  moreover obtain d where "clip 0 s = d @ klog_items l" "d = [] \<or> last d = 0x0A" "d \<noteq> [] \<longrightarrow> length storage \<le> len l + MAX_LINE_LEN"
    using inv by (auto simp: log_inv_def)
  ultimately show ?thesis by (intro exI [of _ d] exI [of _ "klog_items l"]) simp
qed

text \<open>
  C15. Over any sequence of printing, line requests and reads the ring answers as the abstract log does: a
  line request with index 0 takes a snapshot, later ones return that line of it in any order, cut to
  the caller's buffer, printing has no effect until a request past the last line ends the dump.
\<close>

theorem klog_refines_text:
  assumes "storage \<noteq> []"
  shows "klog_run es (klog_init storage) = text_run (length storage) es (([], 0), False)"
  using assms by (intro klog_run_rel) (auto simp: klog_rel_def klog_init_def klog_new_def klog_ok_def klog_items_def)

theorem klog_keeps_lines_witness:
  "\<exists>d t. clip 0 (bytes_of ''hello'') = d @ t \<and> (d = [] \<or> last d = 0x0A) \<and> (d \<noteq> [] \<longrightarrow> length (replicate 600 (0 :: u8)) \<le> length t + MAX_LINE_LEN) \<and>
    klog_read 0 (replicate 600 0) (fold push_byte (bytes_of ''hello'') (klog_init (replicate 600 0))) = (t @ drop (length t) (replicate 600 0), length t)"
  by (rule klog_keeps_lines) (simp_all add: MAX_LINE_LEN_def)

theorem klog_refines_text_witness:
  "klog_run [Print 0x41, Print 0x0A, Print 0x42, Line 0 [0, 0], Print 0x43, Line 1 [0, 0], Print 0x44, ReadAt 0 [0, 0, 0, 0]] (klog_init (replicate 8 0)) =
   [Printed, Printed, Printed, LineText (Some (1, [0x41, 0])), Printed, LineText None, Printed, Slice ([0x41, 0x0A, 0x42, 0x44], 4)]"
proof -
  have "text_run (length (replicate 8 (0 :: u8)))
      [Print 0x41, Print 0x0A, Print 0x42, Line 0 [0, 0], Print 0x43, Line 1 [0, 0], Print 0x44, ReadAt 0 [0, 0, 0, 0]] (([], 0), False) =
    [Printed, Printed, Printed, LineText (Some (1, [0x41, 0])), Printed, LineText None, Printed, Slice ([0x41, 0x0A, 0x42, 0x44], 4)]" by code_simp
  moreover have "replicate 8 (0 :: u8) \<noteq> []" by simp
  ultimately show ?thesis using klog_refines_text by metis
qed

end
