(* ===== verification/Terminal.thy ===== *)
theory Terminal
  imports Klog
begin

text \<open>
  The text terminal (\<^verbatim>\<open>lib/src/term.rs\<close>) and the stream behind it (\<^verbatim>\<open>lib/src/log.rs\<close>): a grid of 80 by 25 cells with
  a cursor and an ANSI parser, mirrored into video memory, while every byte also goes to the kernel
  log and the debug sink.  Video memory is a function of the cell address.  The lemmas show that the screen is the last 25 rows of everything printed, and that video
  memory equals the grid.  Coordinates are \<open>nat\<close>: only \<^verbatim>\<open>set_cursor_pos\<close>, which nothing in the system
  calls, could put them out of the grid.
\<close>

definition WIDTH :: nat where "WIDTH = 80"
definition HEIGHT :: nat where "HEIGHT = 25"
definition CELLS :: nat where "CELLS = WIDTH * HEIGHT"

datatype esc_state = Normal | Escape | Csi

record term_state =
  grid :: "u16 list"
  aperture :: "usize option"
  cursor_x :: nat
  cursor_y :: nat
  attr :: u8
  esc_state :: esc_state
  esc_param :: u8
  screen_enabled :: bool

type_synonym cell_memory = "usize \<Rightarrow> u16"

definition term_new :: "usize option \<Rightarrow> term_state" where
  "term_new ap = \<lparr>grid = replicate CELLS 0x0720, aperture = ap, cursor_x = 0, cursor_y = 0, attr = 0x07, esc_state = Normal,
     esc_param = 0, screen_enabled = True\<rparr>"

definition ansi_to_attr :: "u8 \<Rightarrow> bool \<Rightarrow> u8" where
  "ansi_to_attr code bright = [0, 4, 2, 6, 1, 5, 3, 7] ! unat (code AND 7) + (if bright then 8 else 0)"

definition sgr_attr :: "u8 \<Rightarrow> u8 \<Rightarrow> u8" where
  "sgr_attr code a =
     (if code = 0 then 0x07
      else if 30 \<le> code \<and> code \<le> 37 then (a AND 0xF0) OR ansi_to_attr (code - 30) False
      else if 40 \<le> code \<and> code \<le> 47 then (a AND 0x0F) OR push_bit 4 (ansi_to_attr (code - 40) False)
      else if 90 \<le> code \<and> code \<le> 97 then (a AND 0xF0) OR ansi_to_attr (code - 90) True
      else if 100 \<le> code \<and> code \<le> 107 then (a AND 0x0F) OR push_bit 4 (ansi_to_attr (code - 100) True)
      else a)"

definition handle_sgr :: "u8 \<Rightarrow> term_state \<Rightarrow> term_state" where
  "handle_sgr code t = t\<lparr>attr := sgr_attr code (attr t)\<rparr>"

definition cell_addr :: "usize \<Rightarrow> nat \<Rightarrow> usize" where
  "cell_addr base offset = base + 2 * of_nat offset"

definition put_cell :: "nat \<Rightarrow> u16 \<Rightarrow> term_state \<times> cell_memory \<Rightarrow> term_state \<times> cell_memory" where
  "put_cell offset cell = (\<lambda>(t, mem).
     if CELLS \<le> offset then (t, mem)
     else (t\<lparr>grid := (grid t)[offset := cell]\<rparr>,
           case aperture t of None \<Rightarrow> mem | Some base \<Rightarrow> mem(cell_addr base offset := cell)))"

definition flush_aperture :: "term_state \<times> cell_memory \<Rightarrow> term_state \<times> cell_memory" where
  "flush_aperture = (\<lambda>(t, mem).
     (t, case aperture t of
           None \<Rightarrow> mem
         | Some base \<Rightarrow> fold (\<lambda>i mem. mem(cell_addr base i := grid t ! i)) [0..<CELLS] mem))"

definition cells_bytes :: "term_state \<Rightarrow> u8 list" where
  "cells_bytes t = concat (map (\<lambda>c. [lo8 c, hi8 c]) (grid t))"

definition set_aperture :: "usize option \<Rightarrow> term_state \<times> cell_memory \<Rightarrow> term_state \<times> cell_memory" where
  "set_aperture ap = (\<lambda>(t, mem). flush_aperture (t\<lparr>aperture := ap\<rparr>, mem))"

definition cursor_pos :: "term_state \<Rightarrow> nat \<times> nat" where
  "cursor_pos t = (cursor_x t, cursor_y t)"

definition set_cursor_pos :: "nat \<Rightarrow> nat \<Rightarrow> term_state \<Rightarrow> term_state" where
  "set_cursor_pos col row t = t\<lparr>cursor_x := col, cursor_y := row\<rparr>"

definition blank :: "u8 \<Rightarrow> u16" where
  "blank a = push_bit 8 (ucast a) OR 0x20"

definition term_clear :: "term_state \<times> cell_memory \<Rightarrow> term_state \<times> cell_memory" where
  "term_clear = (\<lambda>(t, mem).
     let (t, mem) = flush_aperture (t\<lparr>grid := replicate CELLS (blank (attr t))\<rparr>, mem)
     in (t\<lparr>cursor_x := 0, cursor_y := 0\<rparr>, mem))"

definition scroll :: "term_state \<times> cell_memory \<Rightarrow> term_state \<times> cell_memory" where
  "scroll = (\<lambda>(t, mem). flush_aperture (t\<lparr>grid := drop WIDTH (grid t) @ replicate WIDTH (blank (attr t))\<rparr>, mem))"

definition scroll_if_needed :: "term_state \<times> cell_memory \<Rightarrow> term_state \<times> cell_memory" where
  "scroll_if_needed = (\<lambda>(t, mem).
     if HEIGHT \<le> cursor_y t then let (t, mem) = scroll (t, mem) in (t\<lparr>cursor_y := HEIGHT - 1\<rparr>, mem) else (t, mem))"

definition is_ascii_digit :: "u8 \<Rightarrow> bool" where
  "is_ascii_digit c \<longleftrightarrow> 0x30 \<le> c \<and> c \<le> 0x39"

definition put_char_cell :: "u8 \<Rightarrow> term_state \<times> cell_memory \<Rightarrow> term_state \<times> cell_memory" where
  "put_char_cell c = (\<lambda>(t, mem).
     let offset = cursor_y t * WIDTH + cursor_x t;
         (t, mem) = put_cell offset (push_bit 8 (ucast (attr t)) OR ucast c) (t, mem);
         t = t\<lparr>cursor_x := cursor_x t + 1\<rparr>
     in (if WIDTH \<le> cursor_x t then t\<lparr>cursor_x := 0, cursor_y := cursor_y t + 1\<rparr> else t, mem))"

definition put_normal :: "u8 \<Rightarrow> term_state \<times> cell_memory \<Rightarrow> term_state \<times> cell_memory" where
  "put_normal c m =
     (let (t, mem) = scroll_if_needed m
      in scroll_if_needed
           (if c = 0x1B then (t\<lparr>esc_state := Escape\<rparr>, mem)
            else if c = 0x0A then (t\<lparr>cursor_x := 0, cursor_y := cursor_y t + 1\<rparr>, mem)
            else if c = 0x0D then (t\<lparr>cursor_x := 0\<rparr>, mem)
            else put_char_cell c (t, mem)))"

definition term_putchar :: "u8 \<Rightarrow> term_state \<times> cell_memory \<Rightarrow> term_state \<times> cell_memory" where
  "term_putchar c = (\<lambda>(t, mem).
     if \<not> screen_enabled t then (t, mem)
     else case esc_state t of
       Escape \<Rightarrow> (if c = 0x5B then t\<lparr>esc_state := Csi, esc_param := 0\<rparr> else t\<lparr>esc_state := Normal\<rparr>, mem)
     | Csi \<Rightarrow>
         (if is_ascii_digit c then t\<lparr>esc_param := saturating_add (saturating_mul (esc_param t) 10) (c - 0x30)\<rparr>
          else if c = 0x3B then (handle_sgr (esc_param t) t)\<lparr>esc_param := 0\<rparr>
          else if c = 0x6D then (handle_sgr (esc_param t) t)\<lparr>esc_state := Normal\<rparr>
          else t\<lparr>esc_state := Normal\<rparr>, mem)
     | Normal \<Rightarrow> put_normal c (t, mem))"

section \<open>The stream\<close>

text \<open>
  The debug sink and the console-flush hook are installed by the platform; the model keeps what they
  are called with: the bytes the sink received, and the number of times the hook ran.
\<close>

record console =
  terminal :: "term_state \<times> cell_memory"
  log_ring :: klog
  sink_installed :: bool
  sink :: "u8 list"
  flush_installed :: bool
  flushes :: nat

definition set_debug_sink :: "console \<Rightarrow> console" where
  "set_debug_sink k = k\<lparr>sink_installed := True\<rparr>"

definition set_text_flush :: "console \<Rightarrow> console" where
  "set_text_flush k = k\<lparr>flush_installed := True\<rparr>"

definition text_flush :: "console \<Rightarrow> console" where
  "text_flush k = (if flush_installed k then k\<lparr>flushes := flushes k + 1\<rparr> else k)"

definition stream :: "u8 \<Rightarrow> console \<Rightarrow> console" where
  "stream b k =
     (let k = k\<lparr>log_ring := push_byte b (log_ring k)\<rparr>
      in if sink_installed k then k\<lparr>sink := sink k @ [b]\<rparr> else k)"

definition debug_write_str :: "u8 list \<Rightarrow> console \<Rightarrow> console" where
  "debug_write_str s k = fold stream s k"

definition term_write_str :: "u8 list \<Rightarrow> console \<Rightarrow> console" where
  "term_write_str s k = text_flush (fold (\<lambda>b k. stream b (k\<lparr>terminal := term_putchar b (terminal k)\<rparr>)) s k)"

definition putchar :: "u8 \<Rightarrow> console \<Rightarrow> console" where
  "putchar c k = text_flush (stream c (k\<lparr>terminal := term_putchar c (terminal k)\<rparr>))"

section \<open>The transcript\<close>

text \<open>
  A reference terminal without a bottom: the byte stream is first cut into tokens, then every token
  is carried out on a growing list of rows of 80 cells.  A row added at the bottom is blank in the
  colours of that moment.
\<close>

datatype token = Txt u8 | NewLine | Return | Sgr u8

fun lex :: "esc_state \<Rightarrow> u8 \<Rightarrow> u8 list \<Rightarrow> token list" where
  "lex st p [] = []" |
  "lex Normal p (c # cs) =
     (if c = 0x1B then lex Escape p cs
      else (if c = 0x0A then NewLine else if c = 0x0D then Return else Txt c) # lex Normal p cs)" |
  "lex Escape p (c # cs) = (if c = 0x5B then lex Csi 0 cs else lex Normal p cs)" |
  "lex Csi p (c # cs) =
     (if is_ascii_digit c then lex Csi (saturating_add (saturating_mul p 10) (c - 0x30)) cs
      else if c = 0x3B then Sgr p # lex Csi 0 cs
      else if c = 0x6D then Sgr p # lex Normal p cs
      else lex Normal p cs)"

record transcript =
  rows :: "u16 list list"
  row :: nat
  col :: nat
  colours :: u8

definition next_row :: "transcript \<Rightarrow> transcript" where
  "next_row d = d\<lparr>col := 0, row := row d + 1,
     rows := (if row d + 1 = length (rows d) then rows d @ [replicate WIDTH (blank (colours d))] else rows d)\<rparr>"

fun print_token :: "token \<Rightarrow> transcript \<Rightarrow> transcript" where
  "print_token (Txt c) d =
     (let d = d\<lparr>rows := (rows d)[row d := (rows d ! row d)[col d := push_bit 8 (ucast (colours d)) OR ucast c]]\<rparr>
      in if col d + 1 = WIDTH then next_row d else d\<lparr>col := col d + 1\<rparr>)" |
  "print_token NewLine d = next_row d" |
  "print_token Return d = d\<lparr>col := 0\<rparr>" |
  "print_token (Sgr p) d = d\<lparr>colours := sgr_attr p (colours d)\<rparr>"

definition blank_page :: transcript where
  "blank_page = \<lparr>rows = replicate HEIGHT (replicate WIDTH 0x0720), row = 0, col = 0, colours = 0x07\<rparr>"

section \<open>The screen is the end of the transcript\<close>

lemmas dims = WIDTH_def HEIGHT_def CELLS_def

definition top_row :: "transcript \<Rightarrow> nat" where
  "top_row d = length (rows d) - HEIGHT"

definition transcript_ok :: "transcript \<Rightarrow> bool" where
  "transcript_ok d \<longleftrightarrow> HEIGHT \<le> length (rows d) \<and> (\<forall>r\<in>set (rows d). length r = WIDTH) \<and>
     top_row d \<le> row d \<and> row d < length (rows d) \<and> col d < WIDTH"

definition screen_shows :: "term_state \<Rightarrow> transcript \<Rightarrow> bool" where
  "screen_shows t d \<longleftrightarrow> screen_enabled t \<and> grid t = concat (drop (top_row d) (rows d)) \<and>
     cursor_y t = row d - top_row d \<and> cursor_x t = col d \<and> attr t = colours d"

lemma concat_rows_update:
  "\<forall>r\<in>set rs. length r = w \<Longrightarrow> y < length rs \<Longrightarrow> x < w \<Longrightarrow>
    (concat rs)[y * w + x := c] = concat (rs[y := (rs ! y)[x := c]])"
proof (induction rs arbitrary: y)
  case (Cons r rs)
  then show ?case by (cases y) (auto simp: list_update_append)
qed simp

lemma drop_first_row: "\<forall>r\<in>set rs. length r = w \<Longrightarrow> rs \<noteq> [] \<Longrightarrow> drop w (concat rs) = concat (tl rs)"
  by (cases rs) auto

lemma length_concat_rows: "\<forall>r\<in>set rs. length r = w \<Longrightarrow> length (concat rs) = length rs * w"
  by (induction rs) auto

lemma fst_flush_aperture [simp]: "fst (flush_aperture m) = fst m"
  by (cases m) (simp add: flush_aperture_def)

lemma fst_scroll: "fst (scroll (t, mem)) = t\<lparr>grid := drop WIDTH (grid t) @ replicate WIDTH (blank (attr t))\<rparr>"
  by (simp add: scroll_def)

lemma fst_scroll_if_needed:
  "fst (scroll_if_needed m) =
    (let t = fst m in if HEIGHT \<le> cursor_y t then (fst (scroll m))\<lparr>cursor_y := HEIGHT - 1\<rparr> else t)"
  by (cases m) (simp add: scroll_if_needed_def split: prod.split)

lemma scroll_if_needed_idle: "cursor_y (fst m) < HEIGHT \<Longrightarrow> scroll_if_needed m = m"
  by (cases m) (simp add: scroll_if_needed_def)

text \<open>Moving to the next row and scrolling there is the transcript's \<open>next_row\<close>.\<close>
lemma shows_next_row:
  assumes "screen_shows t d" and "transcript_ok d"
  shows "screen_shows (fst (scroll_if_needed (t\<lparr>cursor_x := 0, cursor_y := cursor_y t + 1\<rparr>, mem))) (next_row d) \<and> transcript_ok (next_row d)"
proof (cases "row d + 1 = length (rows d)")
  case True
  define n where "n = length (rows d)"
  have n: "HEIGHT \<le> n" "n - HEIGHT + HEIGHT = n" "length (rows d) = n" using assms(2) by (simp_all add: transcript_ok_def n_def)
  have ne: "drop (n - HEIGHT) (rows d) \<noteq> []" using n by (simp add: dims)
  have rows: "\<forall>r\<in>set (drop (n - HEIGHT) (rows d)). length r = WIDTH"
    using assms(2) by (auto simp: transcript_ok_def dest: in_set_dropD)
  have top: "n + 1 - HEIGHT = Suc (n - HEIGHT)" using n by simp
  have "drop WIDTH (concat (drop (n - HEIGHT) (rows d))) = concat (drop (Suc (n - HEIGHT)) (rows d))"
    using drop_first_row [OF rows ne] by (simp add: tl_drop drop_Suc)
  then show ?thesis using assms True n top
    by (auto simp: screen_shows_def transcript_ok_def next_row_def top_row_def fst_scroll_if_needed fst_scroll Let_def dims)
next
  case False
  then show ?thesis using assms
    by (auto simp: screen_shows_def transcript_ok_def next_row_def top_row_def fst_scroll_if_needed Let_def)
qed

lemma shows_cursor: "screen_shows t d \<Longrightarrow> transcript_ok d \<Longrightarrow> cursor_y t < HEIGHT"
  by (auto simp: screen_shows_def transcript_ok_def top_row_def)

text \<open>Writing one cell under the cursor writes the cell of the transcript's current row.\<close>
lemma shows_put_cell:
  fixes cell :: u16
  assumes "screen_shows t d" and "transcript_ok d"
  defines "d' \<equiv> d\<lparr>rows := (rows d)[row d := (rows d ! row d)[col d := cell]]\<rparr>"
  shows "screen_shows (fst (put_cell (cursor_y t * WIDTH + cursor_x t) cell (t, mem))) d' \<and> transcript_ok d'"
proof -
  let ?k = "top_row d" and ?rs = "drop (top_row d) (rows d)"
  have ok: "HEIGHT \<le> length (rows d)" "?k \<le> row d" "row d < length (rows d)" "col d < WIDTH"
    and w: "\<forall>r\<in>set (rows d). length r = WIDTH" using assms(2) by (auto simp: transcript_ok_def)
  have y: "row d - ?k < length ?rs" "length ?rs = HEIGHT" using ok by (auto simp: top_row_def)
  have "(row d - ?k) * WIDTH + col d < CELLS" using y ok(4) by (simp add: dims)
  moreover have "(concat ?rs)[(row d - ?k) * WIDTH + col d := cell] = concat (?rs[row d - ?k := (?rs ! (row d - ?k))[col d := cell]])"
    using w y(1) ok(4) by (intro concat_rows_update) (auto dest: in_set_dropD)
  moreover have "?rs[row d - ?k := (?rs ! (row d - ?k))[col d := cell]] = drop ?k ((rows d)[row d := (rows d ! row d)[col d := cell]])"
    using ok by (simp add: drop_update_swap)
  moreover have "\<forall>r\<in>set ((rows d)[row d := (rows d ! row d)[col d := cell]]). length r = WIDTH"
    using w ok(3) by (auto dest!: set_update_subset_insert [THEN subsetD])
  ultimately show ?thesis using assms(1) ok
    by (auto simp: screen_shows_def transcript_ok_def put_cell_def top_row_def d'_def)
qed

lemma shows_put_char_cell:
  assumes "screen_shows t d" and "transcript_ok d"
  shows "screen_shows (fst (scroll_if_needed (put_char_cell c (t, mem)))) (print_token (Txt c) d) \<and> transcript_ok (print_token (Txt c) d)"
proof -
  let ?cell = "push_bit 8 (ucast (attr t)) OR ucast c :: u16"
  define d' where "d' = d\<lparr>rows := (rows d)[row d := (rows d ! row d)[col d := ?cell]]\<rparr>"
  obtain t' mem' where p: "put_cell (cursor_y t * WIDTH + cursor_x t) ?cell (t, mem) = (t', mem')" by fastforce
  have sh: "screen_shows t' d'" "transcript_ok d'" using shows_put_cell [OF assms, of ?cell mem] by (simp_all add: p d'_def)
  have col: "cursor_x t' = col d'" "col d' < WIDTH" using sh by (auto simp: screen_shows_def transcript_ok_def)
  have tok: "print_token (Txt c) d = (if col d' + 1 = WIDTH then next_row d' else d'\<lparr>col := col d' + 1\<rparr>)"
    using assms(1) by (simp add: d'_def screen_shows_def Let_def)
  show ?thesis
  proof (cases "col d' + 1 = WIDTH")
    case True
    then have "put_char_cell c (t, mem) = (t'\<lparr>cursor_x := 0, cursor_y := cursor_y t' + 1\<rparr>, mem')"
      using col by (simp add: put_char_cell_def p)
    then show ?thesis using shows_next_row [OF sh, of mem'] True tok by simp
  next
    case False
    then have "put_char_cell c (t, mem) = (t'\<lparr>cursor_x := cursor_x t' + 1\<rparr>, mem')"
      using col by (simp add: put_char_cell_def p)
    moreover have "cursor_y t' < HEIGHT" by (rule shows_cursor [OF sh])
    ultimately show ?thesis using sh False tok
      by (auto simp: scroll_if_needed_idle screen_shows_def transcript_ok_def top_row_def)
  qed
qed

lemma scroll_if_needed_esc [simp]:
  "esc_state (fst (scroll_if_needed m)) = esc_state (fst m)"
  "esc_param (fst (scroll_if_needed m)) = esc_param (fst m)"
  by (cases m; simp add: fst_scroll_if_needed fst_scroll Let_def)+

lemma put_char_cell_esc [simp]:
  "esc_state (fst (put_char_cell c m)) = esc_state (fst m)"
  "esc_param (fst (put_char_cell c m)) = esc_param (fst m)"
  by (cases m; simp add: put_char_cell_def put_cell_def Let_def)+

text \<open>One byte: the tokens it completes are the ones printed.\<close>
definition emitted :: "term_state \<Rightarrow> u8 \<Rightarrow> token list" where
  "emitted t c = (case esc_state t of
     Normal \<Rightarrow> if c = 0x1B then [] else [if c = 0x0A then NewLine else if c = 0x0D then Return else Txt c]
   | Escape \<Rightarrow> []
   | Csi \<Rightarrow> if \<not> is_ascii_digit c \<and> (c = 0x3B \<or> c = 0x6D) then [Sgr (esc_param t)] else [])"

lemma put_normal_eq:
  assumes "cursor_y t < HEIGHT"
  shows "put_normal c (t, mem) =
    (if c = 0x1B then (t\<lparr>esc_state := Escape\<rparr>, mem)
     else if c = 0x0D then (t\<lparr>cursor_x := 0\<rparr>, mem)
     else scroll_if_needed (if c = 0x0A then (t\<lparr>cursor_x := 0, cursor_y := cursor_y t + 1\<rparr>, mem) else put_char_cell c (t, mem)))"
  using assms by (simp add: put_normal_def scroll_if_needed_idle)

lemma lex_emitted:
  fixes c :: u8 and mem :: cell_memory
  assumes "screen_shows t d" and "transcript_ok d"
  defines "t' \<equiv> fst (term_putchar c (t, mem))"
  shows "lex (esc_state t) (esc_param t) (c # cs) = emitted t c @ lex (esc_state t') (esc_param t') cs"
proof -
  have "screen_enabled t" "cursor_y t < HEIGHT" using assms(1) shows_cursor [OF assms(1,2)] by (simp_all add: screen_shows_def)
  then show ?thesis
    by (cases "esc_state t") (simp_all add: t'_def emitted_def term_putchar_def put_normal_eq handle_sgr_def)
qed

lemma shows_emitted:
  assumes "screen_shows t d" and "transcript_ok d"
  shows "screen_shows (fst (term_putchar c (t, mem))) (fold print_token (emitted t c) d) \<and> transcript_ok (fold print_token (emitted t c) d)"
proof (cases "esc_state t")
  case Normal
  have "screen_enabled t" "cursor_y t < HEIGHT" using assms(1) shows_cursor [OF assms] by (simp_all add: screen_shows_def)
  then have put: "term_putchar b (t, mem) = put_normal b (t, mem)" and y: "cursor_y t < HEIGHT" for b
    using Normal by (simp_all add: term_putchar_def)
  consider "c = 0x1B" | "c = 0x0A" | "c = 0x0D" | "c \<noteq> 0x1B" "c \<noteq> 0x0A" "c \<noteq> 0x0D" by blast
  then show ?thesis
  proof cases
    case 2 then show ?thesis using shows_next_row [OF assms, of mem] by (simp add: put put_normal_eq [OF y] emitted_def Normal)
  next
    case 4 then show ?thesis using shows_put_char_cell [OF assms, of c mem]
      by (simp add: put put_normal_eq [OF y] emitted_def Normal del: print_token.simps)
  qed (use assms in \<open>auto simp: put put_normal_eq [OF y] emitted_def Normal screen_shows_def transcript_ok_def top_row_def dims\<close>)
next
  case Escape
  then show ?thesis using assms by (auto simp: emitted_def term_putchar_def screen_shows_def)
next
  case Csi
  then show ?thesis using assms
    by (auto simp: emitted_def term_putchar_def screen_shows_def handle_sgr_def transcript_ok_def top_row_def)
qed

lemma shows_bytes:
  "screen_shows (fst m) d \<Longrightarrow> transcript_ok d \<Longrightarrow>
    screen_shows (fst (fold term_putchar s m)) (fold print_token (lex (esc_state (fst m)) (esc_param (fst m)) s) d) \<and>
    transcript_ok (fold print_token (lex (esc_state (fst m)) (esc_param (fst m)) s) d)"
proof (induction s arbitrary: m d)
  case (Cons c s)
  obtain t mem where m: "m = (t, mem)" by fastforce
  have pre: "screen_shows t d" "transcript_ok d" using Cons.prems m by simp_all
  show ?case using Cons.IH [of "term_putchar c m"] shows_emitted [OF pre, of c mem] lex_emitted [OF pre, of c s mem]
    by (simp add: m del: lex.simps)
qed simp

lemma shows_blank_page: "screen_shows (term_new ap) blank_page" "transcript_ok blank_page"
proof -
  have "concat (replicate n (replicate w x)) = replicate (w * n) x" for n w and x :: u16
    by (induction n) (simp_all add: replicate_add [symmetric])
  then show "screen_shows (term_new ap) blank_page"
    by (simp add: screen_shows_def term_new_def blank_page_def top_row_def CELLS_def)
qed (simp add: transcript_ok_def blank_page_def top_row_def dims)

lemma stream_simps [simp]:
  "terminal (stream b k) = terminal k" "log_ring (stream b k) = push_byte b (log_ring k)"
  "sink_installed (stream b k) = sink_installed k" "sink (stream b k) = sink k @ (if sink_installed k then [b] else [])"
  by (simp_all add: stream_def Let_def)

lemma text_flush_simps [simp]:
  "terminal (text_flush k) = terminal k" "log_ring (text_flush k) = log_ring k"
  "sink_installed (text_flush k) = sink_installed k" "sink (text_flush k) = sink k"
  by (simp_all add: text_flush_def)

lemma fold_write:
  defines "f \<equiv> (\<lambda>b k. stream b (k\<lparr>terminal := term_putchar b (terminal k)\<rparr>))"
  shows "terminal (fold f s k) = fold term_putchar s (terminal k) \<and> log_ring (fold f s k) = fold push_byte s (log_ring k) \<and>
    sink (fold f s k) = sink k @ (if sink_installed k then s else [])"
  by (induction s arbitrary: k) (simp_all add: f_def)

text \<open>
  C8. Whatever bytes are written to a fresh terminal, escape sequences included, the grid is the last 25
  rows of the transcript, the cursor is the transcript's position on them and the attribute its
  colours; the log ring has taken exactly these bytes, in order, and so has the sink.
\<close>

theorem term_shows_transcript:
  assumes "terminal k = (term_new ap, mem)" and "sink_installed k"
  shows "let d = fold print_token (lex Normal 0 s) blank_page; k' = term_write_str s k; t = fst (terminal k') in
     grid t = concat (drop (length (rows d) - HEIGHT) (rows d)) \<and>
     cursor_pos t = (col d, row d - (length (rows d) - HEIGHT)) \<and> col d < WIDTH \<and> row d < length (rows d) \<and> length (rows d) \<le> row d + HEIGHT \<and>
     attr t = colours d \<and> log_ring k' = fold push_byte s (log_ring k) \<and> sink k' = sink k @ s"
  using shows_bytes [of "terminal k" blank_page s] shows_blank_page(1) [of ap] shows_blank_page(2) assms fold_write [of s k]
  by (auto simp: Let_def term_write_str_def screen_shows_def transcript_ok_def top_row_def cursor_pos_def term_new_def)

section \<open>Video memory mirrors the grid\<close>

datatype term_op = Put u8 | Clear | Aperture "usize option" | Cursor nat nat

fun term_do :: "term_op \<Rightarrow> term_state \<times> cell_memory \<Rightarrow> term_state \<times> cell_memory" where
  "term_do (Put c) m = term_putchar c m" |
  "term_do Clear m = term_clear m" |
  "term_do (Aperture ap) m = set_aperture ap m" |
  "term_do (Cursor x y) m = (set_cursor_pos x y (fst m), snd m)"

definition mirrored :: "term_state \<times> cell_memory \<Rightarrow> bool" where
  "mirrored = (\<lambda>(t, mem). length (grid t) = CELLS \<and>
     (\<forall>base i. aperture t = Some base \<longrightarrow> i < CELLS \<longrightarrow> mem (cell_addr base i) = grid t ! i))"

lemma cell_addr_inj:
  assumes "i < CELLS" and "j < CELLS" and "cell_addr base i = cell_addr base j"
  shows "i = j"
proof -
  have "unat (of_nat (2 * i) :: usize) = unat (of_nat (2 * j) :: usize)" using assms(3) by (simp add: cell_addr_def)
  moreover have "unat (of_nat (2 * n) :: usize) = 2 * n" if "n < CELLS" for n
    unfolding unat_of_nat using that by (intro mod_less) (simp add: dims)
  ultimately show ?thesis using assms(1,2) by simp
qed

lemma fold_cells:
  "n \<le> CELLS \<Longrightarrow> i < n \<Longrightarrow> fold (\<lambda>i mem. mem(cell_addr base i := g ! i)) [0..<n] mem (cell_addr base i) = g ! i"
proof (induction n)
  case (Suc n)
  then show ?case using cell_addr_inj [of i n base] by (cases "i = n") auto
qed simp

lemma mirrored_flush: "length (grid t) = CELLS \<Longrightarrow> mirrored (flush_aperture (t, mem))"
  by (simp add: mirrored_def flush_aperture_def fold_cells)

lemma mirrored_put_cell: "mirrored (t, mem) \<Longrightarrow> mirrored (put_cell i c (t, mem))"
  by (cases "aperture t") (auto simp: mirrored_def put_cell_def nth_list_update dest: cell_addr_inj [rotated 2])

lemma mirrored_cong: "mirrored (t, mem) \<Longrightarrow> grid t' = grid t \<Longrightarrow> aperture t' = aperture t \<Longrightarrow> mirrored (t', mem)"
  by (simp add: mirrored_def)

lemma mirrored_scroll: "mirrored (t, mem) \<Longrightarrow> mirrored (scroll (t, mem))"
  unfolding scroll_def prod.case by (rule mirrored_flush) (simp add: mirrored_def dims)

lemma mirrored_scroll_if_needed: "mirrored m \<Longrightarrow> mirrored (scroll_if_needed m)"
  using mirrored_scroll [of "fst m" "snd m"]
  by (cases m; cases "scroll m") (auto simp: scroll_if_needed_def elim: mirrored_cong)

lemma mirrored_put_char_cell: "mirrored m \<Longrightarrow> mirrored (put_char_cell c m)"
proof -
  assume m: "mirrored m"
  obtain t mem where e: "m = (t, mem)" by fastforce
  obtain t' mem' where p: "put_cell (cursor_y t * WIDTH + cursor_x t) (push_bit 8 (ucast (attr t)) OR ucast c) (t, mem) = (t', mem')" by fastforce
  have "mirrored (t', mem')" using mirrored_put_cell [OF m [unfolded e], of "cursor_y t * WIDTH + cursor_x t" "push_bit 8 (ucast (attr t)) OR ucast c"] p by simp
  then show ?thesis by (simp add: put_char_cell_def e p Let_def mirrored_def)
qed

lemma mirrored_putchar: "mirrored m \<Longrightarrow> mirrored (term_putchar c m)"
proof -
  assume m: "mirrored m"
  obtain t mem where e: "m = (t, mem)" by fastforce
  obtain t' mem' where p: "scroll_if_needed m = (t', mem')" by fastforce
  have m': "mirrored (t', mem')" using mirrored_scroll_if_needed [OF m] p by simp
  have "mirrored (put_normal c m)" unfolding put_normal_def p Let_def prod.case
    by (rule mirrored_scroll_if_needed) (use mirrored_put_char_cell [OF m', of c] m' in \<open>simp add: mirrored_def\<close>)
  then show ?thesis using m by (cases "esc_state t") (simp_all add: e term_putchar_def handle_sgr_def mirrored_def)
qed

lemma mirrored_aperture: "mirrored (t, mem) \<Longrightarrow> mirrored (set_aperture ap (t, mem))"
  unfolding set_aperture_def prod.case by (rule mirrored_flush) (simp add: mirrored_def)

lemma mirrored_do: assumes "mirrored m" shows "mirrored (term_do op m)"
proof (cases op)
  case Clear
  obtain t mem where e: "m = (t, mem)" by fastforce
  have "mirrored (flush_aperture (t\<lparr>grid := replicate CELLS (blank (attr t))\<rparr>, mem))" by (rule mirrored_flush) simp
  then show ?thesis by (simp add: Clear e term_clear_def Let_def mirrored_def split: prod.splits)
next
  case (Aperture ap)
  then show ?thesis using assms mirrored_aperture by (cases m) simp
next
  case (Put c)
  then show ?thesis using mirrored_putchar [OF assms] by simp
next
  case (Cursor x y)
  then show ?thesis using assms by (cases m) (simp add: set_cursor_pos_def mirrored_def)
qed

lemma mirrored_run: "mirrored m \<Longrightarrow> mirrored (fold term_do ops m)"
  by (induction ops arbitrary: m) (simp_all add: mirrored_do)

text \<open>
  C38. Once an aperture is set, after any further sequence of bytes, clears, cursor moves and aperture
  changes, every cell of video memory at the current aperture is the grid's cell, and the grid keeps
  its 2000 cells.
\<close>

theorem term_mirrors_grid:
  assumes "length (grid t) = CELLS"
  shows "let (t', mem') = fold term_do ops (set_aperture ap (t, mem)) in
    length (grid t') = CELLS \<and> (\<forall>base. aperture t' = Some base \<longrightarrow> (\<forall>i<CELLS. mem' (base + 2 * of_nat i) = grid t' ! i))"
  using mirrored_run [of "set_aperture ap (t, mem)" ops] mirrored_flush [of "t\<lparr>aperture := ap\<rparr>" mem] assms
  by (auto simp: set_aperture_def mirrored_def cell_addr_def)

definition boot_console :: console where
  "boot_console = \<lparr>terminal = (term_new (Some 0xB8000), \<lambda>_. 0), log_ring = klog_init [0], sink_installed = True, sink = [],
     flush_installed = False, flushes = 0\<rparr>"

theorem term_shows_transcript_witness:
  "let k = term_write_str [0x1B, 0x5B, 0x33, 0x31, 0x6D, 0x41, 0x0A, 0x42] boot_console; t = fst (terminal k)
   in cursor_pos t = (1, 1) \<and> attr t = 0x04 \<and> grid t ! 0 = 0x0441 \<and> sink k = [0x1B, 0x5B, 0x33, 0x31, 0x6D, 0x41, 0x0A, 0x42]"
proof -
  let ?s = "[0x1B, 0x5B, 0x33, 0x31, 0x6D, 0x41, 0x0A, 0x42] :: u8 list"
  let ?d = "fold print_token (lex Normal 0 ?s) blank_page"
  have d: "col ?d = 1 \<and> row ?d - (length (rows ?d) - HEIGHT) = 1 \<and> colours ?d = 0x04 \<and> concat (drop (length (rows ?d) - HEIGHT) (rows ?d)) ! 0 = 0x0441"
    by code_simp
  have "terminal boot_console = (term_new (Some 0xB8000), \<lambda>_. 0)" "sink_installed boot_console" "sink boot_console = []"
    by (simp_all add: boot_console_def)
  then show ?thesis using term_shows_transcript [of boot_console "Some 0xB8000" "\<lambda>_. 0" ?s] d
    by (simp only: Let_def append_Nil simp_thms)
qed

theorem term_mirrors_grid_witness:
  "let (t, mem) = fold term_do [Put 0x41, Clear, Put 0x42] (set_aperture (Some 0xB8000) (term_new None, \<lambda>_. 0)) in
    length (grid t) = CELLS \<and> (\<forall>base. aperture t = Some base \<longrightarrow> (\<forall>i<CELLS. mem (base + 2 * of_nat i) = grid t ! i))"
  by (rule term_mirrors_grid) (simp add: term_new_def)

end
