(* ===== verification/Fifo.thy ===== *)
theory Fifo
  imports Prelude
begin

text \<open>
  The contract of the bounded byte queues of the kernel. Two ring buffers implement it: the
  free-running-counter ring of \<^verbatim>\<open>lib/src/pipe.rs\<close> (kernel pipes, interrupt event queues) and the
  head/tail ring of the virtual keyboard controller (\<^verbatim>\<open>machine/vkbd.rs\<close>). They differ in one
  clause only, what happens when the queue is full: the pipe drops its oldest element, the
  keyboard drops the new one. That clause is what the two extensions of the contract add.

  \<open>ok n q\<close> says that \<open>q\<close> is well formed and that \<open>n\<close> further elements can be put before a
  position counter of the implementation wraps around; an implementation without such a counter
  ignores \<open>n\<close>.
\<close>

locale fifo =
  fixes items :: "'q \<Rightarrow> 'a list"
    and cap :: "'q \<Rightarrow> nat"
    and ok :: "nat \<Rightarrow> 'q \<Rightarrow> bool"
    and put :: "'a \<Rightarrow> 'q \<Rightarrow> 'q"
    and get :: "'q \<Rightarrow> 'a option \<times> 'q"
  assumes items_bounded: "ok n q \<Longrightarrow> length (items q) \<le> cap q"
    and ok_weaken: "ok (Suc n) q \<Longrightarrow> ok n q"
    and ok_put: "ok (Suc n) q \<Longrightarrow> ok n (put v q)"
    and cap_put: "ok (Suc n) q \<Longrightarrow> cap (put v q) = cap q"
    and put_room: "ok (Suc n) q \<Longrightarrow> length (items q) < cap q \<Longrightarrow> items (put v q) = items q @ [v]"
    and ok_get: "ok n q \<Longrightarrow> ok n (snd (get q))"
    and get_empty: "ok n q \<Longrightarrow> items q = [] \<Longrightarrow> get q = (None, q)"
    and get_item: "ok n q \<Longrightarrow> items q = x # xs \<Longrightarrow> fst (get q) = Some x \<and> items (snd (get q)) = xs"
begin

text \<open>Taking \<open>k\<close> elements, as a reader loop does.\<close>

primrec gets :: "nat \<Rightarrow> 'q \<Rightarrow> 'a list \<times> 'q" where
  "gets 0 q = ([], q)"
| "gets (Suc k) q =
     (case get q of
        (None, q') \<Rightarrow> ([], q')
      | (Some x, q') \<Rightarrow> (let (xs, q'') = gets k q' in (x # xs, q'')))"

lemma ok_put_many: "ok (length vs + n) q \<Longrightarrow> ok n (fold put vs q)"
  by (induction vs arbitrary: q) (auto intro: ok_put)

lemma cap_put_many: "ok (length vs + n) q \<Longrightarrow> cap (fold put vs q) = cap q"
proof (induction vs arbitrary: q)
  case (Cons v vs)
  then have ok: "ok (Suc (length vs + n)) q" by simp
  show ?case using Cons.IH [OF ok_put [OF ok]] cap_put [OF ok] by simp
qed simp

lemma put_many_room:
  "ok (length vs + n) q \<Longrightarrow> length (items q) + length vs \<le> cap q \<Longrightarrow>
     items (fold put vs q) = items q @ vs"
proof (induction vs arbitrary: q)
  case Nil
  then show ?case by simp
next
  case (Cons v vs)
  from Cons.prems have ok: "ok (Suc (length vs + n)) q" by simp
  with Cons.prems have "items (put v q) = items q @ [v]" by (auto intro: put_room)
  moreover have "cap (put v q) = cap q" using ok by (rule cap_put)
  ultimately show ?case using Cons.IH [OF ok_put [OF ok]] Cons.prems by simp
qed

lemma gets_prefix: "ok n q \<Longrightarrow> fst (gets k q) = take k (items q)"
proof (induction k arbitrary: q)
  case 0
  then show ?case by simp
next
  case (Suc k)
  show ?case
  proof (cases "items q")
    case Nil
    with Suc.prems get_empty show ?thesis by simp
  next
    case (Cons x xs)
    with Suc.prems get_item have g: "fst (get q) = Some x" "items (snd (get q)) = xs" by auto
    obtain o' q' where gq: "get q = (o', q')" by (cases "get q")
    with g have "o' = Some x" "items q' = xs" by auto
    moreover have "ok n q'" using ok_get [OF Suc.prems] gq by simp
    ultimately show ?thesis using Suc.IH [of q'] gq Cons by (simp add: split_beta)
  qed
qed

lemma gets_rest: "ok n q \<Longrightarrow> items (snd (gets k q)) = drop k (items q)"
proof (induction k arbitrary: q)
  case 0
  then show ?case by simp
next
  case (Suc k)
  show ?case
  proof (cases "items q")
    case Nil
    with Suc.prems get_empty show ?thesis by simp
  next
    case (Cons x xs)
    with Suc.prems get_item have g: "fst (get q) = Some x" "items (snd (get q)) = xs" by auto
    obtain o' q' where gq: "get q = (o', q')" by (cases "get q")
    with g have "o' = Some x" "items q' = xs" by auto
    moreover have "ok n q'" using ok_get [OF Suc.prems] gq by simp
    ultimately show ?thesis using Suc.IH [of q'] gq Cons by (simp add: split_beta)
  qed
qed

text \<open>What is put comes out, in the order it was put.\<close>

lemma put_get_order:
  "ok (length vs) q \<Longrightarrow> items q = [] \<Longrightarrow> length vs \<le> cap q \<Longrightarrow>
     fst (gets (length vs) (fold put vs q)) = vs"
  using ok_put_many [of vs 0 q] put_many_room [of vs 0 q]
  by (simp add: gets_prefix [of 0])

end

locale fifo_drop_oldest = fifo +
  assumes put_full: "ok (Suc n) q \<Longrightarrow> length (items q) = cap q \<Longrightarrow> items (put v q) = tl (items q) @ [v]"
begin

lemma put_many_suffix:
  "ok (length vs + n) q \<Longrightarrow> 0 < cap q \<Longrightarrow>
     items (fold put vs q) = drop (length (items q) + length vs - cap q) (items q @ vs)"
proof (induction vs arbitrary: q)
  case Nil
  with items_bounded [of n q] show ?case by simp
next
  case (Cons v vs)
  from Cons.prems have ok: "ok (Suc (length vs + n)) q" by simp
  have cp: "cap (put v q) = cap q" using ok by (rule cap_put)
  have IH: "items (fold put vs (put v q))
    = drop (length (items (put v q)) + length vs - cap q) (items (put v q) @ vs)"
    using Cons.IH [OF ok_put [OF ok]] Cons.prems cp by simp
  show ?case
  proof (cases "length (items q) < cap q")
    case True
    then have "items (put v q) = items q @ [v]" using ok by (rule put_room [rotated])
    with IH show ?thesis by simp
  next
    case False
    with items_bounded [OF ok] have full: "length (items q) = cap q" by simp
    then have it: "items (put v q) = tl (items q) @ [v]" using ok by (rule put_full [rotated])
    from full Cons.prems obtain x xs where q: "items q = x # xs" by (cases "items q") auto
    with full have "cap q = Suc (length xs)" by simp
    then show ?thesis using IH it q by (auto simp: drop_Cons')
  qed
qed

end

locale fifo_drop_newest = fifo +
  assumes put_full: "ok (Suc n) q \<Longrightarrow> length (items q) = cap q \<Longrightarrow> items (put v q) = items q"
begin

lemma put_many_prefix:
  "ok (length vs + n) q \<Longrightarrow> items (fold put vs q) = take (cap q) (items q @ vs)"
proof (induction vs arbitrary: q)
  case Nil
  with items_bounded [of n q] show ?case by simp
next
  case (Cons v vs)
  from Cons.prems have ok: "ok (Suc (length vs + n)) q" by simp
  have cp: "cap (put v q) = cap q" using ok by (rule cap_put)
  have IH: "items (fold put vs (put v q)) = take (cap q) (items (put v q) @ vs)"
    using Cons.IH [OF ok_put [OF ok]] cp by simp
  show ?case
  proof (cases "length (items q) < cap q")
    case True
    then have "items (put v q) = items q @ [v]" using ok by (rule put_room [rotated])
    with IH show ?thesis by simp
  next
    case False
    with items_bounded [OF ok] have full: "length (items q) = cap q" by simp
    then have "items (put v q) = items q" using ok by (rule put_full [rotated])
    with IH full show ?thesis by simp
  qed
qed

end

end
