(* ===== verification/Pipe.thy ===== *)
theory Pipe
  imports Fifo
begin

text \<open>
  \<^verbatim>\<open>lib/src/pipe.rs\<close>: a ring buffer of \<open>N\<close> slots addressed by two free-running \<open>usize\<close> counters.
  The state is the struct's: the array and the two counters, which are 32-bit words here because
  that is what they are on the kernel target. \<open>N\<close> is the length of the array.

  The lemmas show that as long as the write counter does not wrap, the ring is the bounded queue
  of theory Fifo that drops its oldest element (interpretation \<open>pipeq\<close>); \<open>pipe_wrapped\<close>
  shows what happens when it does wrap.
\<close>

record 'a pipe =
  buf :: "'a list"
  read_pos :: usize
  write_pos :: usize

definition pipe_new :: "nat \<Rightarrow> 'a \<Rightarrow> 'a pipe" where
  "pipe_new n init = \<lparr>buf = replicate n init, read_pos = 0, write_pos = 0\<rparr>"

definition pipe_n :: "'a pipe \<Rightarrow> usize" where
  "pipe_n p = of_nat (length (buf p))"

definition pipe_slot :: "'a pipe \<Rightarrow> usize \<Rightarrow> nat" where
  "pipe_slot p pos = unat (pos mod pipe_n p)"

definition pipe_push :: "'a \<Rightarrow> 'a pipe \<Rightarrow> 'a pipe" where
  "pipe_push val p =
     (let p1 = (if write_pos p = read_pos p + pipe_n p then p\<lparr>read_pos := read_pos p + 1\<rparr> else p)
      in p1\<lparr>buf := (buf p1)[pipe_slot p1 (write_pos p1) := val], write_pos := write_pos p1 + 1\<rparr>)"

definition pipe_pop :: "'a pipe \<Rightarrow> 'a option \<times> 'a pipe" where
  "pipe_pop p =
     (if read_pos p = write_pos p then (None, p)
      else (Some (buf p ! pipe_slot p (read_pos p)), p\<lparr>read_pos := read_pos p + 1\<rparr>))"

definition pipe_is_empty :: "'a pipe \<Rightarrow> bool" where
  "pipe_is_empty p \<longleftrightarrow> read_pos p = write_pos p"

text \<open>\<^verbatim>\<open>drain(f)\<close>: the elements handed to \<^verbatim>\<open>f\<close>, in order, and the pipe afterwards.\<close>

function pipe_drain :: "'a pipe \<Rightarrow> 'a list \<times> 'a pipe" where
  "pipe_drain p =
     (if read_pos p < write_pos p
      then let (xs, p') = pipe_drain (p\<lparr>read_pos := read_pos p + 1\<rparr>)
           in (buf p ! pipe_slot p (read_pos p) # xs, p')
      else ([], p))"
  by pat_completeness auto
termination
proof (relation "measure (\<lambda>p. unat (write_pos p) - unat (read_pos p))", simp, goal_cases)
  case (1 p)
  then show ?case by (simp add: unat_Suc_less word_less_nat_alt)
qed

definition pipe_pop_back :: "'a pipe \<Rightarrow> bool \<times> 'a pipe" where
  "pipe_pop_back p =
     (if write_pos p > read_pos p then (True, p\<lparr>write_pos := write_pos p - 1\<rparr>) else (False, p))"

definition pipe_clear :: "'a pipe \<Rightarrow> 'a pipe" where
  "pipe_clear p = p\<lparr>read_pos := write_pos p\<rparr>"

text \<open>\<^verbatim>\<open>read(buf)\<close>: the loop over the caller's slice from index \<open>i\<close>.\<close>

function pipe_read_from :: "nat \<Rightarrow> 'a list \<Rightarrow> 'a pipe \<Rightarrow> nat \<times> 'a list \<times> 'a pipe" where
  "pipe_read_from i dst p =
     (if i < length dst \<and> read_pos p < write_pos p
      then pipe_read_from (Suc i) (dst[i := buf p ! pipe_slot p (read_pos p)])
             (p\<lparr>read_pos := read_pos p + 1\<rparr>)
      else (i, dst, p))"
  by pat_completeness auto
termination
  by (relation "measure (\<lambda>(i, dst, p). length dst - i)") auto

definition pipe_read :: "'a list \<Rightarrow> 'a pipe \<Rightarrow> nat \<times> 'a list \<times> 'a pipe" where
  "pipe_read dst p = pipe_read_from 0 dst p"

declare pipe_drain.simps [simp del]
declare pipe_read_from.simps [simp del]

section \<open>The queue a pipe holds\<close>

definition pipe_items :: "'a pipe \<Rightarrow> 'a list" where
  "pipe_items p = map (\<lambda>i. buf p ! (i mod length (buf p))) [unat (read_pos p)..<unat (write_pos p)]"

definition pipe_cap :: "'a pipe \<Rightarrow> nat" where
  "pipe_cap p = length (buf p)"

definition pipe_ok :: "nat \<Rightarrow> 'a pipe \<Rightarrow> bool" where
  "pipe_ok n p \<longleftrightarrow>
     buf p \<noteq> [] \<and> length (buf p) < 2 ^ 32 \<and> read_pos p \<le> write_pos p \<and>
     unat (write_pos p) \<le> unat (read_pos p) + length (buf p) \<and> unat (write_pos p) + n < 2 ^ 32"

lemma pipe_slot_nat:
  "length (buf p) < 2 ^ 32 \<Longrightarrow> pipe_slot p pos = unat pos mod length (buf p)"
  by (simp add: pipe_slot_def pipe_n_def unat_mod_distrib unat_of_nat)

lemma pipe_full_iff:
  assumes "pipe_ok n p"
  shows "write_pos p = read_pos p + pipe_n p \<longleftrightarrow> length (pipe_items p) = length (buf p)"
proof -
  let ?r = "unat (read_pos p)" and ?w = "unat (write_pos p)" and ?n = "length (buf p)"
  have rw: "?r \<le> ?w" "?w \<le> ?r + ?n" "?n < 2 ^ 32" "?w < 2 ^ 32" "0 < ?n"
    using assms by (auto simp: pipe_ok_def word_le_nat_alt)
  have n: "unat (pipe_n p) = ?n" using rw by (simp add: pipe_n_def unat_of_nat)
  have "unat (read_pos p + pipe_n p) = (?r + ?n) mod 2 ^ 32"
    by (simp add: unat_word_ariths n)
  then have "write_pos p = read_pos p + pipe_n p \<longleftrightarrow> ?w = (?r + ?n) mod 2 ^ 32"
    by (simp add: word_unat_eq_iff)
  also have "\<dots> \<longleftrightarrow> ?w = ?r + ?n"
  proof (cases "?r + ?n < 2 ^ 32")
    case False
    then have "(?r + ?n) mod 2 ^ 32 = ?r + ?n - 2 ^ 32"
      using rw by (simp add: mod_if)
    then show ?thesis using rw False by linarith
  qed simp
  also have "\<dots> \<longleftrightarrow> length (pipe_items p) = ?n" using rw by (auto simp: pipe_items_def)
  finally show ?thesis .
qed

lemma unat_Suc_pos: "unat x + 1 < 2 ^ 32 \<Longrightarrow> unat (x + 1 :: usize) = Suc (unat x)"
  by (simp add: unat_word_ariths)

lemma map_ring_update:
  assumes "w - r < n" and "r \<le> w" and "length b = n"
  shows "map (\<lambda>i. (b[w mod n := v]) ! (i mod n)) [r..<Suc w]
       = map (\<lambda>i. b ! (i mod n)) [r..<w] @ [v]"
proof -
  have ne: "i mod n \<noteq> w mod n" if "r \<le> i" "i < w" for i
  proof
    assume "i mod n = w mod n"
    then have "(w - i) mod n = 0" using that by (metis less_imp_le mod_eq_dvd_iff_nat mod_0_imp_dvd dvd_imp_mod_0)
    with that assms show False
      by (metis dvd_imp_le le_diff_conv2 less_imp_le linorder_not_less mod_0_imp_dvd order_less_le_trans zero_less_diff diff_le_mono2)
  qed
  have wn: "w mod n < length b" using assms by (cases n) auto
  have "map (\<lambda>i. (b[w mod n := v]) ! (i mod n)) [r..<w] = map (\<lambda>i. b ! (i mod n)) [r..<w]"
    by (rule map_cong) (auto simp: ne [symmetric])
  then show ?thesis using assms wn by simp
qed

lemma pipe_push_fields [simp]:
  "buf (pipe_push v p) = (buf p)[pipe_slot p (write_pos p) := v]"
  "write_pos (pipe_push v p) = write_pos p + 1"
  "read_pos (pipe_push v p) =
     (if write_pos p = read_pos p + pipe_n p then read_pos p + 1 else read_pos p)"
  by (simp_all add: pipe_push_def Let_def pipe_slot_def pipe_n_def)

lemma pipe_push_items:
  assumes ok: "pipe_ok (Suc n) p"
  shows "pipe_items (pipe_push v p) =
     (if length (pipe_items p) = length (buf p) then tl (pipe_items p) else pipe_items p) @ [v]"
proof -
  let ?r = "unat (read_pos p)" and ?w = "unat (write_pos p)" and ?n = "length (buf p)"
  have rw: "?r \<le> ?w" "?w \<le> ?r + ?n" "?n < 2 ^ 32" "?w + Suc n < 2 ^ 32" "0 < ?n"
    using ok by (auto simp: pipe_ok_def word_le_nat_alt)
  have w1: "unat (write_pos p + 1) = Suc ?w" using rw by (intro unat_Suc_pos) simp
  have r1: "unat (read_pos p + 1) = Suc ?r" using rw by (intro unat_Suc_pos) simp
  show ?thesis
  proof (cases "write_pos p = read_pos p + pipe_n p")
    case True
    then have full: "length (pipe_items p) = ?n" using pipe_full_iff [OF ok] by simp
    then have wr: "?w = ?r + ?n" using rw by (auto simp: pipe_items_def)
    from True r1 have "unat (read_pos (pipe_push v p)) = Suc ?r" by (simp add: True)
    then have "pipe_items (pipe_push v p) = map (\<lambda>i. (buf p)[?w mod ?n := v] ! (i mod ?n)) [Suc ?r..<Suc ?w]"
      using rw w1 by (simp add: pipe_items_def pipe_slot_nat del: pipe_push_fields(3) upt_Suc)
    also have "\<dots> = map (\<lambda>i. buf p ! (i mod ?n)) [Suc ?r..<?w] @ [v]"
      using rw wr by (intro map_ring_update) (auto simp: Suc_le_eq)
    also have "map (\<lambda>i. buf p ! (i mod ?n)) [Suc ?r..<?w] = tl (pipe_items p)"
      using wr rw by (simp add: pipe_items_def map_tl [symmetric] tl_upt)
    finally show ?thesis using full by simp
  next
    case False
    then have notfull: "length (pipe_items p) \<noteq> ?n" using pipe_full_iff [OF ok] by simp
    then have "?w - ?r < ?n" using rw by (auto simp: pipe_items_def)
    have "pipe_items (pipe_push v p) = map (\<lambda>i. (buf p)[?w mod ?n := v] ! (i mod ?n)) [?r..<Suc ?w]"
      using False rw w1 by (simp add: pipe_items_def pipe_slot_nat del: upt_Suc)
    also have "\<dots> = pipe_items p @ [v]"
      unfolding pipe_items_def using rw \<open>?w - ?r < ?n\<close> by (intro map_ring_update) auto
    finally show ?thesis using notfull by simp
  qed
qed

lemma pipe_ok_push: "pipe_ok (Suc n) p \<Longrightarrow> pipe_ok n (pipe_push v p)"
proof -
  assume ok: "pipe_ok (Suc n) p"
  have w1: "unat (write_pos p + 1) = Suc (unat (write_pos p))"
    using ok by (intro unat_Suc_pos) (simp add: pipe_ok_def)
  have "unat (read_pos p + 1) = Suc (unat (read_pos p))"
    using ok by (intro unat_Suc_pos) (simp add: pipe_ok_def word_le_nat_alt)
  then show ?thesis
    using ok w1 pipe_full_iff [OF ok]
    by (auto simp: pipe_ok_def word_le_nat_alt pipe_items_def Suc_le_eq)
qed

lemma pipe_items_Cons:
  assumes "pipe_ok n p" and "read_pos p < write_pos p"
  shows "pipe_items p = buf p ! pipe_slot p (read_pos p) # pipe_items (p\<lparr>read_pos := read_pos p + 1\<rparr>)"
  using assms
  by (simp add: pipe_items_def unat_Suc_less word_less_nat_alt upt_conv_Cons pipe_slot_nat pipe_ok_def)

lemma pipe_items_Nil: "\<not> read_pos p < write_pos p \<Longrightarrow> pipe_items p = []"
  by (simp add: pipe_items_def word_less_nat_alt)

lemma pipe_ok_step:
  "pipe_ok n p \<Longrightarrow> read_pos p < write_pos p \<Longrightarrow> pipe_ok n (p\<lparr>read_pos := read_pos p + 1\<rparr>)"
  by (auto simp: pipe_ok_def unat_Suc_less word_less_nat_alt word_le_nat_alt)

lemma pipe_nonempty_iff: "pipe_ok n p \<Longrightarrow> read_pos p \<noteq> write_pos p \<longleftrightarrow> read_pos p < write_pos p"
  by (auto simp: pipe_ok_def)

interpretation pipeq: fifo_drop_oldest pipe_items pipe_cap pipe_ok pipe_push pipe_pop
proof (unfold_locales, goal_cases)
  case (1 n q)
  then show ?case by (auto simp: pipe_ok_def pipe_items_def pipe_cap_def word_le_nat_alt)
next
  case (2 n q)
  then show ?case by (simp add: pipe_ok_def)
next
  case (3 n q v)
  then show ?case by (rule pipe_ok_push)
next
  case (4 n q v)
  show ?case by (simp add: pipe_cap_def)
next
  case (5 n q v)
  then show ?case by (simp add: pipe_push_items pipe_cap_def)
next
  case (6 n q)
  then show ?case by (auto simp: pipe_pop_def pipe_nonempty_iff intro: pipe_ok_step)
next
  case (7 n q)
  then show ?case using pipe_items_Cons [of n q] by (auto simp: pipe_pop_def pipe_nonempty_iff)
next
  case (8 n q x xs)
  then have "read_pos q < write_pos q" using pipe_items_Nil [of q] by (cases "read_pos q < write_pos q") auto
  with 8 show ?case using pipe_items_Cons [of n q] by (auto simp: pipe_pop_def)
next
  case (9 n q v)
  then show ?case by (simp add: pipe_push_items pipe_cap_def)
qed

lemma pipe_new_ok: "0 < N \<Longrightarrow> N < 2 ^ 32 \<Longrightarrow> n < 2 ^ 32 \<Longrightarrow> pipe_ok n (pipe_new N init)"
  by (simp add: pipe_ok_def pipe_new_def)

lemma pipe_new_items [simp]: "pipe_items (pipe_new N init) = []" "pipe_cap (pipe_new N init) = N"
  by (simp_all add: pipe_items_def pipe_new_def pipe_cap_def)

lemma pipe_is_empty_iff: "pipe_ok n p \<Longrightarrow> pipe_is_empty p \<longleftrightarrow> pipe_items p = []"
  using pipe_items_Cons [of n p] pipe_items_Nil [of p] pipe_nonempty_iff [of n p]
  unfolding pipe_is_empty_def by (metis list.distinct(1))

section \<open>The bulk operations\<close>

lemma pipe_drain_items:
  "pipe_ok n p \<Longrightarrow> fst (pipe_drain p) = pipe_items p \<and> pipe_items (snd (pipe_drain p)) = []"
proof (induction p rule: pipe_drain.induct)
  case (1 p)
  show ?case
  proof (cases "read_pos p < write_pos p")
    case True
    with 1 show ?thesis
      using pipe_ok_step [of n p] pipe_items_Cons [of n p]
      by (simp add: pipe_drain.simps [of p] split_beta)
  next
    case False
    then show ?thesis by (simp add: pipe_drain.simps [of p] pipe_items_Nil)
  qed
qed

lemma take_update_nth:
  "i < length xs \<Longrightarrow> take (Suc i) (xs[i := x]) = take i xs @ [x]"
  by (simp add: take_Suc_conv_app_nth)

lemma pipe_read_from_spec:
  "pipe_ok n p \<Longrightarrow> i \<le> length dst \<Longrightarrow> pipe_read_from i dst p = (j, dst', p') \<Longrightarrow>
     (let k = min (length dst - i) (length (pipe_items p)) in
        j = i + k \<and> dst' = take i dst @ take k (pipe_items p) @ drop (i + k) dst \<and>
        pipe_items p' = drop k (pipe_items p) \<and> pipe_ok n p' \<and> buf p' = buf p \<and> write_pos p' = write_pos p)"
proof (induction i dst p rule: pipe_read_from.induct)
  case (1 i dst p)
  show ?case
  proof (cases "i < length dst \<and> read_pos p < write_pos p")
    case True
    let ?x = "buf p ! pipe_slot p (read_pos p)" and ?p = "p\<lparr>read_pos := read_pos p + 1\<rparr>"
    have items: "pipe_items p = ?x # pipe_items ?p" using True "1.prems" by (intro pipe_items_Cons) auto
    have ok: "pipe_ok n ?p" using True "1.prems" by (intro pipe_ok_step) auto
    have rec: "pipe_read_from (Suc i) (dst[i := ?x]) ?p = (j, dst', p')"
      using True "1.prems" by (simp add: pipe_read_from.simps [of i dst p])
    have "min (length dst - i) (length (pipe_items p))
        = Suc (min (length dst - Suc i) (length (pipe_items ?p)))"
      using True items by (cases "length dst - i") auto
    then show ?thesis
      using "1.IH" [OF True ok _ rec] True items by (simp add: Let_def take_update_nth)
  next
    case False
    then have "j = i" "dst' = dst" "p' = p"
      using "1.prems" by (auto simp: pipe_read_from.simps [of i dst p])
    moreover have "min (length dst - i) (length (pipe_items p)) = 0"
      using False pipe_items_Nil [of p] by auto
    ultimately show ?thesis using "1.prems" by simp
  qed
qed

lemma pipe_read_spec:
  assumes "pipe_ok n p" and "pipe_read dst p = (cnt, dst', p')"
  shows "cnt = min (length dst) (length (pipe_items p))"
    and "dst' = take cnt (pipe_items p) @ drop cnt dst"
    and "pipe_items p' = drop cnt (pipe_items p)"
    and "pipe_ok n p'" and "pipe_cap p' = pipe_cap p"
  using pipe_read_from_spec [of n p 0 dst cnt dst' p'] assms
  by (auto simp: pipe_read_def Let_def pipe_cap_def)

lemma pipe_pop_back_spec:
  assumes "pipe_ok n p"
  shows "pipe_items (snd (pipe_pop_back p)) = butlast (pipe_items p)"
    and "fst (pipe_pop_back p) \<longleftrightarrow> pipe_items p \<noteq> []"
    and "pipe_ok n (snd (pipe_pop_back p))"
proof -
  have w: "unat (write_pos p - 1) = unat (write_pos p) - 1" if "read_pos p < write_pos p"
    using that by (simp add: unat_sub_if' word_less_nat_alt)
  show "pipe_items (snd (pipe_pop_back p)) = butlast (pipe_items p)"
    using w by (simp add: pipe_pop_back_def pipe_items_def word_less_nat_alt map_butlast [symmetric] butlast_upt_nat)
  show "fst (pipe_pop_back p) \<longleftrightarrow> pipe_items p \<noteq> []"
    by (simp add: pipe_pop_back_def pipe_items_def word_less_nat_alt)
  show "pipe_ok n (snd (pipe_pop_back p))"
    using assms w by (auto simp: pipe_pop_back_def pipe_ok_def word_less_nat_alt word_le_nat_alt)
qed

lemma pipe_clear_items: "pipe_items (pipe_clear p) = []"
  by (simp add: pipe_items_def pipe_clear_def)

section \<open>Counter wrap-around\<close>

text \<open>
  At the end of the counter's range the two ways of reading disagree: \<^verbatim>\<open>pop\<close> compares the
  positions with \<open>\<noteq>\<close> and still delivers the element, \<^verbatim>\<open>read\<close> and \<^verbatim>\<open>drain\<close> compare with \<open><\<close> and
  see an empty pipe.
\<close>

lemma pipe_wrapped:
  assumes "buf p \<noteq> []" and "length (buf p) < 2 ^ 32" and "read_pos p = - 1" and "write_pos p = - 1"
  shows "\<not> pipe_is_empty (pipe_push v p)" and "fst (pipe_pop (pipe_push v p)) = Some v"
    and "fst (pipe_read dst (pipe_push v p)) = 0" and "fst (pipe_drain (pipe_push v p)) = []"
proof -
  have n0: "pipe_n p \<noteq> 0" using assms by (simp add: pipe_n_def word_unat_eq_iff unat_of_nat)
  have f: "read_pos (pipe_push v p) = - 1" "write_pos (pipe_push v p) = 0"
    using assms n0 by auto
  show "\<not> pipe_is_empty (pipe_push v p)" by (simp add: pipe_is_empty_def f del: pipe_push_fields)
  have "pipe_slot p (- 1) < length (buf p)" using assms by (simp add: pipe_slot_nat)
  then show "fst (pipe_pop (pipe_push v p)) = Some v"
    using assms f by (simp add: pipe_pop_def pipe_slot_def pipe_n_def del: pipe_push_fields(2,3))
  show "fst (pipe_read dst (pipe_push v p)) = 0"
    using f by (simp add: pipe_read_def pipe_read_from.simps del: pipe_push_fields)
  show "fst (pipe_drain (pipe_push v p)) = []"
    using f by (simp add: pipe_drain.simps del: pipe_push_fields)
qed

end
