(* ===== verification/KPipe.thy ===== *)
theory KPipe
  imports Pipe
begin

text \<open>
  \<^verbatim>\<open>kernel/src/kernel/kpipe.rs\<close>: the pool of 64 reference-counted kernel pipes. The mutex-protected
  static array is the list \<open>pool\<close>; every operation takes the pool and returns it. An operation on
  an index outside the array panics in the code and is \<open>None\<close> here.
\<close>

definition MAX_PIPES :: nat where "MAX_PIPES = 64"
definition PIPE_BUF_SIZE :: nat where "PIPE_BUF_SIZE = 1024"

record kernel_pipe =
  buffer :: "u8 pipe"
  readers :: u16
  writers :: u16

type_synonym pool = "kernel_pipe list"

definition kernel_pipe_empty :: kernel_pipe where
  "kernel_pipe_empty = \<lparr>buffer = pipe_new PIPE_BUF_SIZE 0, readers = 0, writers = 0\<rparr>"

definition is_free :: "kernel_pipe \<Rightarrow> bool" where
  "is_free p \<longleftrightarrow> readers p = 0 \<and> writers p = 0"

definition pipes_init :: pool where
  "pipes_init = replicate MAX_PIPES kernel_pipe_empty"

definition kp_alloc :: "pool \<Rightarrow> nat option \<times> pool" where
  "kp_alloc pipes =
     (case find_index is_free pipes of
        Some i \<Rightarrow>
          (Some i, pipes[i := \<lparr>buffer = pipe_new PIPE_BUF_SIZE 0, readers = 1, writers = 1\<rparr>])
      | None \<Rightarrow> (None, pipes))"

definition kp_read :: "nat \<Rightarrow> u8 list \<Rightarrow> pool \<Rightarrow> (nat \<times> u8 list \<times> pool) option" where
  "kp_read idx dst pipes =
     (if idx < length pipes
      then (case pipe_read dst (buffer (pipes ! idx)) of
              (n, dst', b) \<Rightarrow> Some (n, dst', pipes[idx := (pipes ! idx)\<lparr>buffer := b\<rparr>]))
      else None)"

text \<open>\<^verbatim>\<open>-1\<close> is EPIPE; otherwise the length as \<^verbatim>\<open>i32\<close>.\<close>

definition kp_write :: "nat \<Rightarrow> u8 list \<Rightarrow> pool \<Rightarrow> (int \<times> pool) option" where
  "kp_write idx bytes pipes =
     (if idx < length pipes
      then (let p = pipes ! idx in
            if readers p = 0 then Some (- 1, pipes)
            else Some (sint (of_nat (length bytes) :: u32),
                       pipes[idx := p\<lparr>buffer := fold pipe_push bytes (buffer p)\<rparr>]))
      else None)"

definition kp_pop_back :: "nat \<Rightarrow> pool \<Rightarrow> (bool \<times> pool) option" where
  "kp_pop_back idx pipes =
     (if idx < length pipes
      then (case pipe_pop_back (buffer (pipes ! idx)) of
              (r, b) \<Rightarrow> Some (r, pipes[idx := (pipes ! idx)\<lparr>buffer := b\<rparr>]))
      else None)"

definition kp_has_data :: "nat \<Rightarrow> pool \<Rightarrow> bool option" where
  "kp_has_data idx pipes =
     (if idx < length pipes then Some (\<not> pipe_is_empty (buffer (pipes ! idx))) else None)"

definition kp_has_writers :: "nat \<Rightarrow> pool \<Rightarrow> bool option" where
  "kp_has_writers idx pipes = (if idx < length pipes then Some (0 < writers (pipes ! idx)) else None)"

definition kp_add_reader :: "nat \<Rightarrow> pool \<Rightarrow> pool option" where
  "kp_add_reader idx pipes =
     (if idx < length pipes
      then Some (pipes[idx := (pipes ! idx)\<lparr>readers := readers (pipes ! idx) + 1\<rparr>]) else None)"

definition kp_add_writer :: "nat \<Rightarrow> pool \<Rightarrow> pool option" where
  "kp_add_writer idx pipes =
     (if idx < length pipes
      then Some (pipes[idx := (pipes ! idx)\<lparr>writers := writers (pipes ! idx) + 1\<rparr>]) else None)"

definition kp_close_reader :: "nat \<Rightarrow> pool \<Rightarrow> pool option" where
  "kp_close_reader idx pipes =
     (if idx < length pipes
      then (let p = pipes ! idx in
            Some (if 0 < readers p then pipes[idx := p\<lparr>readers := readers p - 1\<rparr>] else pipes))
      else None)"

definition kp_close_writer :: "nat \<Rightarrow> pool \<Rightarrow> pool option" where
  "kp_close_writer idx pipes =
     (if idx < length pipes
      then (let p = pipes ! idx in
            Some (if 0 < writers p then pipes[idx := p\<lparr>writers := writers p - 1\<rparr>] else pipes))
      else None)"

lemmas kp_defs = kp_read_def kp_write_def kp_pop_back_def kp_add_reader_def kp_add_writer_def
  kp_close_reader_def kp_close_writer_def kp_has_data_def kp_has_writers_def

section \<open>The pool invariant\<close>

text \<open>
  Every pipe of the pool is a well-formed 1024-byte ring with \<open>n\<close> bytes to go before its
  counters wrap, and the pool has its 64 slots.
\<close>

definition pool_ok :: "nat \<Rightarrow> pool \<Rightarrow> bool" where
  "pool_ok n pipes \<longleftrightarrow>
     length pipes = MAX_PIPES \<and>
     (\<forall>p\<in>set pipes. pipe_ok n (buffer p) \<and> pipe_cap (buffer p) = PIPE_BUF_SIZE)"

lemma pool_okD:
  "pool_ok n pipes \<Longrightarrow> idx < length pipes \<Longrightarrow>
     pipe_ok n (buffer (pipes ! idx)) \<and> pipe_cap (buffer (pipes ! idx)) = PIPE_BUF_SIZE"
  by (simp add: pool_ok_def)

lemma pool_ok_update:
  "pool_ok n pipes \<Longrightarrow> pipe_ok n (buffer p) \<Longrightarrow> pipe_cap (buffer p) = PIPE_BUF_SIZE \<Longrightarrow>
     pool_ok n (pipes[idx := p])"
  unfolding pool_ok_def using set_update_subset_insert [of pipes idx p] by auto

lemma pipe_ok_weaken: "pipe_ok n p \<Longrightarrow> m \<le> n \<Longrightarrow> pipe_ok m p"
  by (simp add: pipe_ok_def)

lemma pool_ok_weaken: "pool_ok n pipes \<Longrightarrow> m \<le> n \<Longrightarrow> pool_ok m pipes"
  by (auto simp: pool_ok_def intro: pipe_ok_weaken)

lemma fresh_buffer: "n < 2 ^ 32 \<Longrightarrow> pipe_ok n (pipe_new PIPE_BUF_SIZE (0 :: u8))"
  by (intro pipe_new_ok) (simp_all add: PIPE_BUF_SIZE_def)

lemma pool_ok_init: "n < 2 ^ 32 \<Longrightarrow> pool_ok n pipes_init"
  by (simp add: pool_ok_def pipes_init_def kernel_pipe_empty_def fresh_buffer)

lemma kp_alloc_pool_ok: "pool_ok n pipes \<Longrightarrow> n < 2 ^ 32 \<Longrightarrow> pool_ok n (snd (kp_alloc pipes))"
  by (auto simp: kp_alloc_def intro!: pool_ok_update fresh_buffer split: option.splits)

lemma kp_read_pool_ok:
  "pool_ok n pipes \<Longrightarrow> kp_read idx dst pipes = Some (c, dst', pipes') \<Longrightarrow> pool_ok n pipes'"
  using pool_okD [of n pipes idx] pipe_read_spec(4,5) [of n "buffer (pipes ! idx)" dst]
  by (auto simp: kp_read_def intro!: pool_ok_update split: if_splits prod.splits)

lemma kp_write_pool_ok:
  assumes "pool_ok (length bytes + n) pipes" and "kp_write idx bytes pipes = Some (r, pipes')"
  shows "pool_ok n pipes'"
proof -
  have "pool_ok n pipes" using assms(1) by (rule pool_ok_weaken) simp
  then show ?thesis
    using assms pool_okD [OF assms(1), of idx] pipeq.ok_put_many [of bytes n "buffer (pipes ! idx)"]
      pipeq.cap_put_many [of bytes n "buffer (pipes ! idx)"]
    by (auto simp: kp_write_def Let_def intro!: pool_ok_update split: if_splits)
qed

lemma kp_refcount_pool_ok:
  "pool_ok n pipes \<Longrightarrow> kp_add_reader idx pipes = Some pipes' \<Longrightarrow> pool_ok n pipes'"
  "pool_ok n pipes \<Longrightarrow> kp_add_writer idx pipes = Some pipes' \<Longrightarrow> pool_ok n pipes'"
  "pool_ok n pipes \<Longrightarrow> kp_close_reader idx pipes = Some pipes' \<Longrightarrow> pool_ok n pipes'"
  "pool_ok n pipes \<Longrightarrow> kp_close_writer idx pipes = Some pipes' \<Longrightarrow> pool_ok n pipes'"
  using pool_okD [of n pipes idx]
  by (auto simp: kp_defs Let_def intro!: pool_ok_update split: if_splits)

lemma kp_pop_back_pool_ok:
  "pool_ok n pipes \<Longrightarrow> kp_pop_back idx pipes = Some (r, pipes') \<Longrightarrow> pool_ok n pipes'"
  using pool_okD [of n pipes idx] pipe_pop_back_spec(3) [of n "buffer (pipes ! idx)"]
  by (auto simp: kp_pop_back_def pipe_pop_back_def pipe_cap_def intro!: pool_ok_update split: if_splits)

section \<open>Runs of pool operations\<close>

text \<open>
  The operations as the events of one pool, in any order a scheduler may produce; a run stops at
  a panic.
\<close>

datatype pool_op =
    Alloc | Read nat "u8 list" | Write nat "u8 list" | PopBack nat
  | AddReader nat | AddWriter nat | CloseReader nat | CloseWriter nat

fun pool_step :: "pool_op \<Rightarrow> pool \<Rightarrow> pool option" where
  "pool_step Alloc pipes = Some (snd (kp_alloc pipes))"
| "pool_step (Read i dst) pipes = map_option (snd \<circ> snd) (kp_read i dst pipes)"
| "pool_step (Write i bs) pipes = map_option snd (kp_write i bs pipes)"
| "pool_step (PopBack i) pipes = map_option snd (kp_pop_back i pipes)"
| "pool_step (AddReader i) pipes = kp_add_reader i pipes"
| "pool_step (AddWriter i) pipes = kp_add_writer i pipes"
| "pool_step (CloseReader i) pipes = kp_close_reader i pipes"
| "pool_step (CloseWriter i) pipes = kp_close_writer i pipes"

fun pool_run :: "pool_op list \<Rightarrow> pool \<Rightarrow> pool option" where
  "pool_run [] pipes = Some pipes"
| "pool_run (x # xs) pipes = Option.bind (pool_step x pipes) (pool_run xs)"

text \<open>The bytes an operation, and a run, writes: what it may consume of the counters' range.\<close>

fun op_bytes :: "pool_op \<Rightarrow> nat" where
  "op_bytes (Write i bs) = length bs"
| "op_bytes _ = 0"

fun op_index_ok :: "pool_op \<Rightarrow> bool" where
  "op_index_ok Alloc = True"
| "op_index_ok (Read i _) = (i < MAX_PIPES)"
| "op_index_ok (Write i _) = (i < MAX_PIPES)"
| "op_index_ok (PopBack i) = (i < MAX_PIPES)"
| "op_index_ok (AddReader i) = (i < MAX_PIPES)"
| "op_index_ok (AddWriter i) = (i < MAX_PIPES)"
| "op_index_ok (CloseReader i) = (i < MAX_PIPES)"
| "op_index_ok (CloseWriter i) = (i < MAX_PIPES)"

lemma pool_step_ok:
  assumes "pool_ok (op_bytes x + n) pipes" and "op_bytes x + n < 2 ^ 32" and "op_index_ok x"
  shows "\<exists>pipes'. pool_step x pipes = Some pipes' \<and> pool_ok n pipes'"
proof (cases x)
  case Alloc
  with assms show ?thesis by (auto intro: kp_alloc_pool_ok)
next
  case (Read i dst)
  with assms have "i < length pipes" by (simp add: pool_ok_def)
  moreover obtain c d' b where "pipe_read dst (buffer (pipes ! i)) = (c, d', b)"
    by (rule prod_cases3)
  ultimately obtain c d' p' where r: "kp_read i dst pipes = Some (c, d', p')"
    by (simp add: kp_read_def)
  with assms Read show ?thesis by (auto intro: kp_read_pool_ok)
next
  case (Write i bs)
  with assms have "i < length pipes" by (simp add: pool_ok_def)
  then obtain r p' where w: "kp_write i bs pipes = Some (r, p')"
    by (cases "readers (pipes ! i) = 0") (auto simp: kp_write_def Let_def)
  with assms Write show ?thesis by (auto intro: kp_write_pool_ok)
next
  case (PopBack i)
  with assms have "i < length pipes" by (simp add: pool_ok_def)
  then obtain r p' where b: "kp_pop_back i pipes = Some (r, p')"
    by (cases "pipe_pop_back (buffer (pipes ! i))") (auto simp: kp_pop_back_def)
  with assms PopBack show ?thesis by (auto intro: kp_pop_back_pool_ok)
next
  case (AddReader i)
  with assms have "i < length pipes" by (simp add: pool_ok_def)
  with assms AddReader show ?thesis
    using kp_refcount_pool_ok(1) [of n pipes i] by (auto simp: kp_add_reader_def)
next
  case (AddWriter i)
  with assms have "i < length pipes" by (simp add: pool_ok_def)
  with assms AddWriter show ?thesis
    using kp_refcount_pool_ok(2) [of n pipes i] by (auto simp: kp_add_writer_def)
next
  case (CloseReader i)
  with assms have "i < length pipes" by (simp add: pool_ok_def)
  with assms CloseReader show ?thesis
    using kp_refcount_pool_ok(3) [of n pipes i] by (auto simp: kp_close_reader_def Let_def)
next
  case (CloseWriter i)
  with assms have "i < length pipes" by (simp add: pool_ok_def)
  with assms CloseWriter show ?thesis
    using kp_refcount_pool_ok(4) [of n pipes i] by (auto simp: kp_close_writer_def Let_def)
qed

lemma pool_run_ok:
  "pool_ok (sum_list (map op_bytes ops) + n) pipes \<Longrightarrow>
     sum_list (map op_bytes ops) + n < 2 ^ 32 \<Longrightarrow> list_all op_index_ok ops \<Longrightarrow>
     \<exists>pipes'. pool_run ops pipes = Some pipes' \<and> pool_ok n pipes'"
proof (induction ops arbitrary: pipes)
  case Nil
  then show ?case by simp
next
  case (Cons x ops)
  then obtain p' where "pool_step x pipes = Some p'" "pool_ok (sum_list (map op_bytes ops) + n) p'"
    using pool_step_ok [of x "sum_list (map op_bytes ops) + n" pipes] by (auto simp: add.assoc)
  then show ?case using Cons.IH [of p'] Cons.prems by auto
qed

section \<open>Properties\<close>

lemma kp_write_buffer:
  assumes ok: "pool_ok (length bytes) pipes" and i: "idx < MAX_PIPES"
    and r: "readers (pipes ! idx) \<noteq> 0"
  shows "\<exists>pipes'. kp_write idx bytes pipes = Some (sint (of_nat (length bytes) :: u32), pipes') \<and>
     pool_ok 0 pipes' \<and>
     pipe_items (buffer (pipes' ! idx)) =
       drop (length (pipe_items (buffer (pipes ! idx))) + length bytes - PIPE_BUF_SIZE)
         (pipe_items (buffer (pipes ! idx)) @ bytes)"
proof -
  let ?b = "buffer (pipes ! idx)"
  have il: "idx < length pipes" using ok i by (simp add: pool_ok_def)
  have b: "pipe_ok (length bytes + 0) ?b" "pipe_cap ?b = PIPE_BUF_SIZE"
    using pool_okD [OF ok il] by auto
  have "0 < pipe_cap ?b" using b by (simp add: PIPE_BUF_SIZE_def)
  from pipeq.put_many_suffix [OF b(1) this] b(2) il r
    kp_write_pool_ok [of bytes 0 pipes idx]
  show ?thesis using ok by (simp add: kp_write_def Let_def)
qed


lemma kp_alloc_init: "kp_alloc pipes_init =
   (Some 0, pipes_init[0 := \<lparr>buffer = pipe_new PIPE_BUF_SIZE 0, readers = 1, writers = 1\<rparr>])"
proof -
  have "find_index is_free pipes_init = Some 0"
    by (simp add: find_index_Some pipes_init_def MAX_PIPES_def kernel_pipe_empty_def is_free_def)
  then show ?thesis by (simp add: kp_alloc_def)
qed

lemma sint_of_small_length: "n < 2 ^ 31 \<Longrightarrow> sint (of_nat n :: u32) = int n"
  by (simp add: signed_of_nat signed_take_bit_int_eq_self)



text \<open>
  No interleaving of pool operations on valid indices panics or corrupts a ring: from the
  boot-time pool, any sequence of operations that writes fewer than \<open>2 ^ 32\<close> bytes in total runs
  to its end, and every pipe is still a well-formed ring of 1024 bytes that holds at most 1024.
\<close>

theorem kpipe_runs_safe:
  assumes "list_all op_index_ok ops" and "sum_list (map op_bytes ops) < 2 ^ 32"
  shows "\<exists>pipes. pool_run ops pipes_init = Some pipes \<and> length pipes = MAX_PIPES \<and>
     (\<forall>p\<in>set pipes. pipe_ok 0 (buffer p) \<and> pipe_cap (buffer p) = PIPE_BUF_SIZE \<and>
        length (pipe_items (buffer p)) \<le> PIPE_BUF_SIZE)"
proof -
  have "pool_ok (sum_list (map op_bytes ops) + 0) pipes_init"
    using assms(2) by (intro pool_ok_init) simp
  then obtain pipes where "pool_run ops pipes_init = Some pipes" "pool_ok 0 pipes"
    using pool_run_ok [of ops 0 pipes_init] assms by auto
  then show ?thesis using pipeq.items_bounded by (fastforce simp: pool_ok_def)
qed

theorem kpipe_runs_safe_witness:
  "\<exists>pipes. pool_run [Alloc, Write 0 [1, 2, 3], CloseWriter 0, Read 0 [0, 0]] pipes_init = Some pipes \<and>
     length pipes = MAX_PIPES \<and>
     (\<forall>p\<in>set pipes. pipe_ok 0 (buffer p) \<and> pipe_cap (buffer p) = PIPE_BUF_SIZE \<and>
        length (pipe_items (buffer p)) \<le> PIPE_BUF_SIZE)"
  by (rule kpipe_runs_safe) (simp_all add: MAX_PIPES_def)

text \<open>
  Allocation never hands out a live pipe: the index returned was free (no reader and no
  writer), its pipe comes back empty with one reader and one writer, no other slot changes, and
  the only failure is a table without a free slot.
\<close>

theorem kp_alloc_spec:
  "case kp_alloc pipes of
     (Some i, pipes') \<Rightarrow>
       i < length pipes \<and> is_free (pipes ! i) \<and>
       pipe_items (buffer (pipes' ! i)) = [] \<and> readers (pipes' ! i) = 1 \<and> writers (pipes' ! i) = 1 \<and>
       length pipes' = length pipes \<and> (\<forall>j. j \<noteq> i \<longrightarrow> pipes' ! j = pipes ! j)
   | (None, pipes') \<Rightarrow> pipes' = pipes \<and> (\<forall>p\<in>set pipes. \<not> is_free p)"
proof (cases "find_index is_free pipes")
  case None
  then have "\<forall>p\<in>set pipes. \<not> is_free p" by (simp add: find_index_None)
  with None show ?thesis by (simp add: kp_alloc_def)
next
  case (Some i)
  then have "i < length pipes" "is_free (pipes ! i)" by (simp_all add: find_index_Some)
  with Some show ?thesis by (simp add: kp_alloc_def)
qed

theorem kp_alloc_spec_witness:
  "fst (kp_alloc pipes_init) = Some 0 \<and> is_free (pipes_init ! 0) \<and>
   readers (snd (kp_alloc pipes_init) ! 0) = 1"
  using kp_alloc_spec [of pipes_init] by (simp add: kp_alloc_init)

text \<open>
  Writing to a pipe that has no reader is EPIPE (\<open>-1\<close>) and changes nothing; writing to one
  that has keeps exactly the last 1024 bytes of the old contents followed by the new ones, so an
  overlong write loses the oldest bytes although it reports its full length.
\<close>

theorem kpipe_write_spec:
  assumes "pool_ok (length bytes) pipes" and "idx < MAX_PIPES" and "length bytes < 2 ^ 31"
    and "old = pipe_items (buffer (pipes ! idx))"
  shows "if readers (pipes ! idx) = 0
     then kp_write idx bytes pipes = Some (- 1, pipes)
     else \<exists>pipes'. kp_write idx bytes pipes = Some (int (length bytes), pipes') \<and>
       pipe_items (buffer (pipes' ! idx)) =
         drop (length old + length bytes - PIPE_BUF_SIZE) (old @ bytes)"
proof (cases "readers (pipes ! idx) = 0")
  case True
  then show ?thesis using assms by (simp add: kp_write_def pool_ok_def)
next
  case False
  then show ?thesis
    using kp_write_buffer [OF assms(1,2) False] assms(3,4) by (auto simp: sint_of_small_length)
qed

theorem kpipe_write_spec_witness:
  "kp_write 0 [7] pipes_init = Some (- 1, pipes_init)"
  using kpipe_write_spec [of "[7]" pipes_init 0 "[]"] pool_ok_init [of "length [7 :: u8]"]
  by (simp add: MAX_PIPES_def pipes_init_def kernel_pipe_empty_def)

text \<open>
  The ring's counters do not survive their own wrap-around: once \<open>2 ^ 32 - 1\<close> elements have
  passed, a pushed element makes the pipe non-empty and \<^verbatim>\<open>pop\<close> returns it, but \<^verbatim>\<open>read\<close> delivers
  nothing into any buffer and \<^verbatim>\<open>drain\<close> visits nothing.
\<close>

theorem pipe_counter_wrap:
  assumes "buf p \<noteq> []" and "length (buf p) < 2 ^ 32" and "read_pos p = - 1" and "write_pos p = - 1"
  shows "\<not> pipe_is_empty (pipe_push v p) \<and> fst (pipe_pop (pipe_push v p)) = Some v \<and>
     fst (pipe_read dst (pipe_push v p)) = 0 \<and> fst (pipe_drain (pipe_push v p)) = []"
  using pipe_wrapped [OF assms] by simp

theorem pipe_counter_wrap_witness:
  "fst (pipe_pop (pipe_push 9 ((pipe_new 4 (0 :: u8))\<lparr>read_pos := - 1, write_pos := - 1\<rparr>))) = Some 9 \<and>
   fst (pipe_read [0, 0] (pipe_push 9 ((pipe_new 4 (0 :: u8))\<lparr>read_pos := - 1, write_pos := - 1\<rparr>))) = 0"
  using pipe_counter_wrap [of "(pipe_new 4 (0 :: u8))\<lparr>read_pos := - 1, write_pos := - 1\<rparr>" 9 "[0, 0]"]
  by (simp add: pipe_new_def)

end
