(* ===== verification/Vkbd.thy ===== *)
theory Vkbd
  imports Fifo
begin

text \<open>
  \<^verbatim>\<open>kernel/src/kernel/dos/machine/vkbd.rs\<close>: the virtual 8042 keyboard controller. The record is
  \<^verbatim>\<open>VirtualKeyboard\<close>: a 32-slot head/tail ring of scancodes behind a one-byte output buffer. The
  trace output under \<^verbatim>\<open>KBD_TRACE\<close> is left out. The two loops over the ring (\<^verbatim>\<open>pop_key\<close>,
  \<^verbatim>\<open>peek_key\<close>) run on fuel: \<open>KBD_BUF_SIZE\<close> rounds are enough on every well-formed state, since
  each round consumes one of at most 31 queued bytes (\<open>pop_key_loop_spec\<close>, \<open>peek_key_loop_spec\<close>).

  The ring is the bounded queue of theory Fifo that drops the newest byte when full
  (interpretation \<open>kbdq\<close>, capacity 31).
\<close>

definition KBD_BUF_SIZE :: nat where "KBD_BUF_SIZE = 32"

record vkbd =
  kbuffer :: "u8 list"
  head :: nat
  tail :: nat
  port60 :: u8
  port61 :: u8
  obf :: bool
  last_surface_ns :: u64
  awaiting_cmd_param :: bool

definition vkbd_new :: vkbd where
  "vkbd_new = \<lparr>kbuffer = replicate KBD_BUF_SIZE 0, head = 0, tail = 0, port60 = 0, port61 = 0,
     obf = False, last_surface_ns = 0, awaiting_cmd_param = False\<rparr>"

definition queue_scancode :: "u8 \<Rightarrow> vkbd \<Rightarrow> vkbd" where
  "queue_scancode sc k =
     (let next = (tail k + 1) mod KBD_BUF_SIZE in
      if next \<noteq> head k then k\<lparr>kbuffer := (kbuffer k)[tail k := sc], tail := next\<rparr> else k)"

definition vkbd_push :: "u8 \<Rightarrow> vkbd \<Rightarrow> vkbd" where
  "vkbd_push sc k = queue_scancode sc k"

definition vkbd_depth :: "vkbd \<Rightarrow> nat" where
  "vkbd_depth k = (tail k + KBD_BUF_SIZE - head k) mod KBD_BUF_SIZE"

text \<open>The byte at the head and the ring without it; the step both \<^verbatim>\<open>try_surface\<close> and \<^verbatim>\<open>pop_key\<close> take.\<close>

definition vkbd_take :: "vkbd \<Rightarrow> u8 option \<times> vkbd" where
  "vkbd_take k =
     (if head k = tail k then (None, k)
      else (Some (kbuffer k ! head k), k\<lparr>head := (head k + 1) mod KBD_BUF_SIZE\<rparr>))"

definition try_surface :: "u64 \<Rightarrow> vkbd \<Rightarrow> bool \<times> vkbd" where
  "try_surface now_ns k =
     (if obf k \<or> head k = tail k \<or> saturating_sub now_ns (last_surface_ns k) < 1000000
      then (False, k)
      else let sc = kbuffer k ! head k in
           (True, k\<lparr>head := (head k + 1) mod KBD_BUF_SIZE, port60 := sc, obf := True,
                    last_surface_ns := now_ns\<rparr>))"

definition read_port60 :: "vkbd \<Rightarrow> u8 \<times> vkbd" where
  "read_port60 k = (port60 k, k\<lparr>obf := False\<rparr>)"

definition has_data :: "vkbd \<Rightarrow> bool" where
  "has_data k = obf k"

definition has_buffered :: "vkbd \<Rightarrow> bool" where
  "has_buffered k \<longleftrightarrow> head k \<noteq> tail k"

definition read_port61 :: "vkbd \<Rightarrow> u8 \<times> vkbd" where
  "read_port61 k = (let v = port61 k XOR 0x10 in (v, k\<lparr>port61 := v\<rparr>))"

definition write_port61 :: "u8 \<Rightarrow> vkbd \<Rightarrow> vkbd" where
  "write_port61 v k = k\<lparr>port61 := v\<rparr>"

definition write_port60 :: "u8 \<Rightarrow> vkbd \<Rightarrow> vkbd" where
  "write_port60 v k =
     (if awaiting_cmd_param k then vkbd_push 0xFA (k\<lparr>awaiting_cmd_param := False\<rparr>)
      else if v = 0xED \<or> v = 0xF0 \<or> v = 0xF3 then vkbd_push 0xFA (k\<lparr>awaiting_cmd_param := True\<rparr>)
      else if v = 0xEE then vkbd_push 0xEE k
      else if v = 0xF2 then vkbd_push 0x83 (vkbd_push 0xAB (vkbd_push 0xFA k))
      else if v = 0xF4 \<or> v = 0xF5 \<or> v = 0xF6 \<or> v = 0xFE then vkbd_push 0xFA k
      else if v = 0xFF then vkbd_push 0xAA (vkbd_push 0xFA k)
      else vkbd_push 0xFE k)"

definition vkbd_clear :: "vkbd \<Rightarrow> vkbd" where
  "vkbd_clear k = k\<lparr>head := 0, tail := 0, port60 := 0, port61 := 0, obf := False,
     last_surface_ns := 0, awaiting_cmd_param := False\<rparr>"

fun pop_key_loop :: "nat \<Rightarrow> vkbd \<Rightarrow> (u8 option \<times> vkbd) option" where
  "pop_key_loop 0 k = None"
| "pop_key_loop (Suc fuel) k =
     (if head k \<noteq> tail k
      then let sc = kbuffer k ! head k; k' = k\<lparr>head := (head k + 1) mod KBD_BUF_SIZE\<rparr> in
           if sc AND 0x80 = 0 then Some (Some sc, k') else pop_key_loop fuel k'
      else Some (None, k))"

definition pop_key :: "vkbd \<Rightarrow> (u8 option \<times> vkbd) option" where
  "pop_key k = pop_key_loop KBD_BUF_SIZE k"

fun peek_key_loop :: "nat \<Rightarrow> nat \<Rightarrow> vkbd \<Rightarrow> u8 option option" where
  "peek_key_loop 0 i k = None"
| "peek_key_loop (Suc fuel) i k =
     (if i \<noteq> tail k
      then let sc = kbuffer k ! i in
           if sc AND 0x80 = 0 then Some (Some sc) else peek_key_loop fuel ((i + 1) mod KBD_BUF_SIZE) k
      else Some None)"

definition peek_key :: "vkbd \<Rightarrow> u8 option option" where
  "peek_key k = peek_key_loop KBD_BUF_SIZE (head k) k"

text \<open>
  \<^verbatim>\<open>normalize_scancode\<close>: one byte of lookahead on the E0 prefix; the flag is \<^verbatim>\<open>PcMachine::e0_pending\<close>.
\<close>

definition normalize_scancode :: "u8 \<Rightarrow> bool \<Rightarrow> (bool \<times> u8) option \<times> bool" where
  "normalize_scancode sc e0_pending =
     (if sc = 0xE0 then (None, True)
      else if e0_pending \<and> (sc = 0x2A \<or> sc = 0xAA \<or> sc = 0x36 \<or> sc = 0xB6) then (None, False)
      else (Some (e0_pending, sc), False))"

text \<open>The keyboard arm of \<^verbatim>\<open>queue_irq\<close> (\<^verbatim>\<open>machine/mod.rs\<close>): a host scancode is normalised and queued.\<close>

definition queue_key :: "u8 \<Rightarrow> bool \<times> vkbd \<Rightarrow> bool \<times> vkbd" where
  "queue_key sc s =
     (case s of (pending, k) \<Rightarrow>
       case normalize_scancode sc pending of
         (None, pending') \<Rightarrow> (pending', k)
       | (Some (e0, sc'), pending') \<Rightarrow>
           (pending', vkbd_push sc' (if e0 then vkbd_push 0xE0 k else k)))"

section \<open>The queue in the ring\<close>

definition vkbd_ok :: "nat \<Rightarrow> vkbd \<Rightarrow> bool" where
  "vkbd_ok n k \<longleftrightarrow> length (kbuffer k) = KBD_BUF_SIZE \<and> head k < KBD_BUF_SIZE \<and> tail k < KBD_BUF_SIZE"

definition vkbd_items :: "vkbd \<Rightarrow> u8 list" where
  "vkbd_items k = map (\<lambda>i. kbuffer k ! ((head k + i) mod KBD_BUF_SIZE)) [0..<vkbd_depth k]"

definition vkbd_cap :: "vkbd \<Rightarrow> nat" where
  "vkbd_cap k = KBD_BUF_SIZE - 1"

lemma vkbd_depth_alt:
  "vkbd_ok n k \<Longrightarrow> vkbd_depth k = (if head k \<le> tail k then tail k - head k else tail k + 32 - head k)"
  by (auto simp: vkbd_depth_def vkbd_ok_def KBD_BUF_SIZE_def mod_if)

lemma vkbd_tail_eq: "vkbd_ok n k \<Longrightarrow> (head k + vkbd_depth k) mod 32 = tail k"
  by (auto simp: vkbd_depth_alt vkbd_ok_def KBD_BUF_SIZE_def mod_if)

lemma vkbd_depth_0: "vkbd_ok n k \<Longrightarrow> vkbd_depth k = 0 \<longleftrightarrow> head k = tail k"
  by (auto simp: vkbd_depth_alt vkbd_ok_def KBD_BUF_SIZE_def)

lemma length_vkbd_items [simp]: "length (vkbd_items k) = vkbd_depth k"
  by (simp add: vkbd_items_def)

lemma vkbd_full_iff:
  "vkbd_ok n k \<Longrightarrow> (tail k + 1) mod KBD_BUF_SIZE = head k \<longleftrightarrow> vkbd_depth k = 31"
  by (auto simp: vkbd_depth_alt vkbd_ok_def KBD_BUF_SIZE_def mod_if)

lemma vkbd_push_room:
  assumes ok: "vkbd_ok n k" and room: "vkbd_depth k < 31"
  shows "vkbd_items (vkbd_push v k) = vkbd_items k @ [v]"
proof -
  let ?k = "vkbd_push v k"
  have ne: "(tail k + 1) mod KBD_BUF_SIZE \<noteq> head k" using vkbd_full_iff [OF ok] room by simp
  then have k': "?k = k\<lparr>kbuffer := (kbuffer k)[tail k := v], tail := (tail k + 1) mod KBD_BUF_SIZE\<rparr>"
    by (simp add: vkbd_push_def queue_scancode_def Let_def)
  have ok': "vkbd_ok n ?k" using ok k' by (simp add: vkbd_ok_def KBD_BUF_SIZE_def)
  have d: "vkbd_depth ?k = Suc (vkbd_depth k)"
    using ok ok' k' room ne by (auto simp: vkbd_depth_alt vkbd_ok_def KBD_BUF_SIZE_def mod_if)
  have tl: "(head k + vkbd_depth k) mod 32 = tail k" using ok by (rule vkbd_tail_eq)
  have other: "tail k \<noteq> (head k + i) mod 32" if "i < vkbd_depth k" for i
    using ok that room by (auto simp: vkbd_depth_alt vkbd_ok_def KBD_BUF_SIZE_def mod_if split: if_splits)
  show ?thesis
    using k' d tl other ok by (auto simp: vkbd_items_def KBD_BUF_SIZE_def vkbd_ok_def)
qed

lemma vkbd_push_full: "vkbd_ok n k \<Longrightarrow> vkbd_depth k = 31 \<Longrightarrow> vkbd_push v k = k"
  using vkbd_full_iff [of n k] by (simp add: vkbd_push_def queue_scancode_def Let_def)

lemma vkbd_ok_push: "vkbd_ok n k \<Longrightarrow> vkbd_ok m (vkbd_push v k)"
  by (auto simp: vkbd_ok_def vkbd_push_def queue_scancode_def Let_def KBD_BUF_SIZE_def)

lemma vkbd_take_Cons:
  assumes ok: "vkbd_ok n k" and ne: "head k \<noteq> tail k"
  shows "vkbd_items k = kbuffer k ! head k # vkbd_items (k\<lparr>head := (head k + 1) mod KBD_BUF_SIZE\<rparr>)"
proof -
  let ?k = "k\<lparr>head := (head k + 1) mod KBD_BUF_SIZE\<rparr>"
  have ok': "vkbd_ok n ?k" using ok by (simp add: vkbd_ok_def KBD_BUF_SIZE_def)
  have d: "vkbd_depth k = Suc (vkbd_depth ?k)"
    using ok ok' ne by (auto simp: vkbd_depth_alt vkbd_ok_def KBD_BUF_SIZE_def mod_if)
  have "(head k + Suc i) mod 32 = ((head k + 1) mod 32 + i) mod 32" for i
    by (simp add: mod_add_left_eq)
  then show ?thesis
    using ok d by (simp add: vkbd_items_def vkbd_ok_def KBD_BUF_SIZE_def upt_conv_Cons map_Suc_upt [symmetric] del: upt_Suc)
qed

lemma vkbd_items_Nil: "head k = tail k \<Longrightarrow> vkbd_items k = []"
  by (simp add: vkbd_items_def vkbd_depth_def KBD_BUF_SIZE_def)

interpretation kbdq: fifo_drop_newest vkbd_items vkbd_cap vkbd_ok vkbd_push vkbd_take
proof (unfold_locales, goal_cases)
  case (1 n q)
  show ?case using mod_less_divisor [of 32 "tail q + 32 - head q"]
    by (simp add: vkbd_cap_def vkbd_depth_def KBD_BUF_SIZE_def)
next
  case (2 n q)
  then show ?case by (simp add: vkbd_ok_def)
next
  case (3 n q v)
  then show ?case by (rule vkbd_ok_push)
next
  case (4 n q v)
  show ?case by (simp add: vkbd_cap_def)
next
  case (5 n q v)
  then show ?case by (intro vkbd_push_room) (simp_all add: vkbd_cap_def KBD_BUF_SIZE_def)
next
  case (6 n q)
  then show ?case by (auto simp: vkbd_take_def vkbd_ok_def KBD_BUF_SIZE_def)
next
  case (7 n q)
  then show ?case using vkbd_take_Cons [of n q] by (auto simp: vkbd_take_def)
next
  case (8 n q x xs)
  then have "head q \<noteq> tail q" using vkbd_items_Nil [of q] by auto
  with 8 show ?case using vkbd_take_Cons [of n q] by (auto simp: vkbd_take_def)
next
  case (9 n q v)
  then show ?case using vkbd_push_full [of _ q v] by (simp add: vkbd_cap_def KBD_BUF_SIZE_def)
qed

section \<open>Key lookup\<close>

abbreviation is_release :: "u8 \<Rightarrow> bool" where
  "is_release sc \<equiv> sc AND 0x80 \<noteq> 0"

lemma pop_key_loop_spec:
  "vkbd_ok n k \<Longrightarrow> vkbd_depth k < fuel \<Longrightarrow>
     \<exists>k'. vkbd_ok n k' \<and>
       (case dropWhile is_release (vkbd_items k) of
          [] \<Rightarrow> pop_key_loop fuel k = Some (None, k') \<and> vkbd_items k' = []
        | sc # rest \<Rightarrow> pop_key_loop fuel k = Some (Some sc, k') \<and> vkbd_items k' = rest)"
proof (induction fuel arbitrary: k)
  case 0
  then show ?case by simp
next
  case (Suc fuel)
  show ?case
  proof (cases "head k = tail k")
    case True
    with Suc.prems show ?thesis by (auto simp: vkbd_items_Nil)
  next
    case False
    let ?k = "k\<lparr>head := (head k + 1) mod KBD_BUF_SIZE\<rparr>"
    have items: "vkbd_items k = kbuffer k ! head k # vkbd_items ?k"
      using Suc.prems(1) False by (rule vkbd_take_Cons)
    have ok: "vkbd_ok n ?k" using Suc.prems(1) by (simp add: vkbd_ok_def KBD_BUF_SIZE_def)
    have "length (vkbd_items k) = Suc (length (vkbd_items ?k))" using items by simp
    then have "vkbd_depth ?k < fuel" using Suc.prems(2) by simp
    from Suc.IH [OF ok this] show ?thesis
      using False items ok
      by (cases "is_release (kbuffer k ! head k)") (auto simp: Let_def split: list.splits)
  qed
qed

lemma vkbd_depth_less: "vkbd_depth k < KBD_BUF_SIZE"
  by (simp add: vkbd_depth_def KBD_BUF_SIZE_def)

lemma peek_key_loop_spec:
  "vkbd_ok n k \<Longrightarrow> vkbd_depth (k\<lparr>head := i\<rparr>) < fuel \<Longrightarrow> i < KBD_BUF_SIZE \<Longrightarrow>
     peek_key_loop fuel i k =
       Some (case dropWhile is_release (vkbd_items (k\<lparr>head := i\<rparr>)) of [] \<Rightarrow> None | sc # _ \<Rightarrow> Some sc)"
proof (induction fuel arbitrary: i)
  case 0
  then show ?case by simp
next
  case (Suc fuel)
  let ?k = "k\<lparr>head := i\<rparr>" and ?j = "(i + 1) mod KBD_BUF_SIZE"
  show ?case
  proof (cases "i = tail k")
    case True
    then show ?thesis by (simp add: vkbd_items_Nil)
  next
    case False
    have ok: "vkbd_ok n ?k" using Suc.prems by (simp add: vkbd_ok_def)
    have items: "vkbd_items ?k = kbuffer k ! i # vkbd_items (k\<lparr>head := ?j\<rparr>)"
      using vkbd_take_Cons [OF ok] False by simp
    then have "length (vkbd_items ?k) = Suc (length (vkbd_items (k\<lparr>head := ?j\<rparr>)))" by simp
    then have "vkbd_depth (k\<lparr>head := ?j\<rparr>) < fuel" using Suc.prems(2) by simp
    moreover have "?j < KBD_BUF_SIZE" by (simp add: KBD_BUF_SIZE_def)
    ultimately show ?thesis
      using Suc.IH [OF Suc.prems(1), of ?j] False items
      by (cases "is_release (kbuffer k ! i)") (simp_all add: Let_def)
  qed
qed

section \<open>Responses to host commands\<close>

text \<open>What the keyboard answers to a byte written at port 60h.\<close>

definition cmd_response :: "bool \<Rightarrow> u8 \<Rightarrow> u8 list" where
  "cmd_response awaiting v =
     (if awaiting \<or> v = 0xED \<or> v = 0xF0 \<or> v = 0xF3 \<or> v = 0xF4 \<or> v = 0xF5 \<or> v = 0xF6 \<or> v = 0xFE
        then [0xFA]
      else if v = 0xEE then [0xEE]
      else if v = 0xF2 then [0xFA, 0xAB, 0x83]
      else if v = 0xFF then [0xFA, 0xAA]
      else [0xFE])"

lemma write_port60_fold:
  "write_port60 v k =
     fold vkbd_push (cmd_response (awaiting_cmd_param k) v)
       (k\<lparr>awaiting_cmd_param := \<not> awaiting_cmd_param k \<and> (v = 0xED \<or> v = 0xF0 \<or> v = 0xF3)\<rparr>)"
proof -
  have "k\<lparr>awaiting_cmd_param := False\<rparr> = k" if "\<not> awaiting_cmd_param k" using that by simp
  note eq = this
  show ?thesis by (auto simp: write_port60_def cmd_response_def eq)
qed

lemma vkbd_items_awaiting [simp]: "vkbd_items (k\<lparr>awaiting_cmd_param := b\<rparr>) = vkbd_items k"
  by (simp add: vkbd_items_def vkbd_depth_def)

lemma vkbd_ok_awaiting [simp]: "vkbd_ok n (k\<lparr>awaiting_cmd_param := b\<rparr>) = vkbd_ok n k"
  by (simp add: vkbd_ok_def)

lemma vkbd_ok_any: "vkbd_ok n k \<Longrightarrow> vkbd_ok m k"
  by (simp add: vkbd_ok_def)

section \<open>Runs of the controller\<close>

text \<open>
  The events that reach the controller: a scancode from the host, a command byte the guest writes
  to port 60h, a poll of the serial clock at a given time, and a guest read of port 60h. A run
  logs the bytes accepted into the ring and the bytes surfaced at port 60h with their times.
\<close>

datatype kbd_event = HostKey u8 | Command u8 | Clock u64 | ReadPort60

definition room :: "vkbd \<Rightarrow> nat" where
  "room k = vkbd_cap k - vkbd_depth k"

fun kbd_step :: "kbd_event \<Rightarrow> vkbd \<Rightarrow> (u8 list \<times> (u64 \<times> u8) list) \<times> vkbd" where
  "kbd_step (HostKey sc) k = ((take (room k) [sc], []), vkbd_push sc k)"
| "kbd_step (Command v) k = ((take (room k) (cmd_response (awaiting_cmd_param k) v), []), write_port60 v k)"
| "kbd_step (Clock now) k =
     (case try_surface now k of (up, k') \<Rightarrow> (([], if up then [(now, port60 k')] else []), k'))"
| "kbd_step ReadPort60 k = (([], []), snd (read_port60 k))"

fun kbd_run :: "kbd_event list \<Rightarrow> vkbd \<Rightarrow> (u8 list \<times> (u64 \<times> u8) list) \<times> vkbd" where
  "kbd_run [] k = (([], []), k)"
| "kbd_run (e # es) k =
     (case kbd_step e k of ((acc, out), k1) \<Rightarrow>
      case kbd_run es k1 of ((acc', out'), k2) \<Rightarrow> ((acc @ acc', out @ out'), k2))"

text \<open>
  The bytes the guest takes: a read returns a new byte when the output buffer is full. What is in
  the output buffer and not yet taken is the latch.
\<close>

fun kbd_reads :: "kbd_event list \<Rightarrow> vkbd \<Rightarrow> u8 list" where
  "kbd_reads [] k = []"
| "kbd_reads (e # es) k =
     (if e = ReadPort60 \<and> has_data k then [fst (read_port60 k)] else []) @ kbd_reads es (snd (kbd_step e k))"

definition latch :: "vkbd \<Rightarrow> u8 list" where
  "latch k = (if has_data k then [port60 k] else [])"

lemma vkbd_fold_push:
  "vkbd_ok n k \<Longrightarrow>
     vkbd_items (fold vkbd_push vs k) = vkbd_items k @ take (vkbd_cap k - vkbd_depth k) vs \<and>
     vkbd_ok n (fold vkbd_push vs k)"
  using kbdq.put_many_prefix [of vs n k] kbdq.ok_put_many [of vs n k]
    vkbd_ok_any [of n k "length vs + n"] kbdq.items_bounded [of n k]
  by simp

lemma kbd_step_queue:
  assumes ok: "vkbd_ok n k" and st: "kbd_step e k = ((acc, out), k')"
  shows "vkbd_ok n k' \<and> map snd out @ vkbd_items k' = vkbd_items k @ acc"
proof (cases e)
  case (HostKey sc)
  then show ?thesis using vkbd_fold_push [OF ok, of "[sc]"] st by (auto simp: room_def)
next
  case (Command v)
  let ?k = "k\<lparr>awaiting_cmd_param := \<not> awaiting_cmd_param k \<and> (v = 0xED \<or> v = 0xF0 \<or> v = 0xF3)\<rparr>"
  have "vkbd_ok n ?k" using ok by simp
  from vkbd_fold_push [OF this, of "cmd_response (awaiting_cmd_param k) v"] show ?thesis
    using st Command by (auto simp: write_port60_fold room_def vkbd_cap_def vkbd_depth_def)
next
  case (Clock now)
  let ?h = "k\<lparr>head := (head k + 1) mod KBD_BUF_SIZE\<rparr>"
  have frame: "vkbd_items (?h\<lparr>port60 := x, obf := y, last_surface_ns := z\<rparr>) = vkbd_items ?h" for x y z
    by (simp add: vkbd_items_def vkbd_depth_def)
  show ?thesis
  proof (cases "fst (try_surface now k)")
    case True
    then have ne: "head k \<noteq> tail k" by (auto simp: try_surface_def split: if_splits)
    have "acc = []" "out = [(now, kbuffer k ! head k)]"
      "k' = ?h\<lparr>port60 := kbuffer k ! head k, obf := True, last_surface_ns := now\<rparr>"
      using st Clock True by (auto simp: try_surface_def Let_def split: if_splits)
    moreover have "vkbd_ok n k'" using ok calculation by (simp add: vkbd_ok_def KBD_BUF_SIZE_def)
    ultimately show ?thesis using vkbd_take_Cons [OF ok ne] frame by simp
  next
    case False
    then have "acc = []" "out = []" "k' = k"
      using st Clock by (auto simp: try_surface_def Let_def split: if_splits)
    then show ?thesis using ok by simp
  qed
next
  case ReadPort60
  then show ?thesis using ok st by (auto simp: read_port60_def vkbd_ok_def vkbd_items_def vkbd_depth_def)
qed

lemma kbd_run_queue:
  "vkbd_ok n k \<Longrightarrow> kbd_run es k = ((acc, out), k') \<Longrightarrow>
     vkbd_ok n k' \<and> map snd out @ vkbd_items k' = vkbd_items k @ acc"
proof (induction es arbitrary: k acc out)
  case Nil
  then show ?case by auto
next
  case (Cons e es)
  from Cons.prems(2) obtain acc1 out1 k1 acc2 out2 where
    s: "kbd_step e k = ((acc1, out1), k1)" and r: "kbd_run es k1 = ((acc2, out2), k')"
    and eq: "acc = acc1 @ acc2" "out = out1 @ out2"
    by (auto split: prod.splits)
  from kbd_step_queue [OF Cons.prems(1) s]
  have 1: "vkbd_ok n k1" "map snd out1 @ vkbd_items k1 = vkbd_items k @ acc1" by auto
  from Cons.IH [OF 1(1) r] have "vkbd_ok n k'" "map snd out2 @ vkbd_items k' = vkbd_items k1 @ acc2"
    by auto
  then show ?case using 1 eq by (metis append.assoc map_append)
qed

text \<open>Pacing: the times at which bytes surface are at least a millisecond apart.\<close>

fun paced :: "u64 \<Rightarrow> (u64 \<times> u8) list \<Rightarrow> bool" where
  "paced prev [] = True"
| "paced prev ((t, _) # rest) = (unat prev + 1000000 \<le> unat t \<and> paced t rest)"

lemma kbd_step_paced:
  assumes "kbd_step e k = ((acc, out), k')"
  shows "(out = [] \<and> last_surface_ns k' = last_surface_ns k) \<or>
     (\<exists>t b. out = [(t, b)] \<and> last_surface_ns k' = t \<and> unat (last_surface_ns k) + 1000000 \<le> unat t)"
proof -
  have push: "last_surface_ns (vkbd_push sc x) = last_surface_ns x" for sc x
    by (simp add: vkbd_push_def queue_scancode_def Let_def)
  have "last_surface_ns (fold vkbd_push vs x) = last_surface_ns x" for vs x
    by (induction vs arbitrary: x) (auto simp: push)
  then show ?thesis
    using assms
    by (cases e) (auto simp: push write_port60_fold try_surface_def read_port60_def Let_def
        word_less_nat_alt rust_arith split: if_splits)
qed

lemma kbd_run_paced: "kbd_run es k = ((acc, out), k') \<Longrightarrow> paced (last_surface_ns k) out"
proof (induction es arbitrary: k acc out)
  case Nil
  then show ?case by auto
next
  case (Cons e es)
  from Cons.prems obtain acc1 out1 k1 acc2 out2 where
    s: "kbd_step e k = ((acc1, out1), k1)" and r: "kbd_run es k1 = ((acc2, out2), k')"
    and eq: "out = out1 @ out2"
    by (auto split: prod.splits)
  show ?case using kbd_step_paced [OF s] Cons.IH [OF r] eq by auto
qed

text \<open>Nothing surfaces over a byte that was not taken.\<close>

lemma latch_push [simp]: "latch (fold vkbd_push vs k) = latch k"
  by (induction vs arbitrary: k) (auto simp: latch_def has_data_def vkbd_push_def queue_scancode_def Let_def)

lemma latch_param [simp]: "latch (k\<lparr>awaiting_cmd_param := b\<rparr>) = latch k"
  by (simp add: latch_def has_data_def)

lemma kbd_step_latch:
  assumes "kbd_step e k = ((acc, out), k')"
  shows "(if e = ReadPort60 \<and> has_data k then [fst (read_port60 k)] else []) @ latch k' = latch k @ map snd out"
proof (cases e)
  case (HostKey sc)
  then show ?thesis using assms latch_push [of "[sc]" k] by auto
next
  case (Clock now)
  then show ?thesis
    using assms by (auto simp: try_surface_def latch_def has_data_def Let_def split: if_splits)
next
  case (Command v)
  then show ?thesis using assms by (auto simp: write_port60_fold)
next
  case ReadPort60
  then show ?thesis using assms by (auto simp: read_port60_def latch_def has_data_def)
qed

lemma kbd_run_latch: "kbd_run es k = ((acc, out), k') \<Longrightarrow> kbd_reads es k @ latch k' = latch k @ map snd out"
proof (induction es arbitrary: k acc out)
  case (Cons e es)
  from Cons.prems obtain acc1 out1 k1 acc2 out2 where
    s: "kbd_step e k = ((acc1, out1), k1)" and r: "kbd_run es k1 = ((acc2, out2), k')" and "out = out1 @ out2"
    by (auto split: prod.splits)
  then show ?case using kbd_step_latch [OF s] Cons.IH [OF r] by (simp del: kbd_step.simps)
qed auto

lemma vkbd_new_ok: "vkbd_ok n vkbd_new" "vkbd_items vkbd_new = []"
  by (simp_all add: vkbd_ok_def vkbd_new_def KBD_BUF_SIZE_def vkbd_items_def vkbd_depth_def)

lemma latch_new [simp]: "latch vkbd_new = []"
  by (simp add: latch_def has_data_def vkbd_new_def)

lemma vkbd_new_fields [simp]:
  "last_surface_ns vkbd_new = 0" "awaiting_cmd_param vkbd_new = False"
  "vkbd_depth vkbd_new = 0" "vkbd_cap vkbd_new = 31"
  by (simp_all add: vkbd_new_def vkbd_depth_def vkbd_cap_def KBD_BUF_SIZE_def)

section \<open>Properties\<close>

text \<open>
  C18. The keyboard delivers every accepted byte exactly once and in order, at most one per
  millisecond: over any sequence of host keys, guest commands, clock polls and port reads from
  power-on, the bytes the guest has taken from port 60h, the byte waiting there and the bytes still
  queued are together exactly the bytes accepted, and the times at which bytes appear at the port
  are at least 1,000,000 ns apart.
\<close>

theorem kbd_delivery:
  assumes "kbd_run es vkbd_new = ((accepted, surfaced), k')"
  shows "kbd_reads es vkbd_new @ latch k' @ vkbd_items k' = accepted \<and>
     map snd surfaced = kbd_reads es vkbd_new @ latch k' \<and> paced 0 surfaced"
  using kbd_run_queue [OF vkbd_new_ok(1) assms] kbd_run_paced [OF assms] kbd_run_latch [OF assms]
  by (simp add: vkbd_new_ok) (metis append.assoc)

theorem kbd_delivery_witness:
  "kbd_reads [HostKey 0x1E, HostKey 0x9E, Clock 2000000, Clock 3500000, ReadPort60, Clock 4000000] vkbd_new @
     latch (snd (kbd_run [HostKey 0x1E, HostKey 0x9E, Clock 2000000, Clock 3500000, ReadPort60, Clock 4000000] vkbd_new)) @
     vkbd_items (snd (kbd_run [HostKey 0x1E, HostKey 0x9E, Clock 2000000, Clock 3500000, ReadPort60, Clock 4000000] vkbd_new)) =
     [0x1E, 0x9E]"
proof -
  have "kbd_run [HostKey 0x1E, HostKey 0x9E, Clock 2000000, Clock 3500000, ReadPort60, Clock 4000000] vkbd_new =
     (([0x1E, 0x9E], [(2000000, 0x1E), (4000000, 0x9E)]),
      snd (kbd_run [HostKey 0x1E, HostKey 0x9E, Clock 2000000, Clock 3500000, ReadPort60, Clock 4000000] vkbd_new))"
    by code_simp
  from kbd_delivery [OF this] show ?thesis by blast
qed

text \<open>
  The BIOS key services agree and terminate: on every well-formed controller \<^verbatim>\<open>pop_key\<close>
  returns, it discards the release codes in front of the first key-down code and returns that
  code with exactly the bytes after it left queued (or empties the ring when there is none), and
  \<^verbatim>\<open>peek_key\<close> answers the same code without changing the ring.
\<close>

theorem pop_peek_key:
  assumes "vkbd_ok n k"
  shows "\<exists>k'. (case dropWhile is_release (vkbd_items k) of
       [] \<Rightarrow> pop_key k = Some (None, k') \<and> vkbd_items k' = [] \<and> peek_key k = Some None
     | sc # rest \<Rightarrow> pop_key k = Some (Some sc, k') \<and> vkbd_items k' = rest \<and> peek_key k = Some (Some sc))"
proof -
  have "peek_key k = Some (case dropWhile is_release (vkbd_items k) of [] \<Rightarrow> None | sc # _ \<Rightarrow> Some sc)"
    using peek_key_loop_spec [OF assms, of "head k" KBD_BUF_SIZE] assms vkbd_depth_less [of k]
    by (simp add: peek_key_def vkbd_ok_def)
  then show ?thesis
    using pop_key_loop_spec [OF assms vkbd_depth_less] unfolding pop_key_def
    by (auto split: list.splits simp del: dropWhile_eq_Nil_conv)
qed

theorem pop_peek_key_witness:
  "\<exists>k'. pop_key (vkbd_push 0x1C (vkbd_push 0x9E vkbd_new)) = Some (Some 0x1C, k') \<and> vkbd_items k' = [] \<and>
     peek_key (vkbd_push 0x1C (vkbd_push 0x9E vkbd_new)) = Some (Some 0x1C)"
proof -
  let ?k = "vkbd_push 0x1C (vkbd_push 0x9E vkbd_new)"
  have ok: "vkbd_ok 0 ?k" using vkbd_new_ok(1) by (intro vkbd_ok_push)
  have items: "vkbd_items ?k = [0x9E, 0x1C]" by code_simp
  show ?thesis using pop_peek_key [OF ok] by (simp add: items)
qed

text \<open>
  The controller answers guest commands as an MF2 keyboard does, in order and behind the
  bytes already queued: with room for the answer, a byte written to port 60h appends exactly the
  protocol's response bytes to the queue, and a two-byte command makes the controller treat the
  next byte as its parameter and nothing else.
\<close>

theorem kbd_command_response:
  assumes "vkbd_ok n k" and "vkbd_depth k + 3 \<le> vkbd_cap k"
  shows "vkbd_items (write_port60 v k) = vkbd_items k @ cmd_response (awaiting_cmd_param k) v \<and>
     (awaiting_cmd_param (write_port60 v k) \<longleftrightarrow>
        \<not> awaiting_cmd_param k \<and> (v = 0xED \<or> v = 0xF0 \<or> v = 0xF3)) \<and>
     vkbd_ok n (write_port60 v k)"
proof -
  let ?b = "\<not> awaiting_cmd_param k \<and> (v = 0xED \<or> v = 0xF0 \<or> v = 0xF3)"
  let ?k = "k\<lparr>awaiting_cmd_param := ?b\<rparr>" and ?r = "cmd_response (awaiting_cmd_param k) v"
  have "awaiting_cmd_param (fold vkbd_push vs x) = awaiting_cmd_param x" for vs x
    by (induction vs arbitrary: x) (auto simp: vkbd_push_def queue_scancode_def Let_def)
  moreover have "length ?r \<le> 3" by (simp add: cmd_response_def)
  moreover have "vkbd_cap ?k - vkbd_depth ?k = vkbd_cap k - vkbd_depth k"
    by (simp add: vkbd_cap_def vkbd_depth_def)
  ultimately show ?thesis
    using vkbd_fold_push [of n ?k ?r] assms by (simp add: write_port60_fold)
qed

theorem kbd_command_response_witness:
  "vkbd_items (write_port60 0xF2 vkbd_new) = [0xFA, 0xAB, 0x83]"
  using kbd_command_response [OF vkbd_new_ok(1) [of 0], of "0xF2"]
  by (simp add: vkbd_new_ok cmd_response_def)

end
