(* ===== verification/Vpic.thy ===== *)
theory Vpic
  imports Prelude
begin

text \<open>
  \<^verbatim>\<open>kernel/src/kernel/dos/machine/vpic.rs\<close>: the virtual pair of cascaded 8259 interrupt controllers.
  A chip is its three registers (and the vector base nothing reads); lines are numbers, global
  IRQ 0..7 on the master and 8..15 on the slave, which hangs off master line 2.

  The theory relates the register manipulations to the priority chain the file's header states:
  \<open>peek\<close> selects the best deliverable line (\<open>vpic_peek_Some\<close>, \<open>vpic_peek_None\<close>), interrupts nest as
  a stack of strictly increasing priority whatever the devices and masks do, and pending requests
  drain in priority order.
\<close>

section \<open>The chips\<close>

definition lowest_set :: "u8 \<Rightarrow> nat option" where
  "lowest_set bits = (if bits \<noteq> 0 then Some (trailing_zeros bits) else None)"

record pic8259 =
  irr :: u8
  isr :: u8
  imr :: u8
  vector_base :: u8

definition pic8259_new :: "u8 \<Rightarrow> pic8259" where
  "pic8259_new base = \<lparr>irr = 0, isr = 0, imr = 0, vector_base = base\<rparr>"

definition pic8259_peek :: "pic8259 \<Rightarrow> nat option" where
  "pic8259_peek c =
     (case lowest_set (irr c AND NOT (imr c)) of
        None \<Rightarrow> None
      | Some win \<Rightarrow>
          (case lowest_set (isr c) of
             Some svc \<Rightarrow> if win \<ge> svc then None else Some win
           | None \<Rightarrow> Some win))"

definition write_ocw2 :: "u8 \<Rightarrow> pic8259 \<Rightarrow> nat option \<times> pic8259" where
  "write_ocw2 val c =
     (if val AND 0xE0 = 0x20 \<or> val AND 0xE0 = 0xA0 then
        (case lowest_set (isr c) of
           None \<Rightarrow> (None, c)
         | Some line \<Rightarrow> (Some line, c\<lparr>isr := clear_mask (isr c) line\<rparr>))
      else if val AND 0xE0 = 0x60 \<or> val AND 0xE0 = 0xE0 then
        (let line = unat (val AND 0x07); was_in_service = test_mask (isr c) line in
         (if was_in_service then Some line else None, c\<lparr>isr := clear_mask (isr c) line\<rparr>))
      else (None, c))"

record vpic =
  master :: pic8259
  slave :: pic8259

definition CASCADE_LINE :: nat where "CASCADE_LINE = 2"

definition vpic_new :: vpic where
  "vpic_new = \<lparr>master = pic8259_new 0x08, slave = pic8259_new 0x70\<rparr>"

definition vpic_raise :: "nat \<Rightarrow> vpic \<Rightarrow> vpic" where
  "vpic_raise irq p =
     (if irq < 8 then p\<lparr>master := (master p)\<lparr>irr := set_mask (irr (master p)) irq\<rparr>\<rparr>
      else if irq < 16 then p\<lparr>slave := (slave p)\<lparr>irr := set_mask (irr (slave p)) (irq - 8)\<rparr>\<rparr>
      else p)"

definition clear_request :: "nat \<Rightarrow> vpic \<Rightarrow> vpic" where
  "clear_request irq p =
     (if irq < 8 then p\<lparr>master := (master p)\<lparr>irr := clear_mask (irr (master p)) irq\<rparr>\<rparr>
      else if irq < 16 then p\<lparr>slave := (slave p)\<lparr>irr := clear_mask (irr (slave p)) (irq - 8)\<rparr>\<rparr>
      else p)"

definition is_requested :: "vpic \<Rightarrow> nat \<Rightarrow> bool" where
  "is_requested p irq =
     (if irq < 8 then test_mask (irr (master p)) irq
      else if irq < 16 then test_mask (irr (slave p)) (irq - 8)
      else False)"

definition in_service :: "vpic \<Rightarrow> nat \<Rightarrow> bool" where
  "in_service p irq =
     (if irq < 8 then test_mask (isr (master p)) irq
      else if irq < 16 then test_mask (isr (slave p)) (irq - 8)
      else False)"

definition vpic_peek :: "vpic \<Rightarrow> nat option" where
  "vpic_peek p =
     (let cascade = (if pic8259_peek (slave p) \<noteq> None then push_bit CASCADE_LINE 1 else 0);
          candidates = (irr (master p) OR cascade) AND NOT (imr (master p)) in
      case lowest_set candidates of
        None \<Rightarrow> None
      | Some win \<Rightarrow>
          (if (case lowest_set (isr (master p)) of Some svc \<Rightarrow> win \<ge> svc | None \<Rightarrow> False) then None
           else if win = CASCADE_LINE then map_option (\<lambda>s. 8 + s) (pic8259_peek (slave p))
           else Some win))"

definition has_deliverable :: "vpic \<Rightarrow> bool" where
  "has_deliverable p \<longleftrightarrow> vpic_peek p \<noteq> None"

definition vpic_ack :: "nat \<Rightarrow> vpic \<Rightarrow> vpic" where
  "vpic_ack irq p =
     (if irq < 8 then
        p\<lparr>master := (master p)\<lparr>irr := clear_mask (irr (master p)) irq, isr := set_mask (isr (master p)) irq\<rparr>\<rparr>
      else if irq < 16 then
        p\<lparr>slave := (slave p)\<lparr>irr := clear_mask (irr (slave p)) (irq - 8),
                              isr := set_mask (isr (slave p)) (irq - 8)\<rparr>,
          master := (master p)\<lparr>isr := set_mask (isr (master p)) CASCADE_LINE\<rparr>\<rparr>
      else p)"

definition master_ocw2 :: "u8 \<Rightarrow> vpic \<Rightarrow> nat option \<times> vpic" where
  "master_ocw2 val p = (case write_ocw2 val (master p) of (r, c) \<Rightarrow> (r, p\<lparr>master := c\<rparr>))"

definition slave_ocw2 :: "u8 \<Rightarrow> vpic \<Rightarrow> nat option \<times> vpic" where
  "slave_ocw2 val p =
     (case write_ocw2 val (slave p) of (r, c) \<Rightarrow> (map_option (\<lambda>line. 8 + line) r, p\<lparr>slave := c\<rparr>))"

definition set_master_imr :: "u8 \<Rightarrow> vpic \<Rightarrow> vpic" where
  "set_master_imr v p = p\<lparr>master := (master p)\<lparr>imr := v\<rparr>\<rparr>"

definition set_slave_imr :: "u8 \<Rightarrow> vpic \<Rightarrow> vpic" where
  "set_slave_imr v p = p\<lparr>slave := (slave p)\<lparr>imr := v\<rparr>\<rparr>"

definition debug_state :: "vpic \<Rightarrow> u8 \<times> u8 \<times> u8 \<times> u8 \<times> u8 \<times> u8" where
  "debug_state p = (irr (master p), isr (master p), imr (master p),
     irr (slave p), isr (slave p), imr (slave p))"

section \<open>The resolver of one chip\<close>

lemma u8_bit_less: "bit (x :: u8) i \<Longrightarrow> i < 8"
  by (drule bit_imp_le_length) simp

lemma lowest_set_Some: "lowest_set b = Some i \<longleftrightarrow> bit b i \<and> (\<forall>j<i. \<not> bit b j)"
  by (auto simp: lowest_set_def trailing_zeros_eq)

lemma lowest_set_None: "lowest_set b = None \<longleftrightarrow> (\<forall>i. \<not> bit b i)"
  by (auto simp: lowest_set_def bit_eq_iff dest: u8_bit_less)

definition chip_ready :: "pic8259 \<Rightarrow> nat \<Rightarrow> bool" where
  "chip_ready c i \<longleftrightarrow> bit (irr c) i \<and> \<not> bit (imr c) i \<and> (\<forall>s\<le>i. \<not> bit (isr c) s)"

lemma bit_unmasked: "bit (x AND NOT (m :: u8)) i \<longleftrightarrow> bit x i \<and> \<not> bit m i"
  by (auto simp: bit_and_iff bit_not_iff dest: bit_imp_le_length)

lemma lowest_set_blocks:
  "(case lowest_set b of Some svc \<Rightarrow> win \<ge> svc | None \<Rightarrow> False) \<longleftrightarrow> (\<exists>s\<le>win. bit b s)"
proof (cases "lowest_set b")
  case None
  then have "\<forall>i. \<not> bit b i" by (simp add: lowest_set_None)
  with None show ?thesis by simp
next
  case (Some svc)
  then have "bit b svc" "\<forall>j < svc. \<not> bit b j" by (simp_all add: lowest_set_Some)
  with Some show ?thesis by (auto simp: not_less [symmetric] dest: le_less_trans)
qed

lemma pic8259_peek_gate:
  "pic8259_peek c =
     (case lowest_set (irr c AND NOT (imr c)) of
        None \<Rightarrow> None
      | Some win \<Rightarrow>
          if (case lowest_set (isr c) of Some svc \<Rightarrow> win \<ge> svc | None \<Rightarrow> False) then None else Some win)"
  by (simp add: pic8259_peek_def split: option.splits)

lemma pic8259_peek_Some:
  "pic8259_peek c = Some i \<longleftrightarrow> chip_ready c i \<and> (\<forall>j<i. \<not> chip_ready c j)"
proof -
  have "pic8259_peek c = Some i \<longleftrightarrow>
      lowest_set (irr c AND NOT (imr c)) = Some i \<and> \<not> (\<exists>s\<le>i. bit (isr c) s)"
    unfolding pic8259_peek_gate lowest_set_blocks by (auto split: option.splits if_splits)
  also have "\<dots> \<longleftrightarrow> chip_ready c i \<and> (\<forall>j<i. \<not> chip_ready c j)"
    unfolding lowest_set_Some bit_unmasked chip_ready_def by auto
  finally show ?thesis .
qed

lemma first_nat: "P (i :: nat) \<Longrightarrow> \<exists>j. P j \<and> (\<forall>k<j. \<not> P k)"
  by (meson exists_least_iff)

lemma pic8259_peek_None: "pic8259_peek c = None \<longleftrightarrow> (\<forall>i. \<not> chip_ready c i)"
  using first_nat [of "chip_ready c"] by (metis not_None_eq pic8259_peek_Some)

section \<open>The cascade\<close>

text \<open>The level at which a line competes on the master, and its place in the priority chain.\<close>

definition level :: "nat \<Rightarrow> nat" where
  "level i = (if i < 8 then i else CASCADE_LINE)"

definition irq_rank :: "nat \<Rightarrow> nat" where
  "irq_rank i = (if i < 2 then i else if i < 8 then i + 7 else i - 6)"

definition priority_chain :: "nat list" where
  "priority_chain = [0, 1] @ [8..<16] @ [3..<8]"

definition unmasked :: "vpic \<Rightarrow> nat \<Rightarrow> bool" where
  "unmasked p i \<longleftrightarrow> \<not> bit (imr (master p)) (level i) \<and> (8 \<le> i \<longrightarrow> \<not> bit (imr (slave p)) (i - 8))"

definition blocked :: "vpic \<Rightarrow> nat \<Rightarrow> bool" where
  "blocked p i \<longleftrightarrow> (\<exists>s\<le>level i. bit (isr (master p)) s) \<or> (8 \<le> i \<and> (\<exists>s\<le>i - 8. bit (isr (slave p)) s))"

definition deliverable :: "vpic \<Rightarrow> nat \<Rightarrow> bool" where
  "deliverable p i \<longleftrightarrow> i \<noteq> CASCADE_LINE \<and> is_requested p i \<and> unmasked p i \<and> \<not> blocked p i"

text \<open>The master as its resolver sees it, with the slave's output on line 2.\<close>

definition master_view :: "vpic \<Rightarrow> pic8259" where
  "master_view p = (master p)\<lparr>irr := irr (master p) OR
     (if pic8259_peek (slave p) \<noteq> None then push_bit CASCADE_LINE 1 else 0)\<rparr>"

lemma vpic_peek_view:
  "vpic_peek p =
     (case pic8259_peek (master_view p) of
        None \<Rightarrow> None
      | Some win \<Rightarrow>
          if win = CASCADE_LINE then map_option (\<lambda>s. 8 + s) (pic8259_peek (slave p)) else Some win)"
  by (simp add: vpic_peek_def pic8259_peek_gate master_view_def Let_def split: option.splits)

lemma bit_master_view_irr:
  "bit (irr (master_view p)) i \<longleftrightarrow>
     bit (irr (master p)) i \<or> (i = CASCADE_LINE \<and> pic8259_peek (slave p) \<noteq> None)"
proof -
  have "bit (push_bit CASCADE_LINE 1 :: u8) i \<longleftrightarrow> i = CASCADE_LINE"
    using bit_set_mask [of "0 :: u8" CASCADE_LINE i] by (auto simp: set_mask_def CASCADE_LINE_def)
  then show ?thesis by (auto simp: master_view_def bit_or_iff)
qed

lemma master_view_fields [simp]:
  "isr (master_view p) = isr (master p)" "imr (master_view p) = imr (master p)"
  by (simp_all add: master_view_def)

lemma deliverable_master:
  "i < 8 \<Longrightarrow> i \<noteq> CASCADE_LINE \<Longrightarrow> deliverable p i \<longleftrightarrow> chip_ready (master_view p) i"
  by (auto simp: deliverable_def is_requested_def unmasked_def blocked_def level_def chip_ready_def
      bit_master_view_irr bit_tests)

lemma deliverable_slave:
  assumes "8 \<le> i"
  shows "deliverable p i \<longleftrightarrow> chip_ready (slave p) (i - 8) \<and> chip_ready (master_view p) CASCADE_LINE"
proof -
  have "pic8259_peek (slave p) \<noteq> None" if "chip_ready (slave p) (i - 8)"
    using that pic8259_peek_None by blast
  moreover have "i < 16" if "bit (irr (slave p)) (i - 8)"
    using u8_bit_less [OF that] assms by simp
  ultimately show ?thesis
    using assms
    by (auto simp: deliverable_def is_requested_def unmasked_def blocked_def level_def chip_ready_def
        bit_master_view_irr bit_tests CASCADE_LINE_def)
qed

lemma deliverable_bound: "deliverable p i \<Longrightarrow> i < 16"
  by (auto simp: deliverable_def is_requested_def split: if_splits)

lemma deliverable_not_cascade: "\<not> deliverable p 2"
  by (simp add: deliverable_def CASCADE_LINE_def)

lemma irq_rank_inj: "irq_rank i = irq_rank j \<Longrightarrow> i \<noteq> 2 \<Longrightarrow> j \<noteq> 2 \<Longrightarrow> i < 16 \<Longrightarrow> j < 16 \<Longrightarrow> i = j"
  by (auto simp: irq_rank_def split: if_splits)

lemma vpic_peek_SomeD:
  assumes "vpic_peek p = Some i"
  shows "deliverable p i \<and> (\<forall>j. deliverable p j \<longrightarrow> irq_rank i \<le> irq_rank j)"
proof -
  obtain w where w: "pic8259_peek (master_view p) = Some w"
    using assms by (auto simp: vpic_peek_view split: option.splits)
  then have ready: "chip_ready (master_view p) w" and least: "\<And>j. chip_ready (master_view p) j \<Longrightarrow> w \<le> j"
    unfolding pic8259_peek_Some by (auto simp: not_less [symmetric])
  have w8: "w < 8" using ready by (auto simp: chip_ready_def dest: u8_bit_less)
  have level: "w \<le> level j" if "deliverable p j" for j
    using that least [of "level j"] deliverable_master [of j p] deliverable_slave [of j p]
      deliverable_not_cascade [of p]
    by (cases "j < 8") (auto simp: level_def CASCADE_LINE_def)
  show ?thesis
  proof (cases "w = CASCADE_LINE")
    case False
    then have "i = w" using assms w by (simp add: vpic_peek_view)
    then have "irq_rank i \<le> irq_rank j" if "deliverable p j" for j
      using level [OF that] that w8 False by (auto simp: irq_rank_def level_def CASCADE_LINE_def split: if_splits)
    then show ?thesis using \<open>i = w\<close> ready False w8 deliverable_master by blast
  next
    case True
    then obtain s where s: "pic8259_peek (slave p) = Some s" "i = 8 + s"
      using assms w by (auto simp: vpic_peek_view)
    then have sr: "chip_ready (slave p) s" "\<And>j. chip_ready (slave p) j \<Longrightarrow> s \<le> j"
      unfolding pic8259_peek_Some by (auto simp: not_less [symmetric])
    have "s < 8" using sr(1) by (auto simp: chip_ready_def dest: u8_bit_less)
    then have "irq_rank i \<le> irq_rank j" if "deliverable p j" for j
      using level [OF that] that sr(2) [of "j - 8"] deliverable_slave [of j p] True s(2)
        deliverable_not_cascade [of p]
      by (cases "j < 8"; cases "j = 2") (auto simp: irq_rank_def level_def CASCADE_LINE_def)
    then show ?thesis using s ready sr(1) True deliverable_slave [of i p] by simp
  qed
qed

lemma vpic_peek_NoneD:
  assumes "vpic_peek p = None" and "\<not> is_requested p CASCADE_LINE"
  shows "\<not> deliverable p i"
proof
  assume d: "deliverable p i"
  have "chip_ready (master_view p) (level i)"
    using d deliverable_master [of i p] deliverable_slave [of i p] deliverable_not_cascade [of p]
    by (cases "i < 8") (auto simp: level_def CASCADE_LINE_def)
  then obtain w where w: "pic8259_peek (master_view p) = Some w" using pic8259_peek_None by blast
  then have "w = CASCADE_LINE" "pic8259_peek (slave p) = None"
    using assms(1) by (auto simp: vpic_peek_view split: if_splits)
  then show False
    using w assms(2)
    by (auto simp: pic8259_peek_Some chip_ready_def bit_master_view_irr is_requested_def bit_tests CASCADE_LINE_def)
qed

section \<open>Nested handlers\<close>

text \<open>
  A run of the machine as the controller sees it: device edges, mask writes, deliveries (\<open>peek\<close>
  committed by \<open>ack\<close>) and the end-of-interrupt writes of the running handler, which a slave line's
  handler sends to both chips. The list is the stack of handlers that have been entered and not
  yet finished.
\<close>

datatype pic_event = Raise nat | Unraise nat | Mask_master u8 | Mask_slave u8 | Deliver | Eoi

definition pic_eoi :: "nat \<Rightarrow> vpic \<Rightarrow> vpic" where
  "pic_eoi i p = snd (master_ocw2 0x20 (if 8 \<le> i then snd (slave_ocw2 0x20 p) else p))"

fun pic_step :: "pic_event \<Rightarrow> nat list \<times> vpic \<Rightarrow> nat list \<times> vpic" where
  "pic_step (Raise i) (st, p) = (st, vpic_raise i p)"
| "pic_step (Unraise i) (st, p) = (st, clear_request i p)"
| "pic_step (Mask_master v) (st, p) = (st, set_master_imr v p)"
| "pic_step (Mask_slave v) (st, p) = (st, set_slave_imr v p)"
| "pic_step Deliver (st, p) = (case vpic_peek p of None \<Rightarrow> (st, p) | Some i \<Rightarrow> (i # st, vpic_ack i p))"
| "pic_step Eoi (st, p) = (case st of [] \<Rightarrow> (st, p) | i # st' \<Rightarrow> (st', pic_eoi i p))"

definition nested :: "nat list \<times> vpic \<Rightarrow> bool" where
  "nested s \<longleftrightarrow> (case s of (st, p) \<Rightarrow>
     sorted_wrt (\<lambda>a b. level a < level b) st \<and> (\<forall>i\<in>set st. i < 16 \<and> i \<noteq> CASCADE_LINE) \<and>
     (\<forall>s. bit (isr (master p)) s \<longleftrightarrow> s \<in> level ` set st) \<and>
     (\<forall>s. bit (isr (slave p)) s \<longleftrightarrow> s + 8 \<in> set st))"

lemma nested_new: "nested ([], vpic_new)"
  by (simp add: nested_def vpic_new_def pic8259_new_def)

lemma isr_device_ops [simp]:
  "isr (master (vpic_raise i p)) = isr (master p)" "isr (slave (vpic_raise i p)) = isr (slave p)"
  "isr (master (clear_request i p)) = isr (master p)" "isr (slave (clear_request i p)) = isr (slave p)"
  "isr (master (set_master_imr v p)) = isr (master p)" "isr (slave (set_master_imr v p)) = isr (slave p)"
  "isr (master (set_slave_imr v p)) = isr (master p)" "isr (slave (set_slave_imr v p)) = isr (slave p)"
  by (simp_all add: vpic_raise_def clear_request_def set_master_imr_def set_slave_imr_def)

lemma level_less_8 [simp]: "level i < 8"
  by (simp add: level_def CASCADE_LINE_def)

lemma isr_ack:
  "i < 16 \<Longrightarrow> bit (isr (master (vpic_ack i p))) s \<longleftrightarrow> bit (isr (master p)) s \<or> s = level i"
  "i < 16 \<Longrightarrow> bit (isr (slave (vpic_ack i p))) s \<longleftrightarrow> bit (isr (slave p)) s \<or> s + 8 = i"
  by (auto simp: vpic_ack_def level_def bit_tests CASCADE_LINE_def)

lemma nested_deliver:
  assumes n: "nested (st, p)" and pk: "vpic_peek p = Some i"
  shows "nested (i # st, vpic_ack i p)"
proof -
  have d: "deliverable p i" using vpic_peek_SomeD [OF pk] by simp
  have i: "i < 16" "i \<noteq> CASCADE_LINE" using deliverable_bound [OF d] d by (simp_all add: deliverable_def)
  have "\<not> level j \<le> level i" if "j \<in> set st" for j
    using d n that by (auto simp: deliverable_def blocked_def nested_def)
  then show ?thesis using n i by (auto simp: nested_def isr_ack not_le)
qed

lemma eoi_20: "write_ocw2 0x20 c =
    (case lowest_set (isr c) of
       None \<Rightarrow> (None, c) | Some line \<Rightarrow> (Some line, c\<lparr>isr := clear_mask (isr c) line\<rparr>))"
  by (simp add: write_ocw2_def)

lemma nested_lowest:
  assumes n: "nested (i # st, p)"
  shows "lowest_set (isr (master p)) = Some (level i)"
    and "8 \<le> i \<Longrightarrow> lowest_set (isr (slave p)) = Some (i - 8)"
proof -
  show "lowest_set (isr (master p)) = Some (level i)"
    using n by (auto simp: nested_def lowest_set_Some dest: less_asym)
  have "j = i" if "j \<in> set (i # st)" "8 \<le> j" "8 \<le> i" for j
    using n that by (auto simp: nested_def level_def)
  then have "s + 8 = i" if "bit (isr (slave p)) s" "8 \<le> i" for s
    using n that by (auto simp: nested_def)
  moreover have "bit (isr (slave p)) (i - 8)" if "8 \<le> i"
    using n that by (simp add: nested_def)
  ultimately show "lowest_set (isr (slave p)) = Some (i - 8)" if "8 \<le> i"
    using that by (fastforce simp: lowest_set_Some)
qed

lemma isr_eoi:
  assumes n: "nested (i # st, p)"
  shows "bit (isr (master (pic_eoi i p))) s \<longleftrightarrow> bit (isr (master p)) s \<and> s \<noteq> level i"
    and "bit (isr (slave (pic_eoi i p))) s \<longleftrightarrow> bit (isr (slave p)) s \<and> s + 8 \<noteq> i"
  using nested_lowest [OF n]
  by (auto simp: pic_eoi_def master_ocw2_def slave_ocw2_def eoi_20 bit_tests)

lemma nested_eoi:
  assumes n: "nested (i # st, p)"
  shows "nested (st, pic_eoi i p)"
proof -
  have "level j \<noteq> level i" if "j \<in> set st" for j using n that by (auto simp: nested_def)
  then have "i \<notin> set st" by blast
  then show ?thesis using n \<open>\<And>j. j \<in> set st \<Longrightarrow> level j \<noteq> level i\<close>
    by (auto simp: nested_def isr_eoi [OF n])
qed

lemma nested_step: "nested s \<Longrightarrow> nested (pic_step e s)"
proof (cases s)
  case (Pair st p)
  assume "nested s"
  with Pair show ?thesis
    by (cases e) (auto simp: nested_deliver nested_eoi split: option.splits list.splits, auto simp: nested_def)
qed

lemma nested_run: "nested s \<Longrightarrow> nested (fold pic_step es s)"
  by (induction es arbitrary: s) (simp_all add: nested_step)

section \<open>Draining pending requests\<close>

text \<open>Delivery and end of interrupt, repeated at most \<open>n\<close> times.\<close>

fun pic_service :: "nat \<Rightarrow> vpic \<Rightarrow> nat list \<times> vpic" where
  "pic_service 0 p = ([], p)"
| "pic_service (Suc n) p =
     (case vpic_peek p of
        None \<Rightarrow> ([], p)
      | Some i \<Rightarrow> map_prod ((#) i) id (pic_service n (pic_eoi i (vpic_ack i p))))"

definition quiet :: "vpic \<Rightarrow> bool" where
  "quiet p \<longleftrightarrow> isr (master p) = 0 \<and> isr (slave p) = 0 \<and> \<not> is_requested p CASCADE_LINE"

definition ready :: "vpic \<Rightarrow> nat \<Rightarrow> bool" where
  "ready p i \<longleftrightarrow> is_requested p i \<and> unmasked p i"

lemma clear_set_mask_0: "clear_mask (set_mask 0 i) i = (0 :: u8)"
  by (rule bit_word_eqI) (auto simp: bit_tests)

lemma lowest_set_single: "i < 8 \<Longrightarrow> lowest_set (set_mask 0 i) = Some i"
  by (auto simp: lowest_set_Some bit_tests)

lemma ack_eoi:
  assumes "quiet p" and "i < 16"
  shows "pic_eoi i (vpic_ack i p) = clear_request i p"
  using assms
  by (auto simp: pic_eoi_def vpic_ack_def clear_request_def master_ocw2_def slave_ocw2_def eoi_20 quiet_def
      lowest_set_single clear_set_mask_0 CASCADE_LINE_def intro!: vpic.equality pic8259.equality)

lemma quiet_clear: "quiet p \<Longrightarrow> quiet (clear_request i p)"
  by (auto simp: quiet_def is_requested_def clear_request_def bit_tests CASCADE_LINE_def)

lemma ready_clear: "i < 16 \<Longrightarrow> ready (clear_request i p) = (\<lambda>j. ready p j \<and> j \<noteq> i)"
  by (rule ext) (auto simp: ready_def is_requested_def unmasked_def clear_request_def bit_tests)

lemma quiet_deliverable: "quiet p \<Longrightarrow> deliverable p i \<longleftrightarrow> ready p i"
  by (auto simp: quiet_def deliverable_def ready_def blocked_def)

lemma chain_sorted: "sorted_wrt (\<lambda>a b. irq_rank a < irq_rank b) priority_chain"
  by (simp add: priority_chain_def irq_rank_def upt_rec)

lemma chain_set: "i \<in> set priority_chain \<longleftrightarrow> i < 16 \<and> i \<noteq> CASCADE_LINE"
  unfolding priority_chain_def CASCADE_LINE_def set_append set_upt by auto

lemma filter_first:
  fixes r :: "'a \<Rightarrow> nat"
  assumes "sorted_wrt (\<lambda>a b. r a < r b) xs" and "i \<in> set xs" and "P i"
    and "\<And>j. j \<in> set xs \<Longrightarrow> P j \<Longrightarrow> r i \<le> r j"
  shows "filter P xs = i # filter (\<lambda>j. P j \<and> j \<noteq> i) xs"
  using assms
proof (induction xs)
  case Nil
  then show ?case by simp
next
  case (Cons x xs)
  show ?case
  proof (cases "x = i")
    case True
    then have "i \<notin> set xs" using Cons.prems(1) by auto
    then have "filter P xs = filter (\<lambda>j. P j \<and> j \<noteq> i) xs" by (intro filter_cong) auto
    with True Cons.prems(3) show ?thesis by simp
  next
    case False
    then have "i \<in> set xs" using Cons.prems(2) by simp
    then have "\<not> P x" using Cons.prems(1,4) by (fastforce simp: not_le [symmetric])
    with Cons False \<open>i \<in> set xs\<close> show ?thesis by simp
  qed
qed

lemma quiet_peek:
  assumes q: "quiet p"
  shows "filter (ready p) priority_chain =
    (case vpic_peek p of None \<Rightarrow> [] | Some i \<Rightarrow> i # filter (ready (clear_request i p)) priority_chain)"
proof (cases "vpic_peek p")
  case None
  then have "\<not> ready p i" for i
    using vpic_peek_NoneD [OF None, of i] q by (simp add: quiet_deliverable) (simp add: quiet_def)
  with None show ?thesis by simp
next
  case (Some i)
  note best = vpic_peek_SomeD [OF Some]
  then have i: "i < 16" "i \<noteq> CASCADE_LINE" using deliverable_bound by (auto simp: deliverable_def)
  have "filter (ready p) priority_chain = i # filter (\<lambda>j. ready p j \<and> j \<noteq> i) priority_chain"
    using best i by (intro filter_first [OF chain_sorted]) (auto simp: chain_set quiet_deliverable [OF q])
  with Some show ?thesis by (simp add: ready_clear [OF i(1)])
qed

lemma pic_service_drains:
  assumes "quiet p" and "length (filter (ready p) priority_chain) \<le> n"
  shows "fst (pic_service n p) = filter (ready p) priority_chain"
    and "filter (ready (snd (pic_service n p))) priority_chain = []"
  using assms
proof (induction n arbitrary: p)
  case 0
  case 1
  then show ?case by simp
next
  case 0
  case 2
  then show ?case by simp
next
  case (Suc n)
  {
    case 1
    then show ?case
      using Suc.IH(1) [of "clear_request i p" for i] quiet_peek [OF 1(1)] vpic_peek_SomeD [of p] deliverable_bound
      by (auto simp: ack_eoi quiet_clear split: option.splits)
  next
    case 2
    then show ?case
      using Suc.IH(2) [of "clear_request i p" for i] quiet_peek [OF 2(1)] vpic_peek_SomeD [of p] deliverable_bound
      by (auto simp: ack_eoi quiet_clear split: option.splits)
  }
qed

section \<open>Properties\<close>

text \<open>
  The cascaded resolver implements the documented priority chain IRQ0 > IRQ1 > IRQ8..15 >
  IRQ3..7: as long as nobody raises the cascade line itself, \<^verbatim>\<open>peek\<close> returns a line exactly when
  it is the best ranked of the lines that are requested, unmasked (a slave line also through the
  master's bit 2) and not blocked by an equal or higher level in service, and it returns none only
  when there is no such line.
\<close>

theorem vpic_priority:
  assumes "\<not> is_requested p CASCADE_LINE"
  shows "(vpic_peek p = Some i \<longleftrightarrow>
       deliverable p i \<and> (\<forall>j. deliverable p j \<longrightarrow> irq_rank i \<le> irq_rank j)) \<and>
     (vpic_peek p = None \<longleftrightarrow> (\<forall>j. \<not> deliverable p j))"
proof -
  have none: "vpic_peek p = None \<longleftrightarrow> (\<forall>j. \<not> deliverable p j)"
    using vpic_peek_NoneD [OF _ assms] vpic_peek_SomeD [of p] by (metis not_None_eq)
  have "vpic_peek p = Some i" if best: "deliverable p i" "\<forall>j. deliverable p j \<longrightarrow> irq_rank i \<le> irq_rank j"
  proof -
    obtain k where k: "vpic_peek p = Some k" using none best(1) by blast
    then have "deliverable p k" "irq_rank k = irq_rank i"
      using vpic_peek_SomeD [OF k] best by (auto intro: antisym)
    then show ?thesis
      using k best(1) irq_rank_inj [of k i] deliverable_bound deliverable_not_cascade by metis
  qed
  then show ?thesis using none vpic_peek_SomeD [of p i] by blast
qed

lemma priority_example:
  defines "p \<equiv> vpic_raise 3 (vpic_raise 12 vpic_new)"
  shows "\<not> is_requested p CASCADE_LINE" and "vpic_peek p = Some 12" and "deliverable p 3"
  unfolding p_def
  by (code_simp, code_simp,
      auto simp: deliverable_def is_requested_def unmasked_def blocked_def level_def vpic_raise_def vpic_new_def
        pic8259_new_def bit_tests CASCADE_LINE_def)

theorem vpic_priority_witness:
  "irq_rank 12 \<le> irq_rank 3 \<and> deliverable (vpic_raise 3 (vpic_raise 12 vpic_new)) 12"
  using vpic_priority [OF priority_example(1), of 12] priority_example(2,3) by blast

text \<open>
  C10. Handlers nest as a stack of strictly rising priority. From power-on, through any sequence
  of device edges, mask writes, deliveries and end-of-interrupts: the unfinished handlers have
  pairwise different master levels, the newest the best; the in-service registers hold exactly
  those handlers (and the cascade bit for a slave line); and the non-specific EOI the newest
  handler sends retires exactly its own line, on the slave too if it is a slave line.
\<close>

theorem vpic_nesting:
  assumes "fold pic_step es ([], vpic_new) = (st, p)"
  shows "sorted_wrt (\<lambda>a b. level a < level b) st \<and>
     (\<forall>i. in_service p i \<longleftrightarrow> i \<in> set st \<or> (i = CASCADE_LINE \<and> (\<exists>j\<in>set st. 8 \<le> j))) \<and>
     (\<forall>i st'. st = i # st' \<longrightarrow>
        fst (master_ocw2 0x20 p) = Some (level i) \<and> (8 \<le> i \<longrightarrow> fst (slave_ocw2 0x20 p) = Some i))"
proof -
  have n: "nested (st, p)" using nested_run [OF nested_new, of es] assms by simp
  have "in_service p i \<longleftrightarrow> i \<in> set st \<or> (i = CASCADE_LINE \<and> (\<exists>j\<in>set st. 8 \<le> j))" for i
    using n by (auto simp: nested_def in_service_def level_def bit_tests CASCADE_LINE_def image_iff)
      (metis not_less)
  moreover have "fst (master_ocw2 0x20 p) = Some (level i) \<and> (8 \<le> i \<longrightarrow> fst (slave_ocw2 0x20 p) = Some i)"
    if "st = i # st'" for i st'
    using nested_lowest [of i st' p] n that by (auto simp: master_ocw2_def slave_ocw2_def eoi_20)
  ultimately show ?thesis using n by (simp add: nested_def)
qed

theorem vpic_nesting_witness:
  "\<exists>p. fold pic_step [Raise 12, Deliver, Raise 3, Raise 1, Deliver, Deliver] ([], vpic_new) = ([1, 12], p) \<and>
     sorted_wrt (\<lambda>a b. level a < level b) [1, 12] \<and> fst (master_ocw2 0x20 p) = Some 1"
proof -
  let ?es = "[Raise 12, Deliver, Raise 3, Raise 1, Deliver, Deliver]"
  have st: "fst (fold pic_step ?es ([], vpic_new)) = [1, 12]" by code_simp
  then obtain p where p: "fold pic_step ?es ([], vpic_new) = ([1, 12], p)" by (metis prod.collapse)
  show ?thesis using vpic_nesting [OF p] p by (intro exI [of _ p]) (simp add: level_def)
qed

text \<open>
  C24. No request is lost and service follows the chain: with nothing in service, fifteen rounds
  of delivery and end-of-interrupt serve exactly the requested unmasked lines, each once and in
  the order of the priority chain, and leave no such line pending.
\<close>

theorem vpic_drain:
  assumes "isr (master p) = 0" and "isr (slave p) = 0" and "\<not> is_requested p CASCADE_LINE"
  shows "fst (pic_service 15 p) = filter (\<lambda>i. is_requested p i \<and> unmasked p i) priority_chain \<and>
     filter (\<lambda>i. is_requested (snd (pic_service 15 p)) i \<and> unmasked (snd (pic_service 15 p)) i)
       priority_chain = []"
proof -
  have "length (filter (ready p) priority_chain) \<le> 15"
    using length_filter_le [of "ready p" priority_chain] by (simp add: priority_chain_def)
  then show ?thesis
    using pic_service_drains [of p 15] assms by (simp add: quiet_def ready_def [abs_def])
qed

theorem vpic_drain_witness:
  "fst (pic_service 15 (vpic_raise 3 (vpic_raise 12 vpic_new))) = [12, 3]"
  using vpic_drain [of "vpic_raise 3 (vpic_raise 12 vpic_new)"]
  by (simp add: priority_example(1)) (simp add: vpic_raise_def vpic_new_def pic8259_new_def
      priority_chain_def is_requested_def unmasked_def level_def bit_tests CASCADE_LINE_def upt_rec)

end
