(* ===== verification/NsClock.thy ===== *)
theory NsClock
  imports Prelude
begin

text \<open>
  The contract of a fractional accumulator that turns host nanoseconds into device cycles, as
  the virtual PIT (\<^verbatim>\<open>sync_at\<close>) and the virtual RTC (\<^verbatim>\<open>take_pending_irqs\<close>) both keep one: the time last
  seen, the fraction of a cycle owed in units of a nanosecond, and a step that returns the whole
  cycles elapsed. The lemmas show that the cycles returned over any sequence of polls depend only
  on the latest time polled: no polling pattern gains or loses a cycle.

  The step is exact while two polls are at most \<open>MAX_GAP\<close> nanoseconds (1000 seconds) apart; the
  saturating arithmetic of the code loses time only on far longer gaps.
\<close>

definition MAX_GAP :: nat where "MAX_GAP = 10 ^ 12"

definition NANOS_PER_SECOND :: u64 where "NANOS_PER_SECOND = 1000000000"

lemma unat_NANOS [simp]: "unat NANOS_PER_SECOND = 10 ^ 9"
  by (simp add: NANOS_PER_SECOND_def)

text \<open>Polls whose times advance by at most \<open>MAX_GAP\<close> over the latest time seen.\<close>

fun gaps_ok :: "nat \<Rightarrow> u64 list \<Rightarrow> bool" where
  "gaps_ok t [] = True"
| "gaps_ok t (x # xs) \<longleftrightarrow> unat x \<le> t + MAX_GAP \<and> gaps_ok (max t (unat x)) xs"

definition latest :: "nat \<Rightarrow> u64 list \<Rightarrow> nat" where
  "latest t xs = fold (\<lambda>x. max (unat x)) xs t"

lemma latest_Nil [simp]: "latest t [] = t"
  and latest_Cons [simp]: "latest t (x # xs) = latest (max t (unat x)) xs"
  by (simp_all add: latest_def max.commute)

lemma latest_ge: "t \<le> latest t xs"
  by (induction xs arbitrary: t) (auto intro: le_trans [OF max.cobounded1])

fun poll_sum :: "(u64 \<Rightarrow> 's \<Rightarrow> nat \<times> 's) \<Rightarrow> u64 list \<Rightarrow> 's \<Rightarrow> nat \<times> 's" where
  "poll_sum adv [] s = (0, s)"
| "poll_sum adv (t # ts) s = (case adv t s of (c, s') \<Rightarrow> map_prod ((+) c) id (poll_sum adv ts s'))"

locale ns_clock =
  fixes last_ns :: "'s \<Rightarrow> nat" and frac :: "'s \<Rightarrow> nat" and hz :: "'s \<Rightarrow> nat"
    and ok :: "'s \<Rightarrow> bool" and advance :: "u64 \<Rightarrow> 's \<Rightarrow> nat \<times> 's"
  assumes frac_less: "ok s \<Longrightarrow> frac s < 10 ^ 9"
    and advance_law: "ok s \<Longrightarrow> unat t \<le> last_ns s + MAX_GAP \<Longrightarrow> advance t s = (c, s') \<Longrightarrow>
      ok s' \<and> hz s' = hz s \<and> last_ns s' = max (last_ns s) (unat t) \<and>
      c * 10 ^ 9 + frac s' = frac s + (unat t - last_ns s) * hz s"
begin

lemma polls_exact:
  "ok s \<Longrightarrow> gaps_ok (last_ns s) ts \<Longrightarrow> poll_sum advance ts s = (c, s') \<Longrightarrow>
     ok s' \<and> hz s' = hz s \<and> last_ns s' = latest (last_ns s) ts \<and>
     c * 10 ^ 9 + frac s' = frac s + (latest (last_ns s) ts - last_ns s) * hz s"
proof (induction ts arbitrary: s c)
  case Nil
  then show ?case by simp
next
  case (Cons t ts)
  obtain c1 s1 where s1: "advance t s = (c1, s1)" by (cases "advance t s")
  obtain c2 where c2: "poll_sum advance ts s1 = (c2, s')" "c = c1 + c2"
    using Cons.prems(3) s1 by (cases "poll_sum advance ts s1") auto
  note step = advance_law [OF Cons.prems(1) _ s1]
  have st: "ok s1" "hz s1 = hz s" "last_ns s1 = max (last_ns s) (unat t)"
    "c1 * 10 ^ 9 + frac s1 = frac s + (unat t - last_ns s) * hz s"
    using step Cons.prems(2) by auto
  let ?l = "latest (max (last_ns s) (unat t)) ts"
  have ih: "ok s'" "hz s' = hz s" "last_ns s' = ?l"
    "c2 * 10 ^ 9 + frac s' = frac s1 + (?l - max (last_ns s) (unat t)) * hz s"
    using Cons.IH [OF st(1) _ c2(1)] Cons.prems(2) st(2,3) by auto
  have "max (last_ns s) (unat t) \<le> ?l" by (rule latest_ge)
  then have "?l - last_ns s = (?l - max (last_ns s) (unat t)) + (unat t - last_ns s)" by auto
  then have "(?l - last_ns s) * hz s = (?l - max (last_ns s) (unat t)) * hz s + (unat t - last_ns s) * hz s"
    by (simp add: distrib_right)
  then show ?case using ih st(4) c2(2) by (simp add: distrib_right)
qed

lemma polls_count:
  assumes "ok s" and "gaps_ok (last_ns s) ts"
  shows "fst (poll_sum advance ts s) =
    (frac s + (latest (last_ns s) ts - last_ns s) * hz s) div 10 ^ 9"
proof -
  obtain c s' where p: "poll_sum advance ts s = (c, s')" by (cases "poll_sum advance ts s")
  then have e: "c * 10 ^ 9 + frac s' = frac s + (latest (last_ns s) ts - last_ns s) * hz s"
    and "frac s' < 10 ^ 9"
    using polls_exact [OF assms p] frac_less by auto
  then have "c = (c * 10 ^ 9 + frac s') div 10 ^ 9" by simp
  with e p show ?thesis by simp
qed

end

text \<open>One step of the accumulator arithmetic, in the saturating operations the code uses.\<close>

lemma accumulate_exact:
  fixes fr delta r :: u64
  assumes "unat fr < 10 ^ 9" and "unat delta \<le> MAX_GAP" and "unat r \<le> 2000000"
  defines "tot \<equiv> saturating_add fr (saturating_mul delta r)"
  shows "unat (tot div NANOS_PER_SECOND) * 10 ^ 9 + unat (tot mod NANOS_PER_SECOND) =
      unat fr + unat delta * unat r"
    and "unat (tot mod NANOS_PER_SECOND) < 10 ^ 9"
    and "unat (tot div NANOS_PER_SECOND) \<le> 2000000001"
proof -
  have "unat delta * unat r \<le> 10 ^ 12 * 2000000"
    using assms by (intro mult_mono) (simp_all add: MAX_GAP_def)
  then have t: "unat tot = unat fr + unat delta * unat r" "unat tot < 2000000001 * 10 ^ 9"
    using assms(1) by (simp_all add: tot_def rust_arith)
  show "unat (tot div NANOS_PER_SECOND) * 10 ^ 9 + unat (tot mod NANOS_PER_SECOND) =
      unat fr + unat delta * unat r"
    unfolding t(1) [symmetric] by (simp add: unat_div unat_mod)
  show "unat (tot mod NANOS_PER_SECOND) < 10 ^ 9" by (simp add: unat_mod)
  show "unat (tot div NANOS_PER_SECOND) \<le> 2000000001"
    using t(2) by (simp add: unat_div)
qed

end
