(* ===== verification/Vpit.thy ===== *)
theory Vpit
  imports NsClock
begin

text \<open>
  \<^verbatim>\<open>kernel/src/kernel/dos/machine/vpit.rs\<close>: the virtual 8253 timer. A channel's times are counted in
  PIT input cycles; the host clock (\<^verbatim>\<open>machine.now()\<close>) is the argument \<open>now_ns\<close> of each operation.
  The periodic IRQ loop of \<^verbatim>\<open>take_irqs\<close> is a partial function, since it does not end when the cycle
  counter has saturated; \<open>irq_loop_periodic\<close> gives its result at every other time.

  The host clock is an instance of theory NsClock (interpretation \<open>pitclk\<close>).
\<close>

definition PIT_INPUT_HZ :: u64 where "PIT_INPUT_HZ = 1193182"

record pit_channel =
  reload :: u16
  rw_mode :: u8
  mode :: u8
  write_lsb :: "u8 option"
  read_lsb_next :: bool
  latched :: "u16 option"
  latch_lsb_next :: bool
  start_cycle :: u64
  next_irq_cycle :: u64
  enabled :: bool

definition pit_channel_new :: pit_channel where
  "pit_channel_new = \<lparr>reload = 0, rw_mode = 3, mode = 3, write_lsb = None, read_lsb_next = True,
     latched = None, latch_lsb_next = True, start_cycle = 0, next_irq_cycle = 0, enabled = True\<rparr>"

definition divisor :: "pit_channel \<Rightarrow> u64" where
  "divisor c = (if reload c = 0 then 65536 else ucast (reload c))"

definition current_count :: "u64 \<Rightarrow> pit_channel \<Rightarrow> u16" where
  "current_count now c =
     (if \<not> enabled c then reload c
      else let div' = divisor c; elapsed = saturating_sub now (start_cycle c);
               raw = (if mode c = 2 \<or> mode c = 3 then
                        let pos = elapsed mod div'; remaining = div' - pos in
                        if remaining = div' then div' else remaining
                      else saturating_sub div' elapsed) in
           ucast raw)"

definition latch_count :: "u64 \<Rightarrow> pit_channel \<Rightarrow> pit_channel" where
  "latch_count now c = c\<lparr>latched := Some (current_count now c), latch_lsb_next := True\<rparr>"

definition read_byte :: "u64 \<Rightarrow> pit_channel \<Rightarrow> u8 \<times> pit_channel" where
  "read_byte now c =
     (case latched c of
        Some l \<Rightarrow>
          (if latch_lsb_next c then (ucast l, c\<lparr>latch_lsb_next := False\<rparr>)
           else (ucast (drop_bit 8 l), c\<lparr>latched := None, latch_lsb_next := True\<rparr>))
      | None \<Rightarrow>
          (let count = current_count now c in
           if rw_mode c = 1 then (ucast count, c)
           else if rw_mode c = 2 then (ucast (drop_bit 8 count), c)
           else (if read_lsb_next c then ucast count else ucast (drop_bit 8 count),
                 c\<lparr>read_lsb_next := \<not> read_lsb_next c\<rparr>)))"

definition load_count :: "u16 \<Rightarrow> u64 \<Rightarrow> pit_channel \<Rightarrow> pit_channel" where
  "load_count raw now c =
     (let c1 = c\<lparr>reload := raw, write_lsb := None, read_lsb_next := True, latched := None,
                 latch_lsb_next := True, start_cycle := now, enabled := True\<rparr> in
      c1\<lparr>next_irq_cycle := saturating_add now (divisor c1)\<rparr>)"

definition write_byte :: "u8 \<Rightarrow> u64 \<Rightarrow> pit_channel \<Rightarrow> pit_channel" where
  "write_byte val now c =
     (if rw_mode c = 1 then load_count (ucast val) now c
      else if rw_mode c = 2 then load_count (push_bit 8 (ucast val)) now c
      else (case write_lsb c of
              Some lo \<Rightarrow> load_count (push_bit 8 (ucast val) OR ucast lo) now (c\<lparr>write_lsb := None\<rparr>)
            | None \<Rightarrow> c\<lparr>write_lsb := Some val\<rparr>))"

definition set_command :: "u8 \<Rightarrow> u8 \<Rightarrow> pit_channel \<Rightarrow> pit_channel" where
  "set_command rw md c =
     c\<lparr>rw_mode := rw, mode := (if md = 6 then 2 else if md = 7 then 3 else md AND 0x07),
       write_lsb := None, read_lsb_next := True\<rparr>"

definition pit_output :: "u64 \<Rightarrow> pit_channel \<Rightarrow> bool" where
  "pit_output now c =
     (if \<not> enabled c then True
      else let div' = divisor c; elapsed = saturating_sub now (start_cycle c) in
           if mode c = 2 then elapsed mod div' \<noteq> div' - 1
           else if mode c = 3 then elapsed mod div' < div' div 2
           else elapsed \<ge> div')"

partial_function (option) irq_loop :: "u64 \<Rightarrow> u64 \<Rightarrow> u32 \<Rightarrow> u64 \<Rightarrow> (u32 \<times> u64) option" where
  "irq_loop div' now count next =
     (if now \<ge> next then irq_loop div' now (saturating_add count 1) (saturating_add next div')
      else Some (count, next))"

declare irq_loop.simps [code]

definition take_irqs :: "u64 \<Rightarrow> pit_channel \<Rightarrow> (u32 \<times> pit_channel) option" where
  "take_irqs now c =
     (if \<not> enabled c then Some (0, c)
      else if mode c = 2 \<or> mode c = 3 then
        (case irq_loop (divisor c) now 0 (next_irq_cycle c) of
           None \<Rightarrow> None
         | Some (count, next) \<Rightarrow> Some (count, c\<lparr>next_irq_cycle := next\<rparr>))
      else if now \<ge> next_irq_cycle c then Some (1, c\<lparr>enabled := False\<rparr>)
      else Some (0, c))"

record vpit =
  last_host_ns :: u64
  frac_accum :: u64
  input_cycles :: u64
  ch0 :: pit_channel
  ch2 :: pit_channel

definition vpit_new :: "u64 \<Rightarrow> vpit" where
  "vpit_new now_ns = \<lparr>last_host_ns = now_ns, frac_accum = 0, input_cycles = 0,
     ch0 = pit_channel_new, ch2 = pit_channel_new\<rparr>"

text \<open>\<^verbatim>\<open>chan\<close> hands out a mutable reference: reading it and writing it back are \<open>chan\<close> and \<open>set_chan\<close>.\<close>

definition chan :: "u8 \<Rightarrow> vpit \<Rightarrow> pit_channel option" where
  "chan channel p = (if channel = 0 then Some (ch0 p) else if channel = 2 then Some (ch2 p) else None)"

definition set_chan :: "u8 \<Rightarrow> pit_channel \<Rightarrow> vpit \<Rightarrow> vpit" where
  "set_chan channel c p =
     (if channel = 0 then p\<lparr>ch0 := c\<rparr> else if channel = 2 then p\<lparr>ch2 := c\<rparr> else p)"

definition sync_at :: "u64 \<Rightarrow> vpit \<Rightarrow> vpit" where
  "sync_at now p =
     (let delta_ns = saturating_sub now (last_host_ns p) in
      if delta_ns = 0 then p
      else let sum = saturating_add (frac_accum p) (saturating_mul delta_ns PIT_INPUT_HZ) in
           p\<lparr>last_host_ns := now,
             input_cycles := saturating_add (input_cycles p) (sum div NANOS_PER_SECOND),
             frac_accum := sum mod NANOS_PER_SECOND\<rparr>)"

definition read_counter :: "u64 \<Rightarrow> u8 \<Rightarrow> vpit \<Rightarrow> u8 \<times> vpit" where
  "read_counter now_ns channel p =
     (let p = sync_at now_ns p in
      case chan channel p of
        None \<Rightarrow> (0, p)
      | Some c \<Rightarrow> (case read_byte (input_cycles p) c of (v, c') \<Rightarrow> (v, set_chan channel c' p)))"

definition write_counter :: "u64 \<Rightarrow> u8 \<Rightarrow> u8 \<Rightarrow> vpit \<Rightarrow> vpit" where
  "write_counter now_ns channel val p =
     (let p = sync_at now_ns p in
      case chan channel p of
        None \<Rightarrow> p
      | Some c \<Rightarrow> set_chan channel (write_byte val (input_cycles p) c) p)"

definition write_command :: "u64 \<Rightarrow> u8 \<Rightarrow> vpit \<Rightarrow> vpit" where
  "write_command now_ns val p =
     (let p = sync_at now_ns p; channel = drop_bit 6 val AND 0x03; rw = drop_bit 4 val AND 0x03 in
      case chan channel p of
        None \<Rightarrow> p
      | Some c \<Rightarrow>
          if rw = 0 then set_chan channel (latch_count (input_cycles p) c) p
          else set_chan channel (set_command rw (drop_bit 1 val AND 0x07) c) p)"

definition ch2_reload :: "vpit \<Rightarrow> u16" where
  "ch2_reload p = reload (ch2 p)"

definition ch2_output :: "u64 \<Rightarrow> vpit \<Rightarrow> bool \<times> vpit" where
  "ch2_output now_ns p = (let p = sync_at now_ns p in (pit_output (input_cycles p) (ch2 p), p))"

definition take_pending_irqs :: "u64 \<Rightarrow> vpit \<Rightarrow> (u32 \<times> vpit) option" where
  "take_pending_irqs now_ns p =
     (let p = sync_at now_ns p in
      case take_irqs (input_cycles p) (ch0 p) of
        None \<Rightarrow> None
      | Some (n, c) \<Rightarrow> Some (n, p\<lparr>ch0 := c\<rparr>))"

definition pit_debug_state :: "vpit \<Rightarrow> bool \<times> u8 \<times> u16 \<times> u64 \<times> u64" where
  "pit_debug_state p =
     (enabled (ch0 p), mode (ch0 p), reload (ch0 p), input_cycles p, next_irq_cycle (ch0 p))"

section \<open>The input clock\<close>

definition pit_ok :: "vpit \<Rightarrow> bool" where
  "pit_ok p \<longleftrightarrow> unat (frac_accum p) < 10 ^ 9 \<and>
     unat (input_cycles p) * 10 ^ 9 + unat (frac_accum p) \<le> unat (last_host_ns p) * 1193182"

definition pit_advance :: "u64 \<Rightarrow> vpit \<Rightarrow> nat \<times> vpit" where
  "pit_advance t p = (unat (input_cycles (sync_at t p)) - unat (input_cycles p), sync_at t p)"

lemma pit_ok_new: "pit_ok (vpit_new t)"
  by (simp add: pit_ok_def vpit_new_def)

lemma unat_HZ [simp]: "unat PIT_INPUT_HZ = 1193182"
  by (simp add: PIT_INPUT_HZ_def)

lemma pit_ok_cycles: "pit_ok p \<Longrightarrow> unat (input_cycles p) < 2 ^ 55"
proof -
  assume "pit_ok p"
  then have "unat (input_cycles p) * 10 ^ 9 \<le> unat (last_host_ns p) * 1193182" by (simp add: pit_ok_def)
  also have "\<dots> < 2 ^ 64 * 1193182" using unsigned_less [of "last_host_ns p"] by simp
  finally show ?thesis by simp
qed

lemma sync_at_exact:
  assumes ok: "pit_ok p" and gap: "unat t \<le> unat (last_host_ns p) + MAX_GAP"
  defines "p' \<equiv> sync_at t p"
  shows "unat (last_host_ns p') = max (unat (last_host_ns p)) (unat t)"
    and "unat (input_cycles p') * 10 ^ 9 + unat (frac_accum p') =
      unat (input_cycles p) * 10 ^ 9 + unat (frac_accum p) + (unat t - unat (last_host_ns p)) * 1193182"
    and "unat (frac_accum p') < 10 ^ 9"
    and "unat (input_cycles p) \<le> unat (input_cycles p')"
    and "unat (input_cycles p') \<le> unat (input_cycles p) + 2000000001"
proof -
  let ?d = "saturating_sub t (last_host_ns p)"
  have d: "unat ?d = unat t - unat (last_host_ns p)" by (simp add: rust_arith)
  have fr: "unat (frac_accum p) < 10 ^ 9" using ok by (simp add: pit_ok_def)
  let ?sum = "saturating_add (frac_accum p) (saturating_mul ?d PIT_INPUT_HZ)"
  have dg: "unat ?d \<le> MAX_GAP" using gap d by simp
  note acc = accumulate_exact [OF fr dg, of PIT_INPUT_HZ, simplified]
  have cyc: "unat (saturating_add (input_cycles p) (?sum div NANOS_PER_SECOND)) =
      unat (input_cycles p) + unat (?sum div NANOS_PER_SECOND)"
    using acc(3) pit_ok_cycles [OF ok] by (simp add: rust_arith)
  consider "?d = 0" | "?d \<noteq> 0" by blast
  then have "unat (last_host_ns p') = max (unat (last_host_ns p)) (unat t) \<and>
      unat (input_cycles p') * 10 ^ 9 + unat (frac_accum p') =
        unat (input_cycles p) * 10 ^ 9 + unat (frac_accum p) + unat ?d * 1193182 \<and>
      unat (frac_accum p') < 10 ^ 9 \<and> unat (input_cycles p) \<le> unat (input_cycles p') \<and>
      unat (input_cycles p') \<le> unat (input_cycles p) + 2000000001"
  proof cases
    case 1
    then have "unat ?d = 0" by simp
    then show ?thesis using 1 fr d by (simp add: p'_def sync_at_def)
  next
    case 2
    then have "unat ?d \<noteq> 0" by (simp add: unat_eq_0)
    then show ?thesis using 2 acc cyc d by (simp add: p'_def sync_at_def Let_def distrib_right)
  qed
  then show "unat (last_host_ns p') = max (unat (last_host_ns p)) (unat t)"
    and "unat (input_cycles p') * 10 ^ 9 + unat (frac_accum p') =
      unat (input_cycles p) * 10 ^ 9 + unat (frac_accum p) + (unat t - unat (last_host_ns p)) * 1193182"
    and "unat (frac_accum p') < 10 ^ 9"
    and "unat (input_cycles p) \<le> unat (input_cycles p')"
    and "unat (input_cycles p') \<le> unat (input_cycles p) + 2000000001"
    by (simp_all add: d)
qed

lemma sync_at_ok:
  assumes "pit_ok p" and "unat t \<le> unat (last_host_ns p) + MAX_GAP"
  shows "pit_ok (sync_at t p)"
proof -
  have "unat (input_cycles p) * 10 ^ 9 + unat (frac_accum p) + (unat t - unat (last_host_ns p)) * 1193182 \<le>
      max (unat (last_host_ns p)) (unat t) * 1193182"
    using assms(1) by (cases "unat t \<le> unat (last_host_ns p)") (auto simp: pit_ok_def max_def diff_mult_distrib)
  then show ?thesis using sync_at_exact [OF assms] by (simp add: pit_ok_def)
qed

interpretation pitclk: ns_clock "\<lambda>p. unat (last_host_ns p)" "\<lambda>p. unat (frac_accum p)" "\<lambda>_. 1193182"
  pit_ok pit_advance
proof (unfold_locales, goal_cases)
  case (1 s)
  then show ?case by (simp add: pit_ok_def)
next
  case (2 s t c s')
  then show ?case
    using sync_at_exact [OF 2(1,2)] sync_at_ok [OF 2(1,2)]
    by (auto simp: pit_advance_def diff_mult_distrib)
qed

lemma sync_at_channels [simp]: "ch0 (sync_at t p) = ch0 p" "ch2 (sync_at t p) = ch2 p"
  by (simp_all add: sync_at_def Let_def)

section \<open>Periodic interrupts\<close>

text \<open>The number of multiples of \<open>d\<close> from \<open>next\<close> on that \<open>now\<close> has reached.\<close>

definition ticks :: "nat \<Rightarrow> nat \<Rightarrow> nat \<Rightarrow> nat" where
  "ticks d nxt now = (if now < nxt then 0 else Suc ((now - nxt) div d))"

lemma ticks_step: "0 < d \<Longrightarrow> nxt \<le> now \<Longrightarrow> ticks d nxt now = Suc (ticks d (nxt + d) now)"
  by (auto simp: ticks_def div_if)

lemma ticks_next: "0 < d \<Longrightarrow> now < nxt + ticks d nxt now * d"
proof (cases "now < nxt")
  case False
  assume "0 < d"
  have "now - nxt < Suc ((now - nxt) div d) * d"
    using \<open>0 < d\<close> by (metis add.commute dividend_less_div_times mult_Suc)
  then show ?thesis using False by (simp add: ticks_def)
qed (simp add: ticks_def)

lemma ticks_le: "0 < d \<Longrightarrow> nxt \<le> now \<Longrightarrow> nxt + ticks d nxt now * d \<le> now + d"
  by (simp add: ticks_def) (metis add_le_cancel_left div_times_less_eq_dividend le_add_diff_inverse)

lemma ticks_add:
  assumes "0 < d" and "now1 \<le> now2"
  shows "ticks d nxt now1 + ticks d (nxt + ticks d nxt now1 * d) now2 = ticks d nxt now2"
proof (cases "now1 < nxt")
  case True
  then show ?thesis by (simp add: ticks_def)
next
  case False
  let ?k = "Suc ((now1 - nxt) div d)"
  have "now2 < nxt + ?k * d \<longleftrightarrow> (now2 - nxt) div d < ?k"
    using False assms by (simp add: div_less_iff_less_mult less_diff_conv2 add.commute del: mult_Suc)
  moreover have "(now1 - nxt) div d \<le> (now2 - nxt) div d" using assms by (intro div_le_mono) simp
  moreover have "(now2 - nxt - ?k * d) div d = (now2 - nxt) div d - ?k"
    using assms(1) by (rule nat_diff_mult_div)
  ultimately show ?thesis using False assms(2) by (auto simp: ticks_def)
qed

lemma irq_loop_periodic:
  assumes "0 < div'" and "now \<noteq> - 1"
  shows "\<exists>count' next'. irq_loop div' now count next = Some (count', next') \<and>
    unat count' = min (unat count + ticks (unat div') (unat next) (unat now)) (2 ^ 32 - 1) \<and>
    unat next' = min (unat next + ticks (unat div') (unat next) (unat now) * unat div') (2 ^ 64 - 1)"
proof (induction "2 ^ 64 - unat next" arbitrary: count "next" rule: less_induct)
  case less
  have max: "unat now < 2 ^ 64 - 1"
    using assms(2) unat_u64_less [of now] by (auto simp: word_unat_eq_iff)
  have d: "0 < unat div'" using assms(1) by (simp add: word_less_nat_alt)
  show ?case
  proof (cases "next \<le> now")
    case False
    then have "ticks (unat div') (unat next) (unat now) = 0" by (simp add: ticks_def word_le_nat_alt)
    with False show ?thesis using unat_u32_less [of count] unat_u64_less [of "next"]
      by (subst irq_loop.simps) simp
  next
    case True
    let ?next = "saturating_add next div'" and ?count = "saturating_add count 1"
    have n: "unat next \<le> unat now" using True by (simp add: word_le_nat_alt)
    have next': "unat ?next = min (unat next + unat div') (2 ^ 64 - 1)" by (simp add: rust_arith)
    have "2 ^ 64 - unat ?next < 2 ^ 64 - unat next" using n max d next' by auto
    from less [OF this, of ?count] obtain c' n' where ih:
      "irq_loop div' now ?count ?next = Some (c', n')"
      "unat c' = min (unat ?count + ticks (unat div') (unat ?next) (unat now)) (2 ^ 32 - 1)"
      "unat n' = min (unat ?next + ticks (unat div') (unat ?next) (unat now) * unat div') (2 ^ 64 - 1)"
      by blast
    have t: "ticks (unat div') (unat next) (unat now) = Suc (ticks (unat div') (unat ?next) (unat now))"
      using ticks_step [OF d n] next' max by (auto simp: ticks_def min_def)
    have "irq_loop div' now count next = Some (c', n')"
      using True ih(1) by (subst irq_loop.simps) simp
    then show ?thesis using ih(2,3) t next' by (auto simp: rust_arith min_def)
  qed
qed

section \<open>Polling the system timer\<close>

fun pit_polls :: "u64 list \<Rightarrow> vpit \<Rightarrow> (nat \<times> vpit) option" where
  "pit_polls [] p = Some (0, p)"
| "pit_polls (t # ts) p =
     (case take_pending_irqs t p of
        None \<Rightarrow> None
      | Some (n, p') \<Rightarrow> map_option (map_prod ((+) (unat n)) id) (pit_polls ts p'))"

definition armed :: "vpit \<Rightarrow> bool" where
  "armed p \<longleftrightarrow> enabled (ch0 p) \<and> (mode (ch0 p) = 2 \<or> mode (ch0 p) = 3) \<and>
     unat (input_cycles p) < unat (next_irq_cycle (ch0 p)) \<and> unat (next_irq_cycle (ch0 p)) < 2 ^ 56"

lemma unat_divisor: "unat (divisor c) = (if reload c = 0 then 65536 else unat (reload c))"
  by (simp add: divisor_def unat_ucast_widen)

lemma divisor_bounds: "0 < unat (divisor c)" "unat (divisor c) \<le> 65536"
  using unat_u16_less [of "reload c"] by (auto simp: unat_divisor unat_gt_0)

lemma pit_ok_ch0 [simp]: "pit_ok (p\<lparr>ch0 := c\<rparr>) = pit_ok p"
  by (simp add: pit_ok_def)

lemma sync_at_ch0 [simp]: "sync_at t (p\<lparr>ch0 := c\<rparr>) = (sync_at t p)\<lparr>ch0 := c\<rparr>"
  by (simp add: sync_at_def Let_def)

lemma poll_sum_ch0: "snd (poll_sum pit_advance ts (p\<lparr>ch0 := c\<rparr>)) = (snd (poll_sum pit_advance ts p))\<lparr>ch0 := c\<rparr>"
  by (induction ts arbitrary: p) (simp_all add: pit_advance_def)

lemma pitclk_cycles:
  assumes "pit_ok p" and "gaps_ok (unat (last_host_ns p)) ts"
  shows "unat (input_cycles (snd (poll_sum pit_advance ts p))) =
    unat (input_cycles p) + fst (poll_sum pit_advance ts p)"
  using assms
proof (induction ts arbitrary: p)
  case (Cons t ts)
  have gap: "unat t \<le> unat (last_host_ns p) + MAX_GAP" using Cons.prems by simp
  have "pit_ok (sync_at t p)" using Cons.prems(1) gap by (rule sync_at_ok)
  moreover have "gaps_ok (unat (last_host_ns (sync_at t p))) ts"
    using Cons.prems(2) sync_at_exact(1) [OF Cons.prems(1) gap] by simp
  ultimately show ?case
    using Cons.IH [of "sync_at t p"] sync_at_exact(4) [OF Cons.prems(1) gap] by (simp add: pit_advance_def)
qed simp

lemma poll_armed:
  assumes ok: "pit_ok p" and ar: "armed p" and gap: "unat t \<le> unat (last_host_ns p) + MAX_GAP"
  shows "\<exists>n c. take_pending_irqs t p = Some (n, (sync_at t p)\<lparr>ch0 := c\<rparr>) \<and>
    armed ((sync_at t p)\<lparr>ch0 := c\<rparr>) \<and> divisor c = divisor (ch0 p) \<and>
    unat n = ticks (unat (divisor (ch0 p))) (unat (next_irq_cycle (ch0 p))) (unat (input_cycles (sync_at t p))) \<and>
    unat (next_irq_cycle c) = unat (next_irq_cycle (ch0 p)) + unat n * unat (divisor (ch0 p))"
proof -
  let ?d = "divisor (ch0 p)" and ?n = "next_irq_cycle (ch0 p)" and ?now = "input_cycles (sync_at t p)"
  let ?k = "ticks (unat ?d) (unat ?n) (unat ?now)"
  note d = divisor_bounds [of "ch0 p"]
  have now: "unat ?now < 2 ^ 55" using pit_ok_cycles [OF sync_at_ok [OF ok gap]] .
  then have "?now \<noteq> - 1" by auto
  moreover have "0 < ?d" using d(1) by (simp add: word_less_nat_alt)
  ultimately obtain c' n' where l: "irq_loop ?d ?now 0 ?n = Some (c', n')"
      "unat c' = min ?k (2 ^ 32 - 1)" "unat n' = min (unat ?n + ?k * unat ?d) (2 ^ 64 - 1)"
    using irq_loop_periodic [of ?d ?now 0 ?n] by auto
  have "?k \<le> 2000000001"
  proof -
    have "unat ?now - unat ?n \<le> 2000000000"
      using sync_at_exact(5) [OF ok gap] ar unfolding armed_def by linarith
    then have "(unat ?now - unat ?n) div unat ?d \<le> 2000000000"
      using div_le_dividend [of "unat ?now - unat ?n" "unat ?d"] by (rule order_trans [rotated])
    then show ?thesis by (simp add: ticks_def)
  qed
  then have c: "unat c' = ?k" using l(2) by simp
  have small: "unat ?n + ?k * unat ?d < 2 ^ 56"
    using ticks_le [OF d(1), of "unat ?n" "unat ?now"] now d(2) ar
    by (cases "unat ?now < unat ?n") (auto simp: armed_def ticks_def not_less)
  then have n: "unat n' = unat ?n + ?k * unat ?d" using l(3) by simp
  have "unat ?now < unat n'" using ticks_next [OF d(1), of "unat ?now" "unat ?n"] n by simp
  then show ?thesis
    using ar l(1) c n small
    by (intro exI [of _ c'] exI [of _ "(ch0 p)\<lparr>next_irq_cycle := n'\<rparr>"])
      (auto simp: take_pending_irqs_def take_irqs_def armed_def Let_def divisor_def)
qed

lemma pit_polls_ticks:
  "pit_ok p \<Longrightarrow> armed p \<Longrightarrow> gaps_ok (unat (last_host_ns p)) ts \<Longrightarrow>
     \<exists>p'. pit_polls ts p = Some (ticks (unat (divisor (ch0 p))) (unat (next_irq_cycle (ch0 p)))
         (unat (input_cycles (snd (poll_sum pit_advance ts p)))), p')"
proof (induction ts arbitrary: p)
  case Nil
  then show ?case by (simp add: armed_def ticks_def)
next
  case (Cons t ts)
  have gap: "unat t \<le> unat (last_host_ns p) + MAX_GAP" using Cons.prems by simp
  obtain n c where st: "take_pending_irqs t p = Some (n, (sync_at t p)\<lparr>ch0 := c\<rparr>)"
    "armed ((sync_at t p)\<lparr>ch0 := c\<rparr>)" "divisor c = divisor (ch0 p)"
    "unat n = ticks (unat (divisor (ch0 p))) (unat (next_irq_cycle (ch0 p))) (unat (input_cycles (sync_at t p)))"
    "unat (next_irq_cycle c) = unat (next_irq_cycle (ch0 p)) + unat n * unat (divisor (ch0 p))"
    using poll_armed [OF Cons.prems(1,2) gap] by blast
  have ok: "pit_ok (sync_at t p)" using Cons.prems(1) gap by (rule sync_at_ok)
  have gaps: "gaps_ok (unat (last_host_ns (sync_at t p))) ts"
    using Cons.prems(3) sync_at_exact(1) [OF Cons.prems(1) gap] by simp
  let ?fin = "snd (poll_sum pit_advance ts (sync_at t p))"
  obtain p' where p': "pit_polls ts ((sync_at t p)\<lparr>ch0 := c\<rparr>) =
      Some (ticks (unat (divisor c)) (unat (next_irq_cycle c)) (unat (input_cycles ?fin)), p')"
    using Cons.IH [of "(sync_at t p)\<lparr>ch0 := c\<rparr>"] ok st(2) gaps by (auto simp: poll_sum_ch0)
  have "unat (input_cycles (sync_at t p)) \<le> unat (input_cycles ?fin)"
    using pitclk_cycles [OF ok gaps] by simp
  from ticks_add [OF divisor_bounds(1) this, of "ch0 p" "unat (next_irq_cycle (ch0 p))"] show ?case
    using st p' by (auto simp: pit_advance_def [of t p])
qed

section \<open>Programming a channel\<close>

definition pit_program :: "u64 \<Rightarrow> u64 \<Rightarrow> u64 \<Rightarrow> u8 \<Rightarrow> u16 \<Rightarrow> vpit \<Rightarrow> vpit" where
  "pit_program t1 t2 t3 cmd v q =
     write_counter t3 0 (hi8 v) (write_counter t2 0 (lo8 v) (write_command t1 cmd q))"

lemma pit_program_loads:
  assumes "cmd = 0x34 \<or> cmd = 0x36"
  shows "\<exists>c. (mode c = 2 \<or> mode c = 3) \<and>
    pit_program t1 t2 t3 cmd v q =
      (sync_at t3 (sync_at t2 (sync_at t1 q)))\<lparr>ch0 :=
        load_count v (input_cycles (sync_at t3 (sync_at t2 (sync_at t1 q)))) c\<rparr>"
  using assms
  by (elim disjE; intro exI [of _ "set_command 3 (drop_bit 1 cmd AND 7) (ch0 q)\<lparr>write_lsb := None\<rparr>"])
    (simp_all add: pit_program_def write_counter_def write_command_def set_command_def write_byte_def
      chan_def set_chan_def Let_def load_count_def divisor_def)

lemma load_count_fields:
  "enabled (load_count v now c)" "start_cycle (load_count v now c) = now" "mode (load_count v now c) = mode c"
  "unat (divisor (load_count v now c)) = (if v = 0 then 65536 else unat v)"
  "next_irq_cycle (load_count v now c) = saturating_add now (divisor (load_count v now c))"
  by (simp_all add: load_count_def Let_def unat_divisor) (simp_all add: divisor_def)

lemma ticks_from_load: "0 < d \<Longrightarrow> ticks d (c0 + d) (c0 + e) = e div d"
  by (auto simp: ticks_def div_if)

lemma load_armed:
  fixes v :: u16
  assumes ok: "pit_ok q" and m: "mode c = 2 \<or> mode c = 3"
  defines "p \<equiv> q\<lparr>ch0 := load_count v (input_cycles q) c\<rparr>"
  shows "armed p"
    and "unat (next_irq_cycle (ch0 p)) = unat (input_cycles p) + unat (divisor (ch0 p))"
proof -
  note b = divisor_bounds [of "load_count v (input_cycles q) c"] pit_ok_cycles [OF ok]
  then show nx: "unat (next_irq_cycle (ch0 p)) = unat (input_cycles p) + unat (divisor (ch0 p))"
    by (simp add: p_def load_count_fields rust_arith)
  show "armed p" using m b nx by (simp add: armed_def p_def load_count_fields)
qed

section \<open>Properties\<close>

text \<open>
  C13. The system timer neither gains nor loses a tick. Program channel 0 for a periodic mode
  (control word 34h or 36h, low byte, high byte) at any three times, then poll it at any times no
  more than 1000 s apart: every poll returns (the IRQ loop ends), and the interrupts returned add
  up to exactly the input cycles elapsed since the load, at 1.193182 MHz, divided by the
  programmed divisor, however the polls are spread.
\<close>

theorem pit_ticks:
  assumes "pit_ok q" and "gaps_ok (unat (last_host_ns q)) (t1 # t2 # t3 # ts)"
    and "cmd = 0x34 \<or> cmd = 0x36" and "p = pit_program t1 t2 t3 cmd v q"
  shows "\<exists>p'. pit_polls ts p =
    Some ((unat (frac_accum p) + (latest (unat (last_host_ns p)) ts - unat (last_host_ns p)) * 1193182)
        div 10 ^ 9 div (if v = 0 then 65536 else unat v), p')"
proof -
  let ?q = "sync_at t3 (sync_at t2 (sync_at t1 q))"
  obtain c where c: "mode c = 2 \<or> mode c = 3" "p = ?q\<lparr>ch0 := load_count v (input_cycles ?q) c\<rparr>"
    using pit_program_loads [OF assms(3)] assms(4) by blast
  have q: "pit_ok ?q \<and> gaps_ok (unat (last_host_ns ?q)) ts"
    using assms(1,2) by (simp add: sync_at_ok sync_at_exact(1))
  then have ok: "pit_ok p" and gaps: "gaps_ok (unat (last_host_ns p)) ts" using c(2) by simp_all
  note ar = load_armed [of ?q c v, folded c(2)]
  have d: "unat (divisor (ch0 p)) = (if v = 0 then 65536 else unat v)"
    using c(2) by (simp add: load_count_fields)
  obtain p' where "pit_polls ts p = Some (ticks (unat (divisor (ch0 p))) (unat (next_irq_cycle (ch0 p)))
         (unat (input_cycles (snd (poll_sum pit_advance ts p)))), p')"
    using pit_polls_ticks [OF ok _ gaps] ar(1) q c(1) by blast
  then show ?thesis
    using ar(2) q c(1) pitclk_cycles [OF ok gaps] pitclk.polls_count [OF ok gaps]
      ticks_from_load [OF divisor_bounds(1) [of "ch0 p"]]
    unfolding d by simp
qed

theorem pit_ticks_witness:
  "\<exists>p'. pit_polls [5000000, 60000000] (pit_program 1000 2000 3000 0x36 0x2000 (vpit_new 0)) = Some (8, p')"
proof -
  have "gaps_ok (unat (last_host_ns (vpit_new 0))) [1000, 2000, 3000, 5000000, 60000000]"
    by (simp add: vpit_new_def MAX_GAP_def)
  moreover have "frac_accum (pit_program 1000 2000 3000 0x36 0x2000 (vpit_new 0)) = 579546000"
    "last_host_ns (pit_program 1000 2000 3000 0x36 0x2000 (vpit_new 0)) = 3000"
    by code_simp+
  ultimately show ?thesis
    using pit_ticks [OF pit_ok_new [of 0], of 1000 2000 3000 "[5000000, 60000000]" "0x36" _ "0x2000"] by simp
qed

text \<open>
  Latching freezes the count: after a load of \<open>v\<close> in a periodic mode, a latch at a later
  cycle followed by two reads, whenever they happen, returns low and high byte of the counter at
  the moment of the latch, which counts down from the divisor and wraps to it, and leaves the
  channel as if it had not been latched.
\<close>

theorem pit_latch:
  assumes "mode c = 2 \<or> mode c = 3" and "c1 = load_count v c0 c" and "c0 \<le> now"
    and "read_byte t1 (latch_count now c1) = (lo, c2)" and "read_byte t2 c2 = (hi, c3)"
  shows "unat (push_bit 8 (ucast hi) OR ucast lo :: u16) =
      ((if v = 0 then 65536 else unat v) - (unat now - unat c0) mod (if v = 0 then 65536 else unat v)) mod 65536
    \<and> c3 = c1"
proof -
  let ?d = "if v = 0 then 65536 else unat v"
  let ?D = "divisor c1" and ?e = "saturating_sub now c0"
  have d: "unat ?D = ?d" using assms(2) by (simp add: load_count_fields)
  have "unat ?D > 0" using divisor_bounds by simp
  have "unat (?D - ?e mod ?D) = unat ?D - unat ?e mod unat ?D"
    using mod_less_divisor [OF \<open>unat ?D > 0\<close>, of "unat ?e"] by (subst unat_sub) (simp_all add: word_le_nat_alt unat_mod)
  then have cnt: "unat (current_count now c1) = (?d - (unat now - unat c0) mod ?d) mod 65536"
    using assms(1,2) d
    by (auto simp: current_count_def load_count_fields Let_def unsigned_ucast_eq take_bit_eq_mod rust_arith)
  have "lo = lo8 (current_count now c1)" "hi = hi8 (current_count now c1)" "c3 = c1"
    using assms(4,5,2) by (auto simp: latch_count_def read_byte_def lo8_def hi8_def load_count_def Let_def)
  then show ?thesis using cnt by simp
qed

theorem pit_latch_witness:
  "unat (push_bit 8 (ucast (3 :: u8)) OR ucast (0xE6 :: u8) :: u16) = (1000 - 2 mod 1000) mod 65536"
proof -
  let ?c1 = "load_count 1000 5 pit_channel_new"
  have "mode pit_channel_new = 3" by (simp add: pit_channel_new_def)
  moreover have "fst (read_byte 9 (latch_count 7 ?c1)) = 0xE6"
    "fst (read_byte 11 (snd (read_byte 9 (latch_count 7 ?c1)))) = 3"
    by code_simp+
  ultimately show ?thesis
    using pit_latch [of pit_channel_new ?c1 1000 5 7 9 "0xE6" _ 11 3] by (simp add: prod_eq_iff)
qed

end
