(* ===== verification/Vrtc.thy ===== *)
theory Vrtc
  imports NsClock
begin

text \<open>
  \<^verbatim>\<open>kernel/src/kernel/dos/machine/vrtc.rs\<close>: the periodic interrupt of the virtual MC146818 clock. The
  host clock (\<^verbatim>\<open>machine.now()\<close>) is an argument. While PIE is set and a rate selected, polling it is an
  instance of theory NsClock (interpretation \<open>rtcclk\<close>).
\<close>

record vrtc =
  reg_a :: u8
  reg_b :: u8
  reg_c :: u8
  rtc_last_ns :: u64
  rtc_frac :: u64

definition vrtc_new :: "u64 \<Rightarrow> vrtc" where
  "vrtc_new now = \<lparr>reg_a = 0x26, reg_b = 0x02, reg_c = 0, rtc_last_ns = now, rtc_frac = 0\<rparr>"

definition rtc_owns :: "u8 \<Rightarrow> bool" where
  "rtc_owns idx \<longleftrightarrow> 0x0A \<le> idx \<and> idx \<le> 0x0C"

definition rtc_read :: "u8 \<Rightarrow> vrtc \<Rightarrow> u8 \<times> vrtc" where
  "rtc_read idx r =
     (if idx = 0x0A then (reg_a r, r)
      else if idx = 0x0B then (reg_b r, r)
      else if idx = 0x0C then (reg_c r, r\<lparr>reg_c := 0\<rparr>)
      else (0xFF, r))"

definition rtc_write :: "u64 \<Rightarrow> u8 \<Rightarrow> u8 \<Rightarrow> vrtc \<Rightarrow> vrtc" where
  "rtc_write now idx val r =
     (if idx = 0x0A then r\<lparr>reg_a := val AND 0x7F\<rparr>
      else if idx = 0x0B then
        (let was_pie = (reg_b r AND 0x40 \<noteq> 0); r' = r\<lparr>reg_b := val\<rparr>;
             now_pie = (reg_b r' AND 0x40 \<noteq> 0) in
         if now_pie \<and> \<not> was_pie then r'\<lparr>rtc_last_ns := now, rtc_frac := 0\<rparr> else r')
      else r)"

definition rate_hz :: "vrtc \<Rightarrow> u64" where
  "rate_hz r =
     (let rs = unat (reg_a r AND 0x0F) in
      if rs = 0 then 0 else drop_bit (max rs 3 - 1) 32768)"

definition rtc_take_pending_irqs :: "u64 \<Rightarrow> vrtc \<Rightarrow> u32 \<times> vrtc" where
  "rtc_take_pending_irqs now r =
     (if reg_b r AND 0x40 = 0 then (0, r)
      else let hz = rate_hz r in
        if hz = 0 then (0, r)
        else let delta = saturating_sub now (rtc_last_ns r) in
          if delta = 0 then (0, r)
          else let sum = saturating_add (rtc_frac r) (saturating_mul delta hz);
                   count = sum div NANOS_PER_SECOND;
                   r1 = r\<lparr>rtc_last_ns := now, rtc_frac := sum mod NANOS_PER_SECOND\<rparr>;
                   r2 = (if count > 0 then r1\<lparr>reg_c := reg_c r1 OR 0xC0\<rparr> else r1) in
               (ucast count, r2))"

section \<open>The periodic clock\<close>

lemma rate_hz_le: "unat (rate_hz r) \<le> 8192"
proof -
  have "unat (drop_bit n (32768 :: u64)) = 32768 div 2 ^ n" for n
    unfolding unsigned_drop_bit_eq by (simp add: drop_bit_eq_div)
  moreover have "(32768 :: nat) div 2 ^ (max rs 3 - 1) \<le> 32768 div 2 ^ 2" for rs :: nat
    by (intro div_le_mono2 power_increasing) auto
  ultimately show ?thesis by (auto simp: rate_hz_def Let_def)
qed

definition rtc_running :: "vrtc \<Rightarrow> bool" where
  "rtc_running r \<longleftrightarrow> reg_b r AND 0x40 \<noteq> 0 \<and> rate_hz r \<noteq> 0 \<and> unat (rtc_frac r) < 10 ^ 9"

definition rtc_advance :: "u64 \<Rightarrow> vrtc \<Rightarrow> nat \<times> vrtc" where
  "rtc_advance t r = map_prod unat id (rtc_take_pending_irqs t r)"

lemma rate_hz_update [simp]:
  "rate_hz (r\<lparr>rtc_last_ns := x\<rparr>) = rate_hz r" "rate_hz (r\<lparr>rtc_frac := y\<rparr>) = rate_hz r"
  "rate_hz (r\<lparr>reg_c := z\<rparr>) = rate_hz r"
  by (simp_all add: rate_hz_def)

lemma rtc_advance_exact:
  assumes run: "rtc_running r" and gap: "unat t \<le> unat (rtc_last_ns r) + MAX_GAP"
    and adv: "rtc_advance t r = (c, r')"
  shows "rtc_running r' \<and> unat (rate_hz r') = unat (rate_hz r) \<and>
    unat (rtc_last_ns r') = max (unat (rtc_last_ns r)) (unat t) \<and>
    c * 10 ^ 9 + unat (rtc_frac r') = unat (rtc_frac r) + (unat t - unat (rtc_last_ns r)) * unat (rate_hz r)"
proof -
  let ?d = "saturating_sub t (rtc_last_ns r)"
  let ?sum = "saturating_add (rtc_frac r) (saturating_mul ?d (rate_hz r))"
  have d: "unat ?d = unat t - unat (rtc_last_ns r)" by (simp add: rust_arith)
  have fr: "unat (rtc_frac r) < 10 ^ 9" using run by (simp add: rtc_running_def)
  have dg: "unat ?d \<le> MAX_GAP" using gap d by simp
  have hz: "unat (rate_hz r) \<le> 2000000" using rate_hz_le [of r] by simp
  note acc = accumulate_exact [OF fr dg hz]
  have cast: "unat (ucast (?sum div NANOS_PER_SECOND) :: u32) = unat (?sum div NANOS_PER_SECOND)"
    using acc(3) by (simp add: unsigned_ucast_eq take_bit_nat_eq_self)
  consider "?d = 0" | "?d \<noteq> 0" by blast
  then show ?thesis
  proof cases
    case 1
    then have "unat ?d = 0" by simp
    moreover have "rtc_advance t r = (0, r)"
      using 1 run by (simp add: rtc_advance_def rtc_take_pending_irqs_def rtc_running_def Let_def)
    ultimately show ?thesis using adv run d by simp
  next
    case 2
    then have "unat ?d \<noteq> 0" by (simp add: unat_eq_0)
    then show ?thesis using 2 adv run d acc cast
      by (auto simp: rtc_advance_def rtc_take_pending_irqs_def rtc_running_def Let_def split: if_splits)
  qed
qed

interpretation rtcclk: ns_clock "\<lambda>r. unat (rtc_last_ns r)" "\<lambda>r. unat (rtc_frac r)" "\<lambda>r. unat (rate_hz r)"
  rtc_running rtc_advance
proof (unfold_locales, goal_cases)
  case (1 s)
  then show ?case by (simp add: rtc_running_def)
next
  case (2 s t c s')
  then show ?case by (rule rtc_advance_exact)
qed

section \<open>Properties\<close>

lemma rtc_enable_running:
  assumes "reg_b r AND 0x40 = 0" and "val AND 0x40 \<noteq> 0" and "rate_hz r \<noteq> 0"
  shows "rtc_running (rtc_write t 0x0B val r)" "unat (rtc_last_ns (rtc_write t 0x0B val r)) = unat t"
    "rtc_frac (rtc_write t 0x0B val r) = 0" "rate_hz (rtc_write t 0x0B val r) = rate_hz r"
  using assms by (simp_all add: rtc_write_def rtc_running_def rate_hz_def Let_def)

text \<open>
  The periodic interrupt keeps exact time from the moment it is enabled: after a guest sets
  PIE at time \<open>t\<close>, polls at any times no more than 1000 s apart report together exactly the
  elapsed nanoseconds times the selected rate, in whole periods; nothing that elapsed before the
  enable is counted, and the rate never exceeds 8192 Hz.
\<close>

theorem rtc_periods:
  assumes "reg_b r AND 0x40 = 0" and "val AND 0x40 \<noteq> 0" and "rate_hz r \<noteq> 0"
    and "gaps_ok (unat t) ts"
  shows "fst (poll_sum rtc_advance ts (rtc_write t 0x0B val r)) =
      (latest (unat t) ts - unat t) * unat (rate_hz r) div 10 ^ 9 \<and> unat (rate_hz r) \<le> 8192"
  using rtcclk.polls_count [OF rtc_enable_running(1) [OF assms(1-3)], of t ts] assms
    rtc_enable_running [OF assms(1-3), of t] rate_hz_le [of r]
  by simp

theorem rtc_periods_witness:
  "fst (poll_sum rtc_advance [700500000, 1700500000] (rtc_write 500000 0x0B 0x42 (vrtc_new 0))) = 1740"
  using rtc_periods [of "vrtc_new 0" "0x42" 500000 "[700500000, 1700500000]"]
  by (simp add: vrtc_new_def rate_hz_def MAX_GAP_def)

end
