(* ===== verification/Guest.thy ===== *)
theory Guest
  imports Prelude
begin

text \<open>
  The machine as the memory managers see it: the registers of the interrupted guest (\<^verbatim>\<open>arch-abi/src/lib.rs\<close>, \<^verbatim>\<open>Regs\<close>), the active guest address space (\<^verbatim>\<open>GuestBytes\<close> of
  \<^verbatim>\<open>arch-abi/src/arch.rs\<close> as \<^verbatim>\<open>arch-metal/src/vcpu.rs\<close> implements it, and the page-entry operations of
  \<^verbatim>\<open>arch-metal/src/paging2.rs\<close>), and the translation of a segment and offset to a linear address
  (\<^verbatim>\<open>kernel/src/kernel/dos/mod.rs\<close>, \<^verbatim>\<open>linear\<close>).

  The address space maps each virtual page number to the contents behind its entry. No frame is
  mapped twice, so exchanging two entries exchanges the contents; an entry cleared to absent reads
  as zeroes, which is what demand paging provides. Physical frames and reference counts are not
  part of this view.
\<close>

section \<open>Registers\<close>

record frame64 =
  rip :: u64
  cs :: u64
  rflags :: u64
  rsp :: u64
  ss :: u64

record regs =
  gs :: u64
  fs :: u64
  es :: u64
  ds :: u64
  r15 :: u64
  r14 :: u64
  r13 :: u64
  r12 :: u64
  r11 :: u64
  r10 :: u64
  r9 :: u64
  r8 :: u64
  rdi :: u64
  rsi :: u64
  rbp :: u64
  rsp_dummy :: u64
  rbx :: u64
  rdx :: u64
  rcx :: u64
  rax :: u64
  int_num :: u64
  err_code :: u64
  iframe :: frame64

definition regs_empty :: regs where
  "regs_empty = \<lparr>gs = 0, fs = 0, es = 0, ds = 0, r15 = 0, r14 = 0, r13 = 0, r12 = 0, r11 = 0, r10 = 0, r9 = 0, r8 = 0,
     rdi = 0, rsi = 0, rbp = 0, rsp_dummy = 0, rbx = 0, rdx = 0, rcx = 0, rax = 0, int_num = 0, err_code = 0,
     iframe = \<lparr>rip = 0, cs = 0, rflags = 0, rsp = 0, ss = 0\<rparr>\<rparr>"

datatype user_mode = VM86 | Mode32 | Mode64

definition USER_CS64 :: u64 where "USER_CS64 = 0x33"

definition regs_mode :: "regs \<Rightarrow> user_mode" where
  "regs_mode r =
     (if cs (iframe r) = USER_CS64 then Mode64 else if test_mask (rflags (iframe r)) 17 then VM86 else Mode32)"

text \<open>A guest running in VM86 mode with the given AX, BX and DX.\<close>

definition vm86_call :: "u64 \<Rightarrow> u64 \<Rightarrow> u64 \<Rightarrow> regs" where
  "vm86_call a b d = regs_empty\<lparr>rax := a, rbx := b, rdx := d, iframe := (iframe regs_empty)\<lparr>rflags := 0x20000\<rparr>\<rparr>"

lemma vm86_call_fields [simp]:
  "rax (vm86_call a b d) = a" "rbx (vm86_call a b d) = b" "rdx (vm86_call a b d) = d" "ds (vm86_call a b d) = 0"
  "rcx (vm86_call a b d) = 0" "rsi (vm86_call a b d) = 0"
  "regs_mode (vm86_call a b d) = VM86" "regs_mode ((vm86_call a b d)\<lparr>rsi := x\<rparr>) = VM86"
  by (simp_all add: vm86_call_def regs_empty_def regs_mode_def USER_CS64_def test_mask_def)

text \<open>\<^verbatim>\<open>(old & !0xFFFF) | v\<close>, \<^verbatim>\<open>(old & !0xFF) | v\<close> and \<^verbatim>\<open>(old & !0xFF00) | (v << 8)\<close>.\<close>

definition set16 :: "u16 \<Rightarrow> u64 \<Rightarrow> u64" where
  "set16 v old = (old AND NOT 0xFFFF) OR ucast v"

definition set_low8 :: "u8 \<Rightarrow> u64 \<Rightarrow> u64" where
  "set_low8 v old = (old AND NOT 0xFF) OR ucast v"

definition set_high8 :: "u8 \<Rightarrow> u64 \<Rightarrow> u64" where
  "set_high8 v old = (old AND NOT 0xFF00) OR push_bit 8 (ucast v)"

abbreviation word16 :: "u64 \<Rightarrow> u16" where "word16 x \<equiv> ucast x"

lemma set16_mask: "set16 v x = (x AND NOT (mask 16)) OR ucast v"
  by (simp add: set16_def mask_eq_exp_minus_1)

lemma word16_set16 [simp]: "word16 (set16 v x) = v"
  unfolding set16_mask by (rule bit_word_eqI) (auto simp: bit_simps)

lemma word16_set16_eq: "set16 v x = set16 w y \<Longrightarrow> v = w"
  by (metis word16_set16)

definition set32 :: "u32 \<Rightarrow> u64 \<Rightarrow> u64" where
  "set32 v old = (old AND NOT 0xFFFFFFFF) OR ucast v"

text \<open>The low 32 bits of the flags image: \<^verbatim>\<open>set_flag32\<close> and \<^verbatim>\<open>clear_flag32\<close>.\<close>

definition set_flag32 :: "u32 \<Rightarrow> regs \<Rightarrow> regs" where
  "set_flag32 m r = r\<lparr>iframe := (iframe r)\<lparr>rflags := ucast ((ucast (rflags (iframe r)) :: u32) OR m)\<rparr>\<rparr>"

definition clear_flag32 :: "u32 \<Rightarrow> regs \<Rightarrow> regs" where
  "clear_flag32 m r = r\<lparr>iframe := (iframe r)\<lparr>rflags := ucast ((ucast (rflags (iframe r)) :: u32) AND NOT m)\<rparr>\<rparr>"

section \<open>Guest memory\<close>

type_synonym page = "nat \<Rightarrow> u8"
type_synonym guest = "nat \<Rightarrow> page"

definition zero_page :: page where "zero_page = (\<lambda>_. 0)"

definition guest_read8 :: "guest \<Rightarrow> nat \<Rightarrow> u8" where
  "guest_read8 g a = g (a div 4096) (a mod 4096)"

definition guest_write8 :: "nat \<Rightarrow> u8 \<Rightarrow> guest \<Rightarrow> guest" where
  "guest_write8 a v g = g(a div 4096 := (g (a div 4096))(a mod 4096 := v))"

definition guest_read16 :: "guest \<Rightarrow> nat \<Rightarrow> u16" where
  "guest_read16 g a = push_bit 8 (ucast (guest_read8 g (a + 1))) OR ucast (guest_read8 g a)"

definition guest_read32 :: "guest \<Rightarrow> nat \<Rightarrow> u32" where
  "guest_read32 g a = push_bit 16 (ucast (guest_read16 g (a + 2))) OR ucast (guest_read16 g a)"

definition guest_write16 :: "nat \<Rightarrow> u16 \<Rightarrow> guest \<Rightarrow> guest" where
  "guest_write16 a v g = guest_write8 (a + 1) (hi8 v) (guest_write8 a (lo8 v) g)"

definition guest_read64 :: "guest \<Rightarrow> nat \<Rightarrow> u64" where
  "guest_read64 g a = push_bit 32 (ucast (guest_read32 g (a + 4))) OR ucast (guest_read32 g a)"

definition guest_write32 :: "nat \<Rightarrow> u32 \<Rightarrow> guest \<Rightarrow> guest" where
  "guest_write32 a v g = guest_write16 (a + 2) (ucast (drop_bit 16 v)) (guest_write16 a (ucast v) g)"

definition guest_write64 :: "nat \<Rightarrow> u64 \<Rightarrow> guest \<Rightarrow> guest" where
  "guest_write64 a v g = guest_write32 (a + 4) (ucast (drop_bit 32 v)) (guest_write32 a (ucast v) g)"

text \<open>\<^verbatim>\<open>copy_within\<close>: ascending or descending byte copy, chosen by the overlap.\<close>

definition copy_byte :: "nat \<Rightarrow> nat \<Rightarrow> nat \<Rightarrow> guest \<Rightarrow> guest" where
  "copy_byte src dst i g = guest_write8 (dst + i) (guest_read8 g (src + i)) g"

definition copy_within :: "nat \<Rightarrow> nat \<Rightarrow> nat \<Rightarrow> guest \<Rightarrow> guest" where
  "copy_within src dst n g =
     (if src < dst \<and> dst < src + n then fold (copy_byte src dst) (rev [0..<n]) g
      else fold (copy_byte src dst) [0..<n] g)"

definition swap_page_entries :: "nat \<Rightarrow> nat \<Rightarrow> nat \<Rightarrow> guest \<Rightarrow> guest" where
  "swap_page_entries a b n g =
     fold (\<lambda>i g. g(a + i := g (b + i), b + i := g (a + i))) [0..<n] g"

definition unmap_range :: "nat \<Rightarrow> nat \<Rightarrow> guest \<Rightarrow> guest" where
  "unmap_range base n g = fold (\<lambda>i g. g(base + i := zero_page)) [0..<n] g"

lemma page_addr_eq: "(a :: nat) div 4096 = b div 4096 \<Longrightarrow> a mod 4096 = b mod 4096 \<Longrightarrow> a = b"
  by (metis mult_div_mod_eq)

lemma guest_read_write: "guest_read8 (guest_write8 a v g) b = (if b = a then v else guest_read8 g b)"
  using page_addr_eq [of b a] by (auto simp: guest_read8_def guest_write8_def)

lemma read_copy_byte:
  "guest_read8 (copy_byte src dst i g) b = (if b = dst + i then guest_read8 g (src + i) else guest_read8 g b)"
  by (simp add: copy_byte_def guest_read_write)

lemma copy_forward:
  "\<not> (src < dst \<and> dst < src + n) \<Longrightarrow>
     guest_read8 (fold (copy_byte src dst) [0..<n] g) b =
       (if dst \<le> b \<and> b < dst + n then guest_read8 g (src + (b - dst)) else guest_read8 g b)"
proof (induction n arbitrary: b)
  case (Suc n)
  then have "\<not> (src < dst \<and> dst < src + n)" by auto
  then show ?case using Suc by (auto simp: read_copy_byte)
qed auto

lemma copy_backward:
  assumes "src < dst"
  shows "m \<le> n \<Longrightarrow>
     guest_read8 (fold (copy_byte src dst) (rev [m..<n]) g) b =
       (if dst + m \<le> b \<and> b < dst + n then guest_read8 g (src + (b - dst)) else guest_read8 g b)"
proof (induction "n - m" arbitrary: m b)
  case 0
  then show ?case by auto
next
  case (Suc k)
  then have "rev [m..<n] = rev [Suc m..<n] @ [m]" by (simp add: upt_rec)
  then show ?case using Suc.hyps(1) [of "Suc m"] Suc.hyps(2) Suc.prems assms
    by (auto simp: read_copy_byte)
qed

lemma copy_within_read:
  "guest_read8 (copy_within src dst n g) b =
     (if dst \<le> b \<and> b < dst + n then guest_read8 g (src + (b - dst)) else guest_read8 g b)"
  using copy_forward [of src dst n g b] copy_backward [of src dst 0 n g b] by (simp add: copy_within_def)

lemma swap_page_entries_apply:
  "a + n \<le> b \<or> b + n \<le> a \<Longrightarrow>
     swap_page_entries a b n g p =
       (if a \<le> p \<and> p < a + n then g (p - a + b) else if b \<le> p \<and> p < b + n then g (p - b + a) else g p)"
proof (induction n arbitrary: p)
  case (Suc n)
  have "swap_page_entries a b (Suc n) g = (swap_page_entries a b n g)
      (a + n := swap_page_entries a b n g (b + n), b + n := swap_page_entries a b n g (a + n))"
    by (simp add: swap_page_entries_def)
  then show ?case using Suc by (auto simp: add.commute)
qed (auto simp: swap_page_entries_def)

lemma unmap_range_apply: "unmap_range base n g p = (if base \<le> p \<and> p < base + n then zero_page else g p)"
  by (induction n) (auto simp: unmap_range_def)

section \<open>Segmented addresses\<close>

definition seg_base :: "u64 list \<Rightarrow> u16 \<Rightarrow> u32" where
  "seg_base ldt sel =
     (if sel AND 4 = 0 then 0
      else let idx = unat (drop_bit 3 sel) in
        if idx \<ge> length ldt then 0
        else let d = ldt ! idx;
                 b0 = ucast (drop_bit 16 d AND 0xFFFF);
                 b1 = ucast (drop_bit 32 d AND 0xFF);
                 b2 = ucast (drop_bit 56 d AND 0xFF) in
             b0 OR push_bit 16 b1 OR push_bit 24 b2)"

definition linear :: "u64 list \<Rightarrow> regs \<Rightarrow> u16 \<Rightarrow> u32 \<Rightarrow> u32" where
  "linear ldt r seg off =
     (if regs_mode r = VM86 then clear_mask (push_bit 4 (ucast seg) + (off AND 0xFFFF)) 20
      else seg_base ldt seg + off)"

end
