(* ===== verification/Machine.thy ===== *)
theory Machine
  imports Vkbd Vpic Vpit Vrtc Guest
begin

text \<open>
  \<^verbatim>\<open>kernel/src/kernel/dos/machine/mod.rs\<close>: the system board that composes the interrupt controllers, the
  timer, the clock chip and the keyboard controller.  The record is the part of \<^verbatim>\<open>PcMachine\<close> those
  devices make up; the operations are \<^verbatim>\<open>advance_timers\<close>, \<^verbatim>\<open>queue_irq\<close> for a key, the system-board
  arms of \<^verbatim>\<open>emulate_inb\<close> and \<^verbatim>\<open>emulate_outb\<close>, \<^verbatim>\<open>pick_pending_vec\<close>, and the views of the flags register.
  Ports of the video, sound and DMA hardware, and the host's own CMOS, give \<open>None\<close>; the speaker's copy
  of ports 42h and 61h is left out.

  The lemmas give the interrupt chosen and the VIP flag on every branch, the flags a guest can
  and cannot change, and one step of the keyboard protocol that theory Spec2Isabelle states.
\<close>

section \<open>Flags\<close>

definition IF_FLAG :: u32 where "IF_FLAG = push_bit 9 1"
definition VIF_FLAG :: u32 where "VIF_FLAG = push_bit 19 1"
definition VM_FLAG :: u32 where "VM_FLAG = push_bit 17 1"
definition IOPL_MASK :: u32 where "IOPL_MASK = push_bit 12 3"

definition flags32 :: "regs \<Rightarrow> u32" where
  "flags32 r = ucast (rflags (iframe r))"

definition put_rflags :: "u64 \<Rightarrow> regs \<Rightarrow> regs" where
  "put_rflags f r = r\<lparr>iframe := (iframe r)\<lparr>rflags := f\<rparr>\<rparr>"

definition guest_flags :: "regs \<Rightarrow> u32" where
  "guest_flags r =
     (let f = flags32 r; vif = (f AND VIF_FLAG \<noteq> 0)
      in (f AND NOT (IF_FLAG OR VIF_FLAG)) OR (if vif then IF_FLAG else 0))"

definition set_vm86_flags :: "u32 \<Rightarrow> regs \<Rightarrow> regs" where
  "set_vm86_flags flags r =
     (let want_vif = (flags AND IF_FLAG \<noteq> 0);
          old = rflags (iframe r);
          viopl = old AND ucast IOPL_MASK;
          f = (old AND NOT 0xFFFF) OR ((ucast flags AND 0xFFFF) AND NOT (ucast (IF_FLAG OR IOPL_MASK)))
              OR ucast IF_FLAG OR viopl
      in put_rflags (if want_vif then f OR ucast VIF_FLAG else f AND NOT (ucast VIF_FLAG)) r)"

definition apply_guest_flags :: "u32 \<Rightarrow> regs \<Rightarrow> regs" where
  "apply_guest_flags img r =
     (let want_vif = (img AND IF_FLAG \<noteq> 0);
          vm = flags32 r AND VM_FLAG;
          viopl = flags32 r AND IOPL_MASK;
          nf = (img AND NOT (IF_FLAG OR VIF_FLAG OR VM_FLAG OR IOPL_MASK)) OR vm OR IF_FLAG OR viopl
      in put_rflags (ucast (if want_vif then nf OR VIF_FLAG else nf)) r)"

definition vm86_entry_flags :: "u32 \<Rightarrow> u32" where
  "vm86_entry_flags current = VM_FLAG OR VIF_FLAG OR IF_FLAG OR (current AND IOPL_MASK)"

definition guest_flags_if_on :: "regs \<Rightarrow> u32" where
  "guest_flags_if_on r = guest_flags r OR IF_FLAG"

definition guest_flags_handler_entry :: "regs \<Rightarrow> u32" where
  "guest_flags_handler_entry r = guest_flags r AND NOT (IF_FLAG OR push_bit 8 1)"

section \<open>String instruction registers\<close>

definition string_index :: "u64 \<Rightarrow> bool \<Rightarrow> u32" where
  "string_index index addr32 = (if addr32 then ucast index else ucast (word16 index))"

definition set_string_index :: "u32 \<Rightarrow> bool \<Rightarrow> u64 \<Rightarrow> u64" where
  "set_string_index v addr32 index = (if addr32 then set32 v index else set16 (ucast v) index)"

definition step_string_index :: "u32 \<Rightarrow> u32 \<Rightarrow> bool \<Rightarrow> bool \<Rightarrow> u32" where
  "step_string_index index step addr32 decrement =
     (let v = (if decrement then index - step else index + step)
      in if addr32 then v else ucast (ucast v :: u16))"

definition advance_string_index :: "u32 \<Rightarrow> bool \<Rightarrow> bool \<Rightarrow> u64 \<Rightarrow> u64" where
  "advance_string_index sz addr32 decrement index =
     set_string_index (step_string_index (string_index index addr32) sz addr32 decrement) addr32 index"

definition dec_rep_count :: "bool \<Rightarrow> regs \<Rightarrow> regs" where
  "dec_rep_count addr32 r =
     (if addr32 then r\<lparr>rcx := set32 (ucast (rcx r) - 1) (rcx r)\<rparr>
      else r\<lparr>rcx := set16 (word16 (rcx r) - 1) (rcx r)\<rparr>)"

section \<open>The board\<close>

record pc_machine =
  pc_vpit :: vpit
  pc_vpic :: vpic
  pc_vrtc :: vrtc
  pc_vkbd :: vkbd
  e0_pending :: bool
  cmos_index :: u8

definition pc_new :: "u64 \<Rightarrow> pc_machine" where
  "pc_new now = \<lparr>pc_vpit = vpit_new now, pc_vpic = vpic_new, pc_vrtc = vrtc_new now, pc_vkbd = vkbd_new,
     e0_pending = False, cmos_index = 0\<rparr>"

text \<open>A queued byte surfaces with its own edge on line 1, unless the handler of line 1 is running.\<close>

definition surface_key :: "u64 \<Rightarrow> pc_machine \<Rightarrow> pc_machine" where
  "surface_key now m =
     (if in_service (pc_vpic m) 1 then m
      else case try_surface now (pc_vkbd m) of
             (up, k) \<Rightarrow> m\<lparr>pc_vkbd := k, pc_vpic := (if up then vpic_raise 1 (pc_vpic m) else pc_vpic m)\<rparr>)"

definition tick_clocks :: "u64 \<Rightarrow> pc_machine \<Rightarrow> pc_machine option" where
  "tick_clocks now m =
     (case take_pending_irqs now (pc_vpit m) of
        None \<Rightarrow> None
      | Some (n, pit) \<Rightarrow>
          let m = m\<lparr>pc_vpit := pit, pc_vpic := (if 0 < n then vpic_raise 0 (pc_vpic m) else pc_vpic m)\<rparr>;
              (k, rtc) = rtc_take_pending_irqs now (pc_vrtc m);
              m = m\<lparr>pc_vrtc := rtc, pc_vpic := (if 0 < k then vpic_raise 8 (pc_vpic m) else pc_vpic m)\<rparr>
          in Some m)"

definition advance_timers :: "u64 \<Rightarrow> pc_machine \<Rightarrow> pc_machine option" where
  "advance_timers now m = map_option (surface_key now) (tick_clocks now m)"

definition queue_irq_key :: "u8 \<Rightarrow> pc_machine \<Rightarrow> pc_machine" where
  "queue_irq_key sc m =
     (case queue_key sc (e0_pending m, pc_vkbd m) of (p, k) \<Rightarrow> m\<lparr>e0_pending := p, pc_vkbd := k\<rparr>)"

definition emulate_inb :: "u64 \<Rightarrow> u16 \<Rightarrow> pc_machine \<Rightarrow> (u8 \<times> pc_machine) option" where
  "emulate_inb now port m =
     (if 0x200 \<le> port \<and> port \<le> 0x20F then Some (0xFF, m)
      else if port = 0x20 then Some (isr (master (pc_vpic m)), m)
      else if port = 0x21 then Some (imr (master (pc_vpic m)), m)
      else if port = 0xA0 then Some (isr (slave (pc_vpic m)), m)
      else if port = 0xA1 then Some (imr (slave (pc_vpic m)), m)
      else if port = 0x60 then (case read_port60 (pc_vkbd m) of (v, k) \<Rightarrow> Some (v, m\<lparr>pc_vkbd := k\<rparr>))
      else if port = 0x61 then
        (case ch2_output now (pc_vpit m) of (out, pit) \<Rightarrow>
         case read_port61 (pc_vkbd m) of (v, k) \<Rightarrow>
           Some ((v AND NOT 0x20) OR (if out then 0x20 else 0), m\<lparr>pc_vpit := pit, pc_vkbd := k\<rparr>))
      else if port = 0x64 then
        (let m = surface_key now m in Some (if has_data (pc_vkbd m) then 1 else 0, m))
      else if port = 0x40 then
        (case read_counter now 0 (pc_vpit m) of (v, pit) \<Rightarrow> Some (v, m\<lparr>pc_vpit := pit\<rparr>))
      else if port = 0x42 then
        (case read_counter now 2 (pc_vpit m) of (v, pit) \<Rightarrow> Some (v, m\<lparr>pc_vpit := pit\<rparr>))
      else if port = 0x41 then Some (0, m)
      else if port = 0x43 then Some (0xFF, m)
      else if port = 0x70 then Some (cmos_index m, m)
      else if port = 0x71 \<and> rtc_owns (cmos_index m) then
        (case rtc_read (cmos_index m) (pc_vrtc m) of (v, rtc) \<Rightarrow> Some (v, m\<lparr>pc_vrtc := rtc\<rparr>))
      else None)"

definition emulate_outb :: "u64 \<Rightarrow> u16 \<Rightarrow> u8 \<Rightarrow> pc_machine \<Rightarrow> pc_machine option" where
  "emulate_outb now port v m =
     (if port = 0x20 then Some (m\<lparr>pc_vpic := snd (master_ocw2 v (pc_vpic m))\<rparr>)
      else if 0x200 \<le> port \<and> port \<le> 0x20F then Some m
      else if port = 0x21 then Some (m\<lparr>pc_vpic := set_master_imr v (pc_vpic m)\<rparr>)
      else if port = 0xA0 then Some (m\<lparr>pc_vpic := snd (slave_ocw2 v (pc_vpic m))\<rparr>)
      else if port = 0xA1 then Some (m\<lparr>pc_vpic := set_slave_imr v (pc_vpic m)\<rparr>)
      else if port = 0x60 then Some (m\<lparr>pc_vkbd := write_port60 v (pc_vkbd m)\<rparr>)
      else if port = 0x61 then Some (m\<lparr>pc_vkbd := write_port61 v (pc_vkbd m)\<rparr>)
      else if port = 0x64 then Some m
      else if port = 0x43 then Some (m\<lparr>pc_vpit := write_command now v (pc_vpit m)\<rparr>)
      else if port = 0x40 then Some (m\<lparr>pc_vpit := write_counter now 0 v (pc_vpit m)\<rparr>)
      else if port = 0x42 then Some (m\<lparr>pc_vpit := write_counter now 2 v (pc_vpit m)\<rparr>)
      else if port = 0x41 then Some m
      else if port = 0x70 then Some (m\<lparr>cmos_index := v AND 0x7F\<rparr>)
      else if port = 0x71 then
        Some (if rtc_owns (cmos_index m) then m\<lparr>pc_vrtc := rtc_write now (cmos_index m) v (pc_vrtc m)\<rparr> else m)
      else None)"

definition irq_vector :: "nat \<Rightarrow> u8" where
  "irq_vector irq = (if irq < 8 then 0x08 + of_nat irq else 0x70 + of_nat (irq - 8))"

definition set_vip :: "bool \<Rightarrow> regs \<Rightarrow> regs" where
  "set_vip on r = put_rflags (if on then set_mask (rflags (iframe r)) 20 else clear_mask (rflags (iframe r)) 20) r"

definition pick_pending_vec :: "pc_machine \<Rightarrow> regs \<Rightarrow> u8 option \<times> pc_machine \<times> regs" where
  "pick_pending_vec m r =
     (let vif = test_mask (rflags (iframe r)) 19; candidate = vpic_peek (pc_vpic m)
      in if \<not> vif then (None, m, set_vip (candidate \<noteq> None) r)
         else case candidate of
                None \<Rightarrow> (None, m, set_vip False r)
              | Some irq \<Rightarrow>
                  if irq = 1 \<and> \<not> has_data (pc_vkbd m)
                  then (None, m\<lparr>pc_vpic := clear_request 1 (pc_vpic m)\<rparr>, set_vip False r)
                  else (Some (irq_vector irq), m\<lparr>pc_vpic := vpic_ack irq (pc_vpic m)\<rparr>, set_vip False r))"

section \<open>What a flags image can change\<close>

lemma bit_flag_consts:
  "bit IF_FLAG n \<longleftrightarrow> n = 9" "bit VIF_FLAG n \<longleftrightarrow> n = 19" "bit VM_FLAG n \<longleftrightarrow> n = 17" "bit IOPL_MASK n \<longleftrightarrow> n = 12 \<or> n = 13"
proof -
  have three: "(3 :: u32) = mask 2" by (simp add: mask_eq_exp_minus_1)
  show "bit IF_FLAG n \<longleftrightarrow> n = 9" "bit VIF_FLAG n \<longleftrightarrow> n = 19" "bit VM_FLAG n \<longleftrightarrow> n = 17"
    by (simp_all only: IF_FLAG_def VIF_FLAG_def VM_FLAG_def bit_push_bit_iff bit_1_iff) auto
  show "bit IOPL_MASK n \<longleftrightarrow> n = 12 \<or> n = 13"
    unfolding IOPL_MASK_def three by (auto simp: bit_simps)
qed

lemma desc_mask_16: "(0xFFFF :: u64) = mask 16"
  by (simp add: mask_eq_exp_minus_1)

lemma flag_test: "f AND IF_FLAG \<noteq> 0 \<longleftrightarrow> bit f 9" "f AND VIF_FLAG \<noteq> 0 \<longleftrightarrow> bit f 19"
  using test_mask_bit [of f 9] test_mask_bit [of f 19] by (simp_all add: test_mask_def IF_FLAG_def VIF_FLAG_def)

lemma bit_guest_flags:
  "bit (guest_flags r) n \<longleftrightarrow> n \<noteq> 19 \<and> n < 32 \<and> bit (rflags (iframe r)) (if n = 9 then 19 else n)"
  unfolding guest_flags_def Let_def flag_test by (auto simp: bit_simps bit_flag_consts flags32_def)

lemma flags_after [simp]: "rflags (iframe (put_rflags f r)) = f"
  by (simp add: put_rflags_def)

text \<open>Bit 9 of the image becomes VIF; bit 9 itself is pinned and VM, VIP and IOPL stay as they were.\<close>

lemma bit_set_vm86_flags:
  "n < 64 \<Longrightarrow> bit (rflags (iframe (set_vm86_flags f r))) n \<longleftrightarrow>
     (if n = 9 then True else if n = 19 then bit f 9
      else if n < 16 \<and> n \<noteq> 12 \<and> n \<noteq> 13 then bit f n else bit (rflags (iframe r)) n)"
  unfolding set_vm86_flags_def Let_def flag_test flags_after desc_mask_16
  by (auto simp: bit_simps bit_flag_consts)

lemma bit_apply_guest_flags:
  "n < 64 \<Longrightarrow> bit (rflags (iframe (apply_guest_flags f r))) n \<longleftrightarrow> n < 32 \<and>
     (if n = 9 then True else if n = 19 then bit f 9
      else if n = 17 \<or> n = 12 \<or> n = 13 then bit (rflags (iframe r)) n else bit f n)"
  unfolding apply_guest_flags_def Let_def flag_test flags_after
  by (auto simp: bit_simps bit_flag_consts flags32_def)

text \<open>Setting the flags and reading them back gives the image, but for the kernel's IOPL.\<close>

lemma guest_flags_roundtrip:
  "n < 16 \<Longrightarrow> n \<noteq> 12 \<Longrightarrow> n \<noteq> 13 \<Longrightarrow> bit (guest_flags (set_vm86_flags f r)) n = bit f n"
  by (simp add: bit_guest_flags bit_set_vm86_flags)

section \<open>Picking an interrupt\<close>

lemma set_vip_bits:
  "bit (rflags (iframe (set_vip on r))) n \<longleftrightarrow> (if n = 20 then on else bit (rflags (iframe r)) n)"
  by (auto simp: set_vip_def bit_set_mask bit_clear_mask)

lemma peek_requested: "vpic_peek p = Some i \<Longrightarrow> is_requested p i \<and> \<not> in_service p i \<and> i < 16 \<and> i \<noteq> CASCADE_LINE"
  using vpic_peek_SomeD [of p i] deliverable_bound [of p i]
  by (auto simp: deliverable_def blocked_def level_def in_service_def test_mask_bit split: if_splits)

lemma irq_vector_9: "i < 16 \<Longrightarrow> irq_vector i = 9 \<longleftrightarrow> i = 1"
  by (auto simp: irq_vector_def word_unat_eq_iff unat_word_ariths unat_of_nat)

text \<open>
  C20. Picking an interrupt is exact on every branch: a vector is returned just when the guest has
  its interrupts on and the best deliverable line is not a keyboard line without a byte waiting; it
  is then the vector of that line and the line moves from requested to in service.  A keyboard
  request without a byte is withdrawn.  Afterwards VIP is set just when interrupts are off
  and a line is deliverable, and no other flag has changed.
\<close>

theorem pick_pending_exact:
  assumes "pick_pending_vec m r = (v, m', r')"
  shows "(v = None \<longleftrightarrow> \<not> bit (rflags (iframe r)) 19 \<or> vpic_peek (pc_vpic m) = None \<or>
            (vpic_peek (pc_vpic m) = Some 1 \<and> \<not> has_data (pc_vkbd m)))
     \<and> (\<forall>vec. v = Some vec \<longrightarrow> (\<exists>irq. vpic_peek (pc_vpic m) = Some irq \<and> vec = irq_vector irq \<and>
            is_requested (pc_vpic m) irq \<and> \<not> in_service (pc_vpic m) irq \<and>
            \<not> is_requested (pc_vpic m') irq \<and> in_service (pc_vpic m') irq))
     \<and> (v = None \<longrightarrow> pc_vpic m' = (if bit (rflags (iframe r)) 19 \<and> vpic_peek (pc_vpic m) = Some 1
            then clear_request 1 (pc_vpic m) else pc_vpic m))
     \<and> (\<forall>n. bit (rflags (iframe r')) n \<longleftrightarrow>
            (if n = 20 then \<not> bit (rflags (iframe r)) 19 \<and> vpic_peek (pc_vpic m) \<noteq> None
             else bit (rflags (iframe r)) n))"
proof (cases "vpic_peek (pc_vpic m)")
  case None
  then show ?thesis
    using assms by (auto simp: pick_pending_vec_def Let_def test_mask_bit set_vip_bits split: if_splits)
next
  case (Some irq)
  note irq = peek_requested [OF Some]
  have ack: "\<not> is_requested (vpic_ack irq (pc_vpic m)) irq" "in_service (vpic_ack irq (pc_vpic m)) irq"
    using irq by (auto simp: vpic_ack_def is_requested_def in_service_def test_mask_bit bit_set_mask bit_clear_mask)
  show ?thesis
    using assms Some irq ack
    by (auto simp: pick_pending_vec_def Let_def test_mask_bit set_vip_bits split: if_splits)
qed

text \<open>The timer has ticked and the guest has its interrupts on.\<close>

theorem pick_pending_exact_witness:
  "fst (pick_pending_vec ((pc_new 0)\<lparr>pc_vpic := vpic_raise 0 vpic_new\<rparr>) (regs_empty\<lparr>iframe := (iframe regs_empty)\<lparr>rflags := 0x80000\<rparr>\<rparr>)) \<noteq> None"
proof -
  let ?m = "(pc_new 0)\<lparr>pc_vpic := vpic_raise 0 vpic_new\<rparr>"
  let ?r = "regs_empty\<lparr>iframe := (iframe regs_empty)\<lparr>rflags := 0x80000\<rparr>\<rparr>"
  obtain v m' r' where step: "pick_pending_vec ?m ?r = (v, m', r')" by (metis prod_cases3)
  have "vpic_peek (vpic_raise 0 vpic_new) = Some 0" by code_simp
  moreover have "bit (rflags (iframe ?r)) 19" using test_mask_bit [of "0x80000 :: u64" 19] by (simp add: test_mask_def)
  ultimately show ?thesis using pick_pending_exact [OF step] step by simp
qed

section \<open>The keyboard protocol\<close>

text \<open>
  What can be seen of the keyboard at the board's edge: a byte appears at port 60h, interrupt 9 is
  delivered, the guest takes the byte, line 1 leaves service.
\<close>

datatype kbd_act = Up u8 | Int9 | Take u8 | Done

datatype kbd_phase = Empty | Waiting u8 | Announced u8

text \<open>
  The contract: a byte appears only at an empty port and outside the handler, it is announced at
  most once and while it waits, and the guest takes the byte that appeared.
\<close>

fun kbd_spec :: "kbd_act \<Rightarrow> kbd_phase \<times> bool \<Rightarrow> (kbd_phase \<times> bool) option" where
  "kbd_spec (Up b) (Empty, False) = Some (Waiting b, False)"
| "kbd_spec Int9 (Waiting b, False) = Some (Announced b, True)"
| "kbd_spec (Take b) (Waiting c, busy) = (if b = c then Some (Empty, busy) else None)"
| "kbd_spec (Take b) (Announced c, busy) = (if b = c then Some (Empty, busy) else None)"
| "kbd_spec Done (p, True) = Some (p, False)"
| "kbd_spec _ _ = None"

fun kbd_spec_run :: "kbd_act list \<Rightarrow> kbd_phase \<times> bool \<Rightarrow> (kbd_phase \<times> bool) option" where
  "kbd_spec_run [] s = Some s"
| "kbd_spec_run (a # as) s = Option.bind (kbd_spec a s) (kbd_spec_run as)"

definition kbd_phase_of :: "pc_machine \<Rightarrow> kbd_phase \<times> bool" where
  "kbd_phase_of m =
     (if \<not> has_data (pc_vkbd m) then Empty
      else if is_requested (pc_vpic m) 1 then Waiting (port60 (pc_vkbd m)) else Announced (port60 (pc_vkbd m)),
      in_service (pc_vpic m) 1)"

text \<open>What the board does: a host key, a clock poll, port accesses, another device's line, a delivery poll.\<close>

datatype pc_event = Key u8 | Tick u64 | In u64 u16 | Out u64 u16 u8 | Line nat | Poll regs

definition appeared :: "pc_machine \<Rightarrow> pc_machine \<Rightarrow> kbd_act list" where
  "appeared m m' = (if \<not> has_data (pc_vkbd m) \<and> has_data (pc_vkbd m') then [Up (port60 (pc_vkbd m'))] else [])"

fun pc_step :: "pc_event \<Rightarrow> pc_machine \<Rightarrow> (kbd_act list \<times> pc_machine) option" where
  "pc_step (Key sc) m = Some ([], queue_irq_key sc m)"
| "pc_step (Tick now) m = map_option (\<lambda>m'. (appeared m m', m')) (advance_timers now m)"
| "pc_step (In now port) m =
     map_option (\<lambda>(v, m'). ((if port = 0x60 \<and> has_data (pc_vkbd m) then [Take v] else appeared m m'), m'))
       (emulate_inb now port m)"
| "pc_step (Out now port v) m =
     map_option (\<lambda>m'. ((if in_service (pc_vpic m) 1 \<and> \<not> in_service (pc_vpic m') 1 then [Done] else []), m'))
       (emulate_outb now port v m)"
| "pc_step (Line irq) m = (if irq = 1 then None else Some ([], m\<lparr>pc_vpic := vpic_raise irq (pc_vpic m)\<rparr>))"
| "pc_step (Poll r) m =
     (case pick_pending_vec m r of (v, m', _) \<Rightarrow> Some (if v = Some 9 then [Int9] else [], m'))"

fun pc_run :: "pc_event list \<Rightarrow> pc_machine \<Rightarrow> (kbd_act list \<times> pc_machine) option" where
  "pc_run [] m = Some ([], m)"
| "pc_run (e # evs) m =
     (case pc_step e m of None \<Rightarrow> None
      | Some (as, m1) \<Rightarrow> map_option (\<lambda>(bs, m2). (as @ bs, m2)) (pc_run evs m1))"

section \<open>The board keeps to the protocol\<close>

text \<open>Line 1 of the controllers under every operation.\<close>

lemma line1_simps:
  "irq \<noteq> 1 \<Longrightarrow> is_requested (vpic_raise irq p) 1 = is_requested p 1" "is_requested (vpic_raise 1 p) 1"
  "in_service (vpic_raise irq p) 1 = in_service p 1"
  "is_requested (set_master_imr v p) 1 = is_requested p 1" "in_service (set_master_imr v p) 1 = in_service p 1"
  "is_requested (set_slave_imr v p) 1 = is_requested p 1" "in_service (set_slave_imr v p) 1 = in_service p 1"
  "in_service (clear_request irq p) 1 = in_service p 1"
  by (simp_all add: is_requested_def in_service_def vpic_raise_def set_master_imr_def set_slave_imr_def clear_request_def
      test_mask_bit bit_set_mask)

lemma line1_ocw2:
  "is_requested (snd (master_ocw2 v p)) 1 = is_requested p 1" "is_requested (snd (slave_ocw2 v p)) 1 = is_requested p 1"
  "in_service (snd (slave_ocw2 v p)) 1 = in_service p 1"
  "\<not> in_service p 1 \<Longrightarrow> \<not> in_service (snd (master_ocw2 v p)) 1"
  by (auto simp: is_requested_def in_service_def master_ocw2_def slave_ocw2_def write_ocw2_def Let_def test_mask_bit
      bit_clear_mask split: option.splits)

lemma line1_ack:
  "irq \<noteq> 1 \<Longrightarrow> is_requested (vpic_ack irq p) 1 = is_requested p 1" "irq \<noteq> 1 \<Longrightarrow> in_service (vpic_ack irq p) 1 = in_service p 1"
  "\<not> is_requested (vpic_ack 1 p) 1" "in_service (vpic_ack 1 p) 1"
  by (auto simp: is_requested_def in_service_def vpic_ack_def CASCADE_LINE_def test_mask_bit bit_set_mask bit_clear_mask)

lemmas line1 [simp] = line1_simps line1_ocw2 line1_ack
lemmas line1_Suc [simp] = line1 [unfolded One_nat_def]

text \<open>Queueing leaves the output buffer alone.\<close>

lemma port_push [simp]: "has_data (vkbd_push sc k) = has_data k" "port60 (vkbd_push sc k) = port60 k"
  by (simp_all add: has_data_def vkbd_push_def queue_scancode_def Let_def)

lemma port_frame [simp]:
  "has_data (write_port60 v k) = has_data k" "port60 (write_port60 v k) = port60 k"
  "has_data (write_port61 v k) = has_data k" "port60 (write_port61 v k) = port60 k"
  "has_data (snd (read_port61 k)) = has_data k" "port60 (snd (read_port61 k)) = port60 k"
  "has_data (k\<lparr>awaiting_cmd_param := b\<rparr>) = has_data k"
  by (simp_all add: write_port60_def write_port61_def read_port61_def Let_def) (simp_all add: has_data_def)

lemma port_queue_key [simp]:
  "has_data (snd (queue_key sc (e, k))) = has_data k" "port60 (snd (queue_key sc (e, k))) = port60 k"
  by (auto simp: queue_key_def split: prod.splits option.splits)

lemma surface_key_spec:
  "kbd_spec_run (appeared m (surface_key now m)) (kbd_phase_of m) = Some (kbd_phase_of (surface_key now m))"
  by (auto simp: surface_key_def try_surface_def appeared_def kbd_phase_of_def has_data_def Let_def)

lemma appeared_cong:
  "pc_vkbd m = pc_vkbd n \<Longrightarrow> appeared m m' = appeared n m'"
  by (simp add: appeared_def)

lemma tick_clocks_kbd:
  "tick_clocks now m = Some n \<Longrightarrow> pc_vkbd n = pc_vkbd m \<and> kbd_phase_of n = kbd_phase_of m"
  by (auto simp: tick_clocks_def kbd_phase_of_def Let_def case_prod_beta split: option.splits if_split_asm cong: if_cong)

lemma advance_timers_spec:
  assumes "advance_timers now m = Some m'"
  shows "kbd_spec_run (appeared m m') (kbd_phase_of m) = Some (kbd_phase_of m')"
proof -
  obtain n where n: "tick_clocks now m = Some n" "m' = surface_key now n"
    using assms by (auto simp: advance_timers_def)
  then show ?thesis
    using surface_key_spec [of n now] tick_clocks_kbd [OF n(1)] appeared_cong [of n m] by simp
qed

lemma emulate_inb_spec:
  assumes "emulate_inb now port m = Some (v, m')"
  shows "kbd_spec_run (if port = 0x60 \<and> has_data (pc_vkbd m) then [Take v] else appeared m m') (kbd_phase_of m) =
    Some (kbd_phase_of m')"
proof (cases "port = 0x64")
  case True
  then show ?thesis using assms surface_key_spec [of m now] by (auto simp: emulate_inb_def Let_def)
next
  case False
  show ?thesis
  proof (cases "port = 0x60")
    case True
    then show ?thesis
      using assms by (auto simp: emulate_inb_def read_port60_def kbd_phase_of_def appeared_def has_data_def)
  next
    case no60: False
    have "has_data (pc_vkbd m') = has_data (pc_vkbd m)" "port60 (pc_vkbd m') = port60 (pc_vkbd m)"
      "pc_vpic m' = pc_vpic m"
      using assms False no60 by (auto simp: emulate_inb_def case_prod_beta split: if_splits)
    then show ?thesis using no60 by (simp add: appeared_def kbd_phase_of_def)
  qed
qed

lemma emulate_outb_spec:
  assumes "emulate_outb now port v m = Some m'"
  shows "kbd_spec_run (if in_service (pc_vpic m) 1 \<and> \<not> in_service (pc_vpic m') 1 then [Done] else []) (kbd_phase_of m) =
    Some (kbd_phase_of m')"
proof -
  have "has_data (pc_vkbd m') = has_data (pc_vkbd m)" "port60 (pc_vkbd m') = port60 (pc_vkbd m)"
    "is_requested (pc_vpic m') 1 = is_requested (pc_vpic m) 1" "\<not> in_service (pc_vpic m) 1 \<Longrightarrow> \<not> in_service (pc_vpic m') 1"
    using assms by (auto simp: emulate_outb_def split: if_splits)
  then show ?thesis by (auto simp: kbd_phase_of_def)
qed

lemma pick_pending_spec:
  assumes "pick_pending_vec m r = (v, m', r')"
  shows "kbd_spec_run (if v = Some 9 then [Int9] else []) (kbd_phase_of m) = Some (kbd_phase_of m')"
proof (cases "vpic_peek (pc_vpic m)")
  case None
  then show ?thesis using assms by (auto simp: pick_pending_vec_def Let_def split: if_splits)
next
  case (Some irq)
  then show ?thesis
    using assms peek_requested [OF Some] irq_vector_9 [of irq]
    by (auto simp: pick_pending_vec_def kbd_phase_of_def Let_def split: if_splits)
qed

lemma pc_step_spec:
  "pc_step e m = Some (as, m') \<Longrightarrow> kbd_spec_run as (kbd_phase_of m) = Some (kbd_phase_of m')"
proof (induction e m rule: pc_step.induct)
  case (1 sc m)
  then show ?case
    by (auto simp: queue_irq_key_def kbd_phase_of_def case_prod_beta)
next
  case (5 irq m)
  then show ?case by (auto simp: kbd_phase_of_def split: if_splits)
next
  case (6 r m)
  then show ?case using pick_pending_spec by (fastforce split: prod.splits)
qed (auto dest: advance_timers_spec emulate_inb_spec emulate_outb_spec)

lemma kbd_spec_run_append:
  "kbd_spec_run (as @ bs) s = Option.bind (kbd_spec_run as s) (kbd_spec_run bs)"
  by (induction as arbitrary: s) (auto simp: Option.bind_assoc split: bind_splits)

lemma pc_run_spec:
  "pc_run evs m = Some (as, m') \<Longrightarrow> kbd_spec_run as (kbd_phase_of m) = Some (kbd_phase_of m')"
  by (induction evs arbitrary: m as)
     (auto simp: kbd_spec_run_append split: option.splits dest!: pc_step_spec)

section \<open>The board answers\<close>

text \<open>
  The only loop is the timer's, which ends unless the cycle counter has saturated.  One event adds
  fewer than \<open>2 ^ 35\<close> cycles whatever the clock reads, so no run of \<open>2 ^ 28\<close> events gets there.
\<close>

definition board_port :: "u16 \<Rightarrow> bool" where
  "board_port port \<longleftrightarrow>
     port \<in> {0x20, 0x21, 0xA0, 0xA1, 0x60, 0x61, 0x64, 0x40, 0x41, 0x42, 0x43, 0x70} \<or> 0x200 \<le> port \<and> port \<le> 0x20F"

fun board_event :: "pc_event \<Rightarrow> bool" where
  "board_event (In now port) = board_port port"
| "board_event (Out now port v) = (board_port port \<or> port = 0x71)"
| "board_event (Line irq) = (irq \<noteq> 1)"
| "board_event _ = True"

definition cycles :: "pc_machine \<Rightarrow> nat" where
  "cycles m = unat (input_cycles (pc_vpit m))"

lemma sync_at_cycles: "unat (input_cycles (sync_at now p)) \<le> unat (input_cycles p) + 2 ^ 35"
proof -
  have "unat (x div NANOS_PER_SECOND) \<le> 2 ^ 35" for x :: u64
  proof -
    have "unat x div 10 ^ 9 \<le> 2 ^ 64 div 10 ^ 9" using unat_u64_less [of x] by (intro div_le_mono) simp
    then show ?thesis by (simp add: NANOS_PER_SECOND_def unat_div)
  qed
  then show ?thesis
    by (auto simp: sync_at_def Let_def rust_arith intro: min.coboundedI1)
qed

lemma pit_frame [simp]:
  "input_cycles (set_chan i c p) = input_cycles p" "input_cycles (snd (read_counter now i p)) = input_cycles (sync_at now p)"
  "input_cycles (write_counter now i v p) = input_cycles (sync_at now p)"
  "input_cycles (write_command now v p) = input_cycles (sync_at now p)"
  "input_cycles (snd (ch2_output now p)) = input_cycles (sync_at now p)"
  by (auto simp: set_chan_def read_counter_def write_counter_def write_command_def ch2_output_def Let_def case_prod_beta
      split: option.splits)

lemma take_pending_irqs_total:
  assumes "unat (input_cycles p) + 2 ^ 35 < 2 ^ 64 - 1"
  shows "\<exists>n q. take_pending_irqs now p = Some (n, q) \<and> input_cycles q = input_cycles (sync_at now p)"
proof -
  let ?s = "sync_at now p"
  have "unat (input_cycles ?s) < 2 ^ 64 - 1" using sync_at_cycles [of now p] assms by linarith
  then have "input_cycles ?s \<noteq> - 1" by auto
  moreover have "0 < divisor (ch0 ?s)" using divisor_bounds(1) [of "ch0 ?s"] by (simp add: word_less_nat_alt)
  ultimately obtain a b where "irq_loop (divisor (ch0 ?s)) (input_cycles ?s) 0 (next_irq_cycle (ch0 ?s)) = Some (a, b)"
    using irq_loop_periodic by blast
  then show ?thesis by (auto simp: take_pending_irqs_def take_irqs_def Let_def)
qed

lemma surface_key_cycles [simp]: "cycles (surface_key now m) = cycles m"
  by (simp add: cycles_def surface_key_def case_prod_beta)

lemma pc_step_total:
  assumes "board_event e" and "cycles m + 2 ^ 35 < 2 ^ 64 - 1"
  shows "\<exists>as m'. pc_step e m = Some (as, m') \<and> cycles m' \<le> cycles m + 2 ^ 35"
proof (cases e)
  case (Key sc)
  then show ?thesis by (simp add: queue_irq_key_def cycles_def case_prod_beta)
next
  case (Tick now)
  obtain n q where "take_pending_irqs now (pc_vpit m) = Some (n, q)" "input_cycles q = input_cycles (sync_at now (pc_vpit m))"
    using take_pending_irqs_total [of "pc_vpit m" now] assms(2) by (auto simp: cycles_def)
  then have "\<exists>m1. tick_clocks now m = Some m1 \<and> cycles m1 \<le> cycles m + 2 ^ 35"
    using sync_at_cycles [of now "pc_vpit m"] by (simp add: tick_clocks_def cycles_def Let_def case_prod_beta)
  then show ?thesis using Tick by (auto simp: advance_timers_def)
next
  case (In now port)
  then show ?thesis
    using assms(1) sync_at_cycles [of now "pc_vpit m"] surface_key_cycles [of now m]
    by (auto simp: emulate_inb_def board_port_def case_prod_beta cycles_def Let_def)
next
  case (Out now port v)
  then show ?thesis
    using assms(1) sync_at_cycles [of now "pc_vpit m"]
    by (auto simp: emulate_outb_def board_port_def cycles_def)
next
  case (Line irq)
  then show ?thesis using assms(1) by (simp add: cycles_def)
next
  case (Poll r)
  then show ?thesis by (auto simp: pick_pending_vec_def cycles_def Let_def split: option.splits)
qed

lemma pc_run_total:
  "list_all board_event evs \<Longrightarrow> cycles m + length evs * 2 ^ 35 < 2 ^ 64 - 1 \<Longrightarrow> \<exists>as m'. pc_run evs m = Some (as, m')"
proof (induction evs arbitrary: m)
  case (Cons e evs)
  then have "board_event e" "cycles m + 2 ^ 35 < 2 ^ 64 - 1" by auto
  from pc_step_total [OF this] obtain as m' where s: "pc_step e m = Some (as, m')" "cycles m' \<le> cycles m + 2 ^ 35" by blast
  then have "cycles m' + length evs * 2 ^ 35 < 2 ^ 64 - 1" using Cons.prems(2) by simp
  then obtain bs n where "pc_run evs m' = Some (bs, n)" using Cons.IH [of m'] Cons.prems(1) by auto
  with s show ?case by simp
qed simp

end
