(* ===== verification/Vdma.thy ===== *)
theory Vdma
  imports Prelude
begin

text \<open>
  \<^verbatim>\<open>kernel/src/kernel/dos/machine/vdma.rs\<close>: the shadow of the two cascaded 8237 DMA controllers.
  Ports are numbers (already folded to ten bits), the eight channels and their generation counters
  are lists of length 8, and every index the code forms is below 8, so no access is out of range
  on a well-formed state (\<open>dma_ok\<close>, kept by every operation).
\<close>

record dma_prog =
  addr :: u16
  count :: u16
  page :: u8
  dmode :: u8

record dma_channel =
  prog :: dma_prog
  masked :: bool
  armed :: bool

record dma8237 =
  ch :: "dma_channel list"
  ff_lo :: bool
  ff_hi :: bool
  count_gen :: "u32 list"
  read_latch :: u16

definition chan_gpa_len :: "dma_prog \<Rightarrow> bool \<Rightarrow> u32 \<times> u32" where
  "chan_gpa_len p is16 =
     (if is16 then (push_bit 16 (ucast (page p)) OR push_bit 1 (ucast (addr p)), (ucast (count p) + 1) * 2)
      else (push_bit 16 (ucast (page p)) OR ucast (addr p), ucast (count p) + 1))"

definition DMA_PAGE_PORT :: "(nat \<times> nat) list" where
  "DMA_PAGE_PORT = [(0x87, 0), (0x83, 1), (0x81, 2), (0x82, 3), (0x8B, 5), (0x89, 6), (0x8A, 7)]"

definition dma_new :: dma8237 where
  "dma_new = \<lparr>ch = replicate 8 \<lparr>prog = \<lparr>addr = 0, count = 0, page = 0, dmode = 0\<rparr>, masked = True, armed = False\<rparr>,
     ff_lo = False, ff_hi = False, count_gen = replicate 8 0, read_latch = 0\<rparr>"

definition dma_owns :: "nat \<Rightarrow> bool" where
  "dma_owns port \<longleftrightarrow> port \<le> 0x0F \<or> (0xC0 \<le> port \<and> port \<le> 0xDF) \<or> (\<exists>e\<in>set DMA_PAGE_PORT. fst e = port)"

text \<open>\<^verbatim>\<open>ff\<close> hands out a mutable reference: reading it and writing it back are \<open>ff\<close> and \<open>set_ff\<close>.\<close>

definition ff :: "bool \<Rightarrow> dma8237 \<Rightarrow> bool" where
  "ff hi d = (if hi then ff_hi d else ff_lo d)"

definition set_ff :: "bool \<Rightarrow> bool \<Rightarrow> dma8237 \<Rightarrow> dma8237" where
  "set_ff hi b d = (if hi then d\<lparr>ff_hi := b\<rparr> else d\<lparr>ff_lo := b\<rparr>)"

definition upd_ch :: "nat \<Rightarrow> (dma_channel \<Rightarrow> dma_channel) \<Rightarrow> dma8237 \<Rightarrow> dma8237" where
  "upd_ch i f d = d\<lparr>ch := (ch d)[i := f (ch d ! i)]\<rparr>"

definition upd_prog :: "nat \<Rightarrow> (dma_prog \<Rightarrow> dma_prog) \<Rightarrow> dma8237 \<Rightarrow> dma8237" where
  "upd_prog i f = upd_ch i (\<lambda>c. c\<lparr>prog := f (prog c)\<rparr>)"

definition set_masked :: "bool \<Rightarrow> dma_channel \<Rightarrow> dma_channel" where
  "set_masked b c = c\<lparr>masked := b\<rparr>"

text \<open>One byte into the half of a register the flip-flop selects.\<close>

definition splice :: "bool \<Rightarrow> u8 \<Rightarrow> u16 \<Rightarrow> u16" where
  "splice flip val r =
     (if \<not> flip then (r AND 0xFF00) OR ucast val else (r AND 0x00FF) OR push_bit 8 (ucast val))"

definition dma_io_write :: "nat \<Rightarrow> u8 \<Rightarrow> dma8237 \<Rightarrow> dma8237" where
  "dma_io_write port val d =
     (case map_of DMA_PAGE_PORT port of
        Some chan \<Rightarrow> upd_prog chan (\<lambda>p. p\<lparr>page := val\<rparr>) d
      | None \<Rightarrow>
          (let hi = (port \<ge> 0xC0);
               reg = (if hi then (port - 0xC0) div 2 else port);
               chan_base = (if hi then 4 else 0) in
           if reg \<le> 7 then
             (let chan = chan_base + reg div 2;
                  is_count = (reg mod 2 = 1);
                  flip = ff hi d;
                  d1 = set_ff hi (\<not> flip) d;
                  d2 = upd_prog chan (\<lambda>p. if is_count then p\<lparr>count := splice flip val (count p)\<rparr>
                                          else p\<lparr>addr := splice flip val (addr p)\<rparr>) d1 in
              if is_count then
                (let d3 = upd_ch chan (\<lambda>c. c\<lparr>armed := False\<rparr>) d2 in
                 if flip then d3\<lparr>count_gen := (count_gen d3)[chan := count_gen d3 ! chan + 1]\<rparr> else d3)
              else d2)
           else if reg = 0x0B then upd_prog (chan_base + unat (val AND 3)) (\<lambda>p. p\<lparr>dmode := val\<rparr>) d
           else if reg = 0x0A then upd_ch (chan_base + unat (val AND 3)) (set_masked (val AND 4 \<noteq> 0)) d
           else if reg = 0x0C then set_ff hi False d
           else if reg = 0x0D then
             fold (\<lambda>c. upd_ch c (set_masked True)) [chan_base..<chan_base + 4] (set_ff hi False d)
           else if reg = 0x0E then fold (\<lambda>c. upd_ch c (set_masked False)) [chan_base..<chan_base + 4] d
           else if reg = 0x0F then
             fold (\<lambda>i. upd_ch (chan_base + i) (set_masked (test_mask val i))) [0..<4] d
           else d))"

definition dma_io_read :: "nat \<Rightarrow> dma8237 \<Rightarrow> u8 \<times> dma8237" where
  "dma_io_read port d =
     (case map_of DMA_PAGE_PORT port of
        Some chan \<Rightarrow> (page (prog (ch d ! chan)), d)
      | None \<Rightarrow>
          (let hi = (port \<ge> 0xC0);
               reg = (if hi then (port - 0xC0) div 2 else port);
               chan_base = (if hi then 4 else 0) in
           if reg \<le> 7 then
             (let chan = chan_base + reg div 2;
                  is_count = (reg mod 2 = 1);
                  p = prog (ch d ! chan);
                  v = (if is_count then count p else addr p);
                  byte = (if \<not> ff hi d then lo8 v else hi8 v) in
              (byte, set_ff hi (\<not> ff hi d) d))
           else if reg = 0x08 then (0x00, d)
           else (0xFF, d)))"

section \<open>Well-formedness and frames\<close>

definition dma_ok :: "dma8237 \<Rightarrow> bool" where
  "dma_ok d \<longleftrightarrow> length (ch d) = 8 \<and> length (count_gen d) = 8"

lemma dma_ok_new: "dma_ok dma_new"
  by (simp add: dma_ok_def dma_new_def)

lemma upd_ch_fields [simp]:
  "length (ch (upd_ch i f d)) = length (ch d)" "count_gen (upd_ch i f d) = count_gen d"
  "ff_lo (upd_ch i f d) = ff_lo d" "ff_hi (upd_ch i f d) = ff_hi d"
  "length (ch (upd_prog i g d)) = length (ch d)" "count_gen (upd_prog i g d) = count_gen d"
  "ff_lo (upd_prog i g d) = ff_lo d" "ff_hi (upd_prog i g d) = ff_hi d"
  by (simp_all add: upd_ch_def upd_prog_def)

lemma set_ff_fields [simp]:
  "ch (set_ff hi b d) = ch d" "count_gen (set_ff hi b d) = count_gen d"
  "ff_lo (set_ff hi b d) = (if hi then ff_lo d else b)" "ff_hi (set_ff hi b d) = (if hi then b else ff_hi d)"
  by (simp_all add: set_ff_def)

lemma upd_ch_nth: "j < length (ch d) \<Longrightarrow> ch (upd_ch i f d) ! j = (if i = j then f (ch d ! j) else ch d ! j)"
  by (simp add: upd_ch_def nth_list_update)

lemma upd_prog_nth:
  "j < length (ch d) \<Longrightarrow> ch (upd_prog i f d) ! j =
     (if i = j then (ch d ! j)\<lparr>prog := f (prog (ch d ! j))\<rparr> else ch d ! j)"
  by (simp add: upd_prog_def upd_ch_nth)

lemma splice_both: "splice True (hi8 v) (splice False (lo8 v) r) = v"
proof -
  have "splice b w x = (if \<not> b then (x AND push_bit 8 (mask 8)) OR ucast w else (x AND mask 8) OR push_bit 8 (ucast w))"
    for b w x by (simp add: splice_def mask_eq_exp_minus_1)
  then show ?thesis by (intro bit_word_eqI) (auto simp: lo8_def hi8_def bit_simps)
qed

section \<open>Programming a channel\<close>

text \<open>The port of a channel's address or count register, and of its controller's flip-flop reset.\<close>

definition dma_port :: "nat \<Rightarrow> bool \<Rightarrow> nat" where
  "dma_port c is_count =
     (let reg = 2 * (c mod 4) + (if is_count then 1 else 0) in if c < 4 then reg else 0xC0 + 2 * reg)"

definition ff_port :: "nat \<Rightarrow> nat" where
  "ff_port c = (if c < 4 then 0x0C else 0xD8)"

lemma less_8_cases: "(c :: nat) < 8 \<Longrightarrow> c = 0 \<or> c = 1 \<or> c = 2 \<or> c = 3 \<or> c = 4 \<or> c = 5 \<or> c = 6 \<or> c = 7"
  by linarith

lemma dma_port_decode:
  assumes "c < 8"
  shows "map_of DMA_PAGE_PORT (dma_port c b) = None" and "(0xC0 \<le> dma_port c b) = (4 \<le> c)"
    and "(if 4 \<le> c then (dma_port c b - 0xC0) div 2 else dma_port c b) = 2 * (c mod 4) + (if b then 1 else 0)"
  using less_8_cases [OF assms] by (auto simp: dma_port_def DMA_PAGE_PORT_def Let_def)

lemma chan_of_reg: "c < 8 \<Longrightarrow> (if 4 \<le> c then 4 else 0) + (2 * (c mod 4) + (if b then 1 else 0)) div 2 = (c :: nat)"
  using less_8_cases [of c] by auto

lemma write_reg:
  assumes "c < 8"
  shows "dma_io_write (dma_port c False) val d =
      upd_prog c (\<lambda>p. p\<lparr>addr := splice (ff (4 \<le> c) d) val (addr p)\<rparr>) (set_ff (4 \<le> c) (\<not> ff (4 \<le> c) d) d)"
    and "dma_io_write (dma_port c True) val d =
      (let d3 = upd_ch c (\<lambda>c. c\<lparr>armed := False\<rparr>)
          (upd_prog c (\<lambda>p. p\<lparr>count := splice (ff (4 \<le> c) d) val (count p)\<rparr>) (set_ff (4 \<le> c) (\<not> ff (4 \<le> c) d) d)) in
       if ff (4 \<le> c) d then d3\<lparr>count_gen := (count_gen d3)[c := count_gen d3 ! c + 1]\<rparr> else d3)"
proof -
  have r: "2 * (c mod 4) + (if b then 1 else 0) \<le> 7" "(2 * (c mod 4) + (if b then 1 else 0)) mod 2 = (if b then 1 else 0)"
    for b by auto
  show "dma_io_write (dma_port c False) val d =
      upd_prog c (\<lambda>p. p\<lparr>addr := splice (ff (4 \<le> c) d) val (addr p)\<rparr>) (set_ff (4 \<le> c) (\<not> ff (4 \<le> c) d) d)"
    unfolding dma_io_write_def Let_def dma_port_decode [OF assms] chan_of_reg [OF assms] using r [of False] by simp
  show "dma_io_write (dma_port c True) val d =
      (let d3 = upd_ch c (\<lambda>c. c\<lparr>armed := False\<rparr>)
          (upd_prog c (\<lambda>p. p\<lparr>count := splice (ff (4 \<le> c) d) val (count p)\<rparr>) (set_ff (4 \<le> c) (\<not> ff (4 \<le> c) d) d)) in
       if ff (4 \<le> c) d then d3\<lparr>count_gen := (count_gen d3)[c := count_gen d3 ! c + 1]\<rparr> else d3)"
    unfolding dma_io_write_def Let_def dma_port_decode [OF assms] chan_of_reg [OF assms] using r [of True] by simp
qed

lemma read_reg:
  assumes "c < 8"
  shows "dma_io_read (dma_port c b) d =
    (let p = prog (ch d ! c); v = (if b then count p else addr p) in
     (if \<not> ff (4 \<le> c) d then lo8 v else hi8 v, set_ff (4 \<le> c) (\<not> ff (4 \<le> c) d) d))"
proof -
  have "2 * (c mod 4) + (if b then 1 else 0) \<le> 7" "(2 * (c mod 4) + (if b then 1 else 0)) mod 2 = (if b then 1 else 0)"
    by auto
  then show ?thesis
    unfolding dma_io_read_def Let_def dma_port_decode [OF assms] chan_of_reg [OF assms] by simp
qed

lemma write_ff_port: "c < 8 \<Longrightarrow> dma_io_write (ff_port c) val d = set_ff (4 \<le> c) False d"
  by (auto simp: dma_io_write_def ff_port_def DMA_PAGE_PORT_def)

lemma write_page_port: "(pp, c) \<in> set DMA_PAGE_PORT \<Longrightarrow> dma_io_write pp val d = upd_prog c (\<lambda>p. p\<lparr>page := val\<rparr>) d"
  by (auto simp: dma_io_write_def DMA_PAGE_PORT_def)

definition dma_program :: "nat \<Rightarrow> nat \<Rightarrow> u16 \<Rightarrow> u16 \<Rightarrow> u8 \<Rightarrow> dma8237 \<Rightarrow> dma8237" where
  "dma_program c pp a n pg d =
     dma_io_write pp pg
       (dma_io_write (dma_port c True) (hi8 n) (dma_io_write (dma_port c True) (lo8 n)
         (dma_io_write (dma_port c False) (hi8 a) (dma_io_write (dma_port c False) (lo8 a)
           (dma_io_write (ff_port c) 0 d)))))"

lemma ff_simps [simp]:
  "ff hi (set_ff hi b d) = b" "ff hi (upd_ch i f d) = ff hi d" "ff hi (upd_prog i g d) = ff hi d"
  "ff hi (d\<lparr>count_gen := x\<rparr>) = ff hi d"
  by (simp_all add: ff_def set_ff_def upd_ch_def upd_prog_def)

lemma set_ff_absorb [simp]: "set_ff hi b (set_ff hi b' d) = set_ff hi b d" "ff hi d = b \<Longrightarrow> set_ff hi b d = d"
  by (auto simp: set_ff_def ff_def)

lemma set_ff_commute [simp]: "set_ff hi b (upd_ch i f d) = upd_ch i f (set_ff hi b d)"
  "set_ff hi b (upd_prog i g d) = upd_prog i g (set_ff hi b d)"
  by (simp_all add: set_ff_def upd_ch_def upd_prog_def)

lemma upd_ch_twice: "i < length (ch d) \<Longrightarrow> upd_ch i f (upd_ch i g d) = upd_ch i (\<lambda>c. f (g c)) d"
  by (simp add: upd_ch_def)

lemma write_addr_pair:
  assumes "c < 8" and "length (ch d) = 8" and "ff (4 \<le> c) d = False"
  shows "dma_io_write (dma_port c False) (hi8 v) (dma_io_write (dma_port c False) (lo8 v) d) =
    upd_prog c (\<lambda>p. p\<lparr>addr := v\<rparr>) d"
  using assms by (simp add: write_reg upd_prog_def upd_ch_twice splice_both)

lemma write_count_pair:
  assumes "c < 8" and "length (ch d) = 8" and "ff (4 \<le> c) d = False"
  shows "dma_io_write (dma_port c True) (hi8 v) (dma_io_write (dma_port c True) (lo8 v) d) =
    (upd_ch c (\<lambda>c. c\<lparr>prog := (prog c)\<lparr>count := v\<rparr>, armed := False\<rparr>) d)\<lparr>count_gen := (count_gen d)[c := count_gen d ! c + 1]\<rparr>"
  using assms by (simp add: write_reg upd_prog_def upd_ch_twice splice_both Let_def)

lemma dma_program_eq:
  assumes "c < 8" and "(pp, c) \<in> set DMA_PAGE_PORT" and "dma_ok d"
  shows "dma_program c pp a n pg d =
    (upd_ch c (\<lambda>c. c\<lparr>armed := False, prog := (prog c)\<lparr>addr := a, count := n, page := pg\<rparr>\<rparr>) (set_ff (4 \<le> c) False d))
      \<lparr>count_gen := (count_gen d)[c := count_gen d ! c + 1]\<rparr>"
proof -
  have "upd_ch c f (e\<lparr>count_gen := x\<rparr>) = (upd_ch c f e)\<lparr>count_gen := x\<rparr>" for f e x by (simp add: upd_ch_def)
  then show ?thesis
    using assms
    by (simp add: dma_program_def write_ff_port write_addr_pair write_count_pair write_page_port [OF assms(2)]
        dma_ok_def upd_prog_def upd_ch_twice)
qed

section \<open>The transfer a channel describes\<close>

lemma unat_or_disjoint:
  "x AND y = 0 \<Longrightarrow> unat x + unat y < 2 ^ LENGTH('a) \<Longrightarrow> unat (x OR y) = unat x + unat (y :: 'a::len word)"
  by (simp add: disjunctive_add_eq_or [symmetric] unat_add_lem [THEN iffD1])

lemma unat_push_u32:
  "unat x * 2 ^ k < 2 ^ 32 \<Longrightarrow> unat (push_bit k x :: u32) = unat x * 2 ^ k"
  unfolding unsigned_push_bit_eq by (simp add: push_bit_eq_mult take_bit_nat_eq_self)

lemma gpa_8: "unat (push_bit 16 (ucast (g :: u8)) OR ucast (a :: u16) :: u32) = unat g * 65536 + unat a"
proof -
  have "push_bit 16 (ucast g :: u32) AND ucast a = 0"
    by (rule bit_word_eqI) (auto simp: bit_simps dest: bit_imp_le_length)
  then show ?thesis
    using unat_u8_less [of g] unat_u16_less [of a]
    by (simp add: unat_or_disjoint unat_push_u32 unat_ucast_widen)
qed

lemma gpa_16:
  assumes "even (unat g)"
  shows "unat (push_bit 16 (ucast (g :: u8)) OR push_bit 1 (ucast (a :: u16)) :: u32) = unat g * 65536 + 2 * unat a"
proof -
  have "\<not> bit (unat g) 0" using assms by (simp add: bit_0)
  then have "\<not> bit g 0" by (simp add: bit_unsigned_iff del: bit_0)
  then have "\<not> (bit (push_bit 16 (ucast g :: u32)) n \<and> bit (push_bit k (ucast a :: u32)) n)" if "k \<le> 1" for n k
    using that by (cases "n = 16") (auto simp: bit_simps dest: bit_imp_le_length)
  from this [of 1] have "push_bit 16 (ucast g :: u32) AND push_bit 1 (ucast a) = 0"
    by (intro bit_word_eqI) (simp add: bit_and_iff)
  moreover have "unat (push_bit 1 (ucast a :: u32)) = 2 * unat a"
    using unat_push_u32 [of "ucast a" 1] unat_u16_less [of a] by (simp add: unat_ucast_widen)
  ultimately show ?thesis
    using unat_or_disjoint [of "push_bit 16 (ucast g :: u32)" "push_bit 1 (ucast a)"]
      unat_u8_less [of g] unat_u16_less [of a]
    by (simp add: unat_push_u32 unat_ucast_widen)
qed

section \<open>Properties\<close>

text \<open>
  C25. Programming a DMA channel through its ports takes effect exactly: after the flip-flop
  reset, address low and high, count low and high and the page, the channel holds that address,
  count and page with its mode and mask kept, is un-armed with its generation bumped once, no
  other channel and no flip-flop of the other controller has changed, and reading the address
  and count ports returns the bytes written, low first.
\<close>

theorem dma_program_readback:
  assumes "c < 8" and "(pp, c) \<in> set DMA_PAGE_PORT" and "dma_ok d" and "d' = dma_program c pp a n pg d"
  shows "ch d' ! c = (ch d ! c)\<lparr>prog := (prog (ch d ! c))\<lparr>addr := a, count := n, page := pg\<rparr>, armed := False\<rparr> \<and>
    (\<forall>j<8. j \<noteq> c \<longrightarrow> ch d' ! j = ch d ! j) \<and> count_gen d' = (count_gen d)[c := count_gen d ! c + 1] \<and>
    ff (c < 4) d' = ff (c < 4) d \<and>
    fst (dma_io_read (dma_port c False) d') = lo8 a \<and>
    fst (dma_io_read (dma_port c False) (snd (dma_io_read (dma_port c False) d'))) = hi8 a \<and>
    fst (dma_io_read (dma_port c True) d') = lo8 n \<and>
    fst (dma_io_read (dma_port c True) (snd (dma_io_read (dma_port c True) d'))) = hi8 n"
proof -
  note d' = assms(4) [unfolded dma_program_eq [OF assms(1-3)]]
  have len: "length (ch d) = 8" using assms(3) by (simp add: dma_ok_def)
  have cc: "ch d' ! c = (ch d ! c)\<lparr>prog := (prog (ch d ! c))\<lparr>addr := a, count := n, page := pg\<rparr>, armed := False\<rparr>"
    using d' len assms(1) by (simp add: upd_ch_nth)
  moreover have "ff (4 \<le> c) d' = False" "ff (c < 4) d' = ff (c < 4) d"
    using d' by (simp_all add: ff_def set_ff_def upd_ch_def)
  moreover have "ch d' ! j = ch d ! j" if "j < 8" "j \<noteq> c" for j
    using d' len that by (simp add: upd_ch_nth)
  moreover have "count_gen d' = (count_gen d)[c := count_gen d ! c + 1]" using d' by simp
  ultimately show ?thesis using assms(1) by (simp add: read_reg Let_def)
qed

theorem dma_program_readback_witness:
  "fst (dma_io_read 0xC4 (dma_program 5 0x8B 0x1234 0x0FFF 2 dma_new)) = 0x34 \<and>
   count_gen (dma_program 5 0x8B 0x1234 0x0FFF 2 dma_new) ! 5 = 1"
proof -
  have "(0x8B, 5) \<in> set DMA_PAGE_PORT" "dma_port 5 False = 0xC4" "lo8 0x1234 = 0x34"
    "(count_gen dma_new)[5 := count_gen dma_new ! 5 + 1] ! 5 = 1"
    by (simp_all add: DMA_PAGE_PORT_def dma_port_def lo8_def dma_new_def)
  then show ?thesis
    using dma_program_readback [OF _ _ dma_ok_new refl, of 5 "0x8B" "0x1234" "0x0FFF" 2] by simp
qed

text \<open>
  A decoded transfer is a well-formed guest-physical range: a channel programmed with address
  \<open>a\<close>, count \<open>n\<close> and page \<open>g\<close> covers \<open>n + 1\<close> bytes from \<open>g * 65536 + a\<close> on an 8-bit controller and, on
  the 16-bit one, \<open>2 * (n + 1)\<close> bytes from the even address \<open>g * 65536 + 2 * a\<close> whenever the page is even;
  no 32-bit operation wraps.
\<close>

theorem dma_decode_range:
  assumes "is16 \<longrightarrow> even (unat (page p))"
  shows "unat (fst (chan_gpa_len p is16)) = unat (page p) * 65536 + (if is16 then 2 else 1) * unat (addr p) \<and>
    unat (snd (chan_gpa_len p is16)) = (if is16 then 2 else 1) * (unat (count p) + 1)"
proof -
  have "unat (ucast (count p) + 1 :: u32) = unat (count p) + 1"
    using unat_u16_less [of "count p"] by (subst unat_add_lem [THEN iffD1]) (simp_all add: unat_ucast_widen)
  moreover from this have "unat ((ucast (count p) + 1) * 2 :: u32) = (unat (count p) + 1) * 2"
    using unat_u16_less [of "count p"] by (subst unat_mult_lem [THEN iffD1]) simp_all
  ultimately show ?thesis
    using assms gpa_8 [of "page p" "addr p"] gpa_16 [of "page p" "addr p"] by (simp add: chan_gpa_len_def)
qed

theorem dma_decode_range_witness:
  "unat (fst (chan_gpa_len \<lparr>addr = 0x9000, count = 0xFFFF, page = 2, dmode = 0\<rparr> True)) = 0x32000 \<and>
   unat (snd (chan_gpa_len \<lparr>addr = 0x9000, count = 0xFFFF, page = 2, dmode = 0\<rparr> True)) = 131072"
  using dma_decode_range [of True "\<lparr>addr = 0x9000, count = 0xFFFF, page = 2, dmode = 0\<rparr>"] by simp

end
