(* ===== verification/Umb.thy ===== *)
theory Umb
  imports Guest
begin

text \<open>
  The upper memory area of \<^verbatim>\<open>kernel/src/kernel/dos/xms.rs\<close> (lines 401-561): the scan for free pages,
  the choice of the EMS page frame and the upper memory block allocator. The two 48-bit page maps
  are pairs of 32-bit halves as in the code (\<open>load64\<close> and friends); the statics that hold them
  are the record \<open>uma\<close>. The count of free pages that \<^verbatim>\<open>scan_uma\<close> only prints is left out.

  Every search is one loop over the 48 pages for a run of set bits, \<open>run_scan\<close>, shown to return
  the first fit and to fail only when nothing fits (\<open>run_scan_Some\<close>, \<open>run_scan_None\<close>).
\<close>

definition UMA_BASE :: nat where "UMA_BASE = 0xC0"
definition UMA_END :: nat where "UMA_END = 0xF0"
definition UMA_PAGES :: nat where "UMA_PAGES = UMA_END - UMA_BASE"

lemma UMA_PAGES_48 [simp]: "UMA_PAGES = 48"
  by (simp add: UMA_PAGES_def UMA_END_def UMA_BASE_def)

section \<open>The split page maps\<close>

type_synonym halves = "u32 \<times> u32"

definition load64 :: "halves \<Rightarrow> u64" where
  "load64 p = push_bit 32 (ucast (snd p)) OR ucast (fst p)"

definition store64 :: "u64 \<Rightarrow> halves" where
  "store64 v = (ucast v, ucast (drop_bit 32 v))"

definition and64 :: "halves \<Rightarrow> u64 \<Rightarrow> halves" where
  "and64 p m = (fst p AND ucast m, snd p AND ucast (drop_bit 32 m))"

definition or64 :: "halves \<Rightarrow> u64 \<Rightarrow> halves" where
  "or64 p m = (fst p OR ucast m, snd p OR ucast (drop_bit 32 m))"

lemma bit_load64: "bit (load64 p) n \<longleftrightarrow> (if n < 32 then bit (fst p) n else bit (snd p) (n - 32))"
proof -
  have "n < 64" if "32 \<le> n" "bit (snd p) (n - 32)" using bit_imp_le_length [OF that(2)] by simp
  moreover have "n < 32" if "bit (fst p) n" using bit_imp_le_length [OF that] by simp
  ultimately show ?thesis by (auto simp: load64_def bit_simps)
qed

lemma load_store64 [simp]: "load64 (store64 v) = v"
  by (rule bit_word_eqI) (auto simp: bit_load64 store64_def bit_simps)

lemma load_and64 [simp]: "load64 (and64 p m) = load64 p AND m"
  by (rule bit_word_eqI) (auto simp: bit_load64 and64_def bit_simps)

lemma load_or64 [simp]: "load64 (or64 p m) = load64 p OR m"
  by (rule bit_word_eqI) (auto simp: bit_load64 or64_def bit_simps)

record uma =
  uma_free :: halves
  umb_allocated :: halves
  ems_base_page :: nat

section \<open>Searching a page map\<close>

fun run_scan :: "u64 \<Rightarrow> nat \<Rightarrow> nat list \<Rightarrow> nat \<Rightarrow> nat \<Rightarrow> nat option" where
  "run_scan bitmap count [] run_start run_len = None"
| "run_scan bitmap count (i # is) run_start run_len =
     (if test_mask bitmap i then
        (let run_start' = (if run_len = 0 then i else run_start); run_len' = run_len + 1 in
         if run_len' \<ge> count then Some run_start' else run_scan bitmap count is run_start' run_len')
      else run_scan bitmap count is run_start 0)"

definition find_contiguous_run :: "u64 \<Rightarrow> nat \<Rightarrow> nat \<Rightarrow> nat option" where
  "find_contiguous_run bitmap count hint =
     (let m = push_bit hint (push_bit count 1 - 1) in
      if hint + count \<le> UMA_PAGES \<and> bitmap AND m = m then Some hint
      else run_scan bitmap count [0..<UMA_PAGES] 0 0)"

definition page_uniform :: "guest \<Rightarrow> nat \<Rightarrow> bool" where
  "page_uniform g base =
     (let first = guest_read8 g base in
      list_all (\<lambda>j. guest_read8 g (base + j) = first) [1..<4096] \<and> (first = 0x00 \<or> first = 0xFF))"

definition scan_uma :: "guest \<Rightarrow> uma \<Rightarrow> uma" where
  "scan_uma g u =
     (let free = fold (\<lambda>i f. if page_uniform g ((UMA_BASE + i) * 4096) then set_mask f i else f) [0..<UMA_PAGES] 0;
          u1 = u\<lparr>uma_free := store64 free\<rparr> in
      case find_contiguous_run free 16 (0xD0 - UMA_BASE) of
        Some off \<Rightarrow>
          u1\<lparr>ems_base_page := UMA_BASE + off,
             uma_free := and64 (uma_free u1) (NOT (push_bit off (push_bit 16 1 - 1)))\<rparr>
      | None \<Rightarrow> u1)"

definition umb_avail :: "uma \<Rightarrow> u64" where
  "umb_avail u = load64 (uma_free u) AND NOT (load64 (umb_allocated u))"

definition umb_alloc :: "u16 \<Rightarrow> uma \<Rightarrow> guest \<Rightarrow> (u16 \<times> u16) option \<times> uma \<times> guest" where
  "umb_alloc paragraphs u g =
     (let pages_needed = div_ceil (unat paragraphs * 16) 4096 in
      if pages_needed = 0 then (None, u, g)
      else case run_scan (umb_avail u) pages_needed [0..<UMA_PAGES] 0 0 of
             None \<Rightarrow> (None, u, g)
           | Some run_start \<Rightarrow>
               (let alloc_mask = fold (\<lambda>j m. set_mask m j) [run_start..<run_start + pages_needed] 0;
                    base_page = UMA_BASE + run_start in
                (Some (of_nat base_page * 0x100, of_nat pages_needed * 0x100),
                 u\<lparr>umb_allocated := or64 (umb_allocated u) alloc_mask\<rparr>,
                 unmap_range base_page pages_needed g)))"

function umb_free_loop :: "u64 \<Rightarrow> u64 \<Rightarrow> nat \<Rightarrow> u64 \<times> nat" where
  "umb_free_loop alloc m i =
     (if i < UMA_PAGES \<and> test_mask alloc i then umb_free_loop alloc (set_mask m i) (i + 1) else (m, i))"
  by auto
termination by (relation "measure (\<lambda>(_, _, i). UMA_PAGES - i)") auto

declare umb_free_loop.simps [simp del]

definition umb_free :: "u16 \<Rightarrow> uma \<Rightarrow> guest \<Rightarrow> bool \<times> uma \<times> guest" where
  "umb_free segment u g =
     (let page = unat (segment div 0x100) in
      if \<not> (UMA_BASE \<le> page \<and> page < UMA_END) then (False, u, g)
      else let offset = page - UMA_BASE; alloc = load64 (umb_allocated u) in
        if \<not> test_mask alloc offset then (False, u, g)
        else case umb_free_loop alloc 0 offset of
               (m, i) \<Rightarrow>
                 (True, u\<lparr>umb_allocated := and64 (umb_allocated u) (NOT m)\<rparr>, unmap_range page (i - offset) g))"

fun largest_scan :: "u64 \<Rightarrow> nat list \<Rightarrow> nat \<Rightarrow> nat \<Rightarrow> nat" where
  "largest_scan avail [] largest run = largest"
| "largest_scan avail (i # is) largest run =
     (if test_mask avail i then
        (let run' = run + 1 in largest_scan avail is (if run' > largest then run' else largest) run')
      else largest_scan avail is largest 0)"

definition umb_largest :: "uma \<Rightarrow> u16" where
  "umb_largest u = of_nat (largest_scan (umb_avail u) [0..<UMA_PAGES] 0 0) * 0x100"

section \<open>The first fit\<close>

definition fits :: "u64 \<Rightarrow> nat \<Rightarrow> nat \<Rightarrow> nat \<Rightarrow> bool" where
  "fits bm hi count s \<longleftrightarrow> s + count \<le> hi \<and> (\<forall>j. s \<le> j \<and> j < s + count \<longrightarrow> bit bm j)"

lemma fits_step:
  "fits bm (Suc i) count s \<longleftrightarrow> fits bm i count s \<or> (s + count = Suc i \<and> (\<forall>j. s \<le> j \<and> j \<le> i \<longrightarrow> bit bm j))"
  by (auto simp: fits_def le_Suc_eq)

definition run_inv :: "u64 \<Rightarrow> nat \<Rightarrow> nat \<Rightarrow> nat \<Rightarrow> nat \<Rightarrow> bool" where
  "run_inv bm count i rs rl \<longleftrightarrow> rl \<le> i \<and> rl < count \<and> (0 < rl \<longrightarrow> rs = i - rl) \<and>
     (\<forall>j. i - rl \<le> j \<and> j < i \<longrightarrow> bit bm j) \<and> (i - rl = 0 \<or> \<not> bit bm (i - rl - 1)) \<and>
     (\<forall>s. \<not> fits bm i count s)"

lemma run_inv_start: "0 < count \<Longrightarrow> run_inv bm count 0 0 0"
  by (simp add: run_inv_def fits_def)

lemma run_inv_clear: "run_inv bm count i rs rl \<Longrightarrow> \<not> bit bm i \<Longrightarrow> run_inv bm count (Suc i) rs' 0"
  by (auto simp: run_inv_def fits_step)

lemma run_inv_set:
  assumes inv: "run_inv bm count i rs rl" and b: "bit bm i"
  defines "rs' \<equiv> if rl = 0 then i else rs"
  shows "Suc rl < count \<Longrightarrow> run_inv bm count (Suc i) rs' (Suc rl)"
    and "count \<le> Suc rl \<Longrightarrow> fits bm (Suc i) count rs' \<and> (\<forall>s<rs'. \<not> fits bm hi count s)"
proof -
  have rs': "rs' = i - rl" and le: "rl \<le> i" using inv by (auto simp: rs'_def run_inv_def)
  have bits: "bit bm j" if "i - rl \<le> j" "j \<le> i" for j
    using inv b that by (cases "j = i") (auto simp: run_inv_def)
  show "run_inv bm count (Suc i) rs' (Suc rl)" if "Suc rl < count"
  proof -
    have "\<not> fits bm (Suc i) count s" for s
    proof
      assume "fits bm (Suc i) count s"
      then have s: "s + count = Suc i" "\<forall>j. s \<le> j \<and> j \<le> i \<longrightarrow> bit bm j"
        using inv by (auto simp: fits_step run_inv_def)
      then have "s \<le> i - rl - 1" "0 < i - rl" using that by auto
      then have "bit bm (i - rl - 1)" using s(2) by simp
      then show False using inv \<open>0 < i - rl\<close> by (simp add: run_inv_def)
    qed
    then show ?thesis using inv bits that rs' le by (simp add: run_inv_def less_Suc_eq_le)
  qed
  show "fits bm (Suc i) count rs' \<and> (\<forall>s<rs'. \<not> fits bm hi count s)" if "count \<le> Suc rl"
  proof -
    have c: "count = Suc rl" using that inv by (simp add: run_inv_def)
    have "\<not> fits bm hi count s" if "s < rs'" for s
      using inv that c rs' le unfolding run_inv_def fits_def by auto
    then show ?thesis using bits rs' le c by (auto simp: fits_def)
  qed
qed

lemma run_scan_first:
  "run_inv bm count i rs rl \<Longrightarrow> i \<le> hi \<Longrightarrow>
     (case run_scan bm count [i..<hi] rs rl of
        None \<Rightarrow> \<forall>s. \<not> fits bm hi count s
      | Some s \<Rightarrow> fits bm hi count s \<and> (\<forall>s' < s. \<not> fits bm hi count s'))"
proof (induction "hi - i" arbitrary: i rs rl)
  case 0
  then show ?case by (simp add: run_inv_def)
next
  case (Suc k)
  then have u: "[i..<hi] = i # [Suc i..<hi]" "Suc i \<le> hi" by (simp_all add: upt_conv_Cons)
  have mono: "fits bm hi count s" if "fits bm (Suc i) count s" for s using that u(2) by (simp add: fits_def)
  show ?case
  proof (cases "bit bm i")
    case False
    then show ?thesis
      using Suc.hyps(1) [OF _ run_inv_clear [OF Suc.prems(1) False] u(2)] Suc.hyps(2) u(1)
      by (simp add: test_mask_bit)
  next
    case True
    note st = run_inv_set [OF Suc.prems(1) True]
    show ?thesis
    proof (cases "Suc rl < count")
      case True
      then show ?thesis
        using Suc.hyps(1) [OF _ st(1) [OF True] u(2)] Suc.hyps(2) u(1) \<open>bit bm i\<close>
        by (simp add: test_mask_bit Let_def)
    next
      case False
      then show ?thesis
        using st(2) [of hi] mono u(1) \<open>bit bm i\<close> by (auto simp: test_mask_bit Let_def)
    qed
  qed
qed

lemma run_scan_Some:
  "0 < count \<Longrightarrow> run_scan bm count [0..<hi] 0 0 = Some s \<Longrightarrow>
     fits bm hi count s \<and> (\<forall>s' < s. \<not> fits bm hi count s')"
  using run_scan_first [OF run_inv_start [of count bm], of hi] by simp

lemma run_scan_None: "0 < count \<Longrightarrow> run_scan bm count [0..<hi] 0 0 = None \<Longrightarrow> \<not> fits bm hi count s"
  using run_scan_first [OF run_inv_start [of count bm], of hi] by simp

section \<open>The longest run\<close>

definition largest_inv :: "u64 \<Rightarrow> nat \<Rightarrow> nat \<Rightarrow> nat \<Rightarrow> bool" where
  "largest_inv bm i largest run \<longleftrightarrow> run \<le> i \<and> (\<forall>j. i - run \<le> j \<and> j < i \<longrightarrow> bit bm j) \<and>
     (i - run = 0 \<or> \<not> bit bm (i - run - 1)) \<and> (\<forall>c>0. (\<exists>s. fits bm i c s) \<longleftrightarrow> c \<le> largest)"

lemma largest_inv_clear: "largest_inv bm i l r \<Longrightarrow> \<not> bit bm i \<Longrightarrow> largest_inv bm (Suc i) l 0"
  by (auto simp: largest_inv_def fits_step)

lemma largest_inv_set:
  assumes inv: "largest_inv bm i l r" and b: "bit bm i"
  shows "largest_inv bm (Suc i) (if Suc r > l then Suc r else l) (Suc r)"
proof -
  have bits: "bit bm j" if "i - r \<le> j" "j \<le> i" for j
    using inv b that by (cases "j = i") (auto simp: largest_inv_def)
  have "c \<le> Suc r" if "s + c = Suc i" "\<forall>j. s \<le> j \<and> j \<le> i \<longrightarrow> bit bm j" for s c
  proof (rule ccontr)
    assume "\<not> c \<le> Suc r"
    then have "s \<le> i - r - 1" "0 < i - r" using that(1) by auto
    then show False using inv that(2) by (simp add: largest_inv_def)
  qed
  moreover have "\<exists>s. s + c = Suc i \<and> (\<forall>j. s \<le> j \<and> j \<le> i \<longrightarrow> bit bm j)" if "0 < c" "c \<le> Suc r" for c
    using that inv bits by (intro exI [of _ "Suc i - c"]) (auto simp: largest_inv_def)
  ultimately have new: "(\<exists>s. s + c = Suc i \<and> (\<forall>j. s \<le> j \<and> j \<le> i \<longrightarrow> bit bm j)) \<longleftrightarrow> c \<le> Suc r" if "0 < c" for c
    using that by blast
  have "(\<exists>s. fits bm (Suc i) c s) \<longleftrightarrow> c \<le> (if Suc r > l then Suc r else l)" if "0 < c" for c
    using inv new [OF that] that unfolding fits_step largest_inv_def by (auto simp: ex_disj_distrib)
  then show ?thesis using inv bits by (simp add: largest_inv_def less_Suc_eq_le)
qed

lemma largest_scan_inv:
  "largest_inv bm i l r \<Longrightarrow> i \<le> hi \<Longrightarrow> 0 < c \<Longrightarrow>
     (\<exists>s. fits bm hi c s) \<longleftrightarrow> c \<le> largest_scan bm [i..<hi] l r"
proof (induction "hi - i" arbitrary: i l r)
  case 0
  then show ?case by (simp add: largest_inv_def)
next
  case (Suc k)
  then have u: "[i..<hi] = i # [Suc i..<hi]" "Suc i \<le> hi" by (simp_all add: upt_conv_Cons)
  show ?case
    using Suc.hyps(1) [OF _ largest_inv_clear [OF Suc.prems(1)] u(2)]
      Suc.hyps(1) [OF _ largest_inv_set [OF Suc.prems(1)] u(2)] Suc.hyps(2) Suc.prems(3) u(1)
    by (cases "bit bm i") (simp_all add: test_mask_bit Let_def)
qed

lemma largest_scan_fits:
  "0 < c \<Longrightarrow> (\<exists>s. fits bm hi c s) \<longleftrightarrow> c \<le> largest_scan bm [0..<hi] 0 0"
  by (rule largest_scan_inv) (auto simp: largest_inv_def fits_def)

lemma largest_scan_le: "largest_scan bm [0..<hi] 0 0 \<le> hi"
  using largest_scan_fits [of "largest_scan bm [0..<hi] 0 0" bm hi]
  by (cases "largest_scan bm [0..<hi] 0 0 = 0") (auto simp: fits_def)

section \<open>Allocation and release\<close>

lemma bit_fold_set_mask:
  "bit (fold (\<lambda>j m. set_mask m j) js x) n \<longleftrightarrow> bit x n \<or> (n \<in> set js \<and> n < LENGTH('a))" for x :: "'a::len word"
  by (induction js arbitrary: x) (auto simp: bit_set_mask)

lemma bit_umb_avail: "bit (umb_avail u) n \<longleftrightarrow> bit (load64 (uma_free u)) n \<and> \<not> bit (load64 (umb_allocated u)) n"
  by (auto simp: umb_avail_def bit_and_iff bit_not_iff dest: bit_imp_le_length)

lemma pages_needed_bounds:
  assumes "n = div_ceil (unat (p :: u16) * 16) 4096"
  shows "n = 0 \<longleftrightarrow> p = 0" and "unat p \<le> n * 256" and "n \<le> 256"
proof -
  have le: "n \<le> m \<longleftrightarrow> unat p * 16 \<le> m * 4096" for m using assms div_ceil_le_iff [of 4096] by simp
  show "n = 0 \<longleftrightarrow> p = 0" using le [of 0] by (simp add: unat_eq_0)
  show "unat p \<le> n * 256" using le [of n] by simp
  show "n \<le> 256" using le [of 256] unat_u16_less [of p] by simp
qed

lemma umb_alloc_Some:
  assumes "umb_alloc p u g = (Some (seg, paras), u', g')"
  shows "\<exists>s n. n = div_ceil (unat p * 16) 4096 \<and> 0 < n \<and> fits (umb_avail u) 48 n s \<and>
    unat seg = (UMA_BASE + s) * 256 \<and> unat paras = n * 256 \<and>
    (\<forall>i. bit (load64 (umb_allocated u')) i \<longleftrightarrow> bit (load64 (umb_allocated u)) i \<or> (s \<le> i \<and> i < s + n)) \<and>
    uma_free u' = uma_free u \<and> g' = unmap_range (UMA_BASE + s) n g"
proof -
  let ?n = "div_ceil (unat p * 16) 4096"
  have n: "0 < ?n" using assms by (auto simp: umb_alloc_def Let_def split: if_splits)
  obtain s where s: "run_scan (umb_avail u) ?n [0..<48] 0 0 = Some s"
    using assms n by (auto simp: umb_alloc_def Let_def split: option.splits)
  have f: "fits (umb_avail u) 48 ?n s" using run_scan_Some [OF n s] by simp
  then have sn: "s + ?n \<le> 48" by (simp add: fits_def)
  have "seg = of_nat ((UMA_BASE + s) * 256)" "paras = of_nat (?n * 256)"
    and u': "u' = u\<lparr>umb_allocated := or64 (umb_allocated u) (fold (\<lambda>j m. set_mask m j) [s..<s + ?n] 0)\<rparr>"
    and g': "g' = unmap_range (UMA_BASE + s) ?n g"
    using assms n s by (auto simp: umb_alloc_def Let_def)
  then have "unat seg = (UMA_BASE + s) * 256" "unat paras = ?n * 256"
    using unat_of_nat_small [of "(UMA_BASE + s) * 256", where 'a = 16] unat_of_nat_small [of "?n * 256", where 'a = 16] sn
    by (simp_all add: UMA_BASE_def)
  then show ?thesis
    using n f sn u' g' by (intro exI [of _ s] exI [of _ ?n]) (auto simp: bit_or_iff bit_fold_set_mask)
qed

lemma umb_alloc_None:
  assumes "fst (umb_alloc p u g) = None"
  shows "snd (umb_alloc p u g) = (u, g)" and "p = 0 \<or> \<not> fits (umb_avail u) 48 (div_ceil (unat p * 16) 4096) s"
proof -
  let ?n = "div_ceil (unat p * 16) 4096"
  have "run_scan (umb_avail u) ?n [0..<48] 0 0 = None" if "0 < ?n"
    using assms that by (auto simp: umb_alloc_def Let_def split: option.splits)
  then show "p = 0 \<or> \<not> fits (umb_avail u) 48 ?n s"
    using run_scan_None [of ?n "umb_avail u" 48] pages_needed_bounds(1) [OF refl] by auto
  show "snd (umb_alloc p u g) = (u, g)"
    using assms by (auto simp: umb_alloc_def Let_def split: option.splits if_splits)
qed

lemma umb_largest_fits:
  "(\<exists>s. fits (umb_avail u) 48 (div_ceil (unat p * 16) 4096) s) \<longleftrightarrow> unat p \<le> unat (umb_largest u)" if "p \<noteq> 0" for p :: u16
proof -
  let ?n = "div_ceil (unat p * 16) 4096" and ?l = "largest_scan (umb_avail u) [0..<48] 0 0"
  have "0 < ?n" using pages_needed_bounds(1) [OF refl, of p] that by simp
  then have "(\<exists>s. fits (umb_avail u) 48 ?n s) \<longleftrightarrow> ?n \<le> ?l" by (rule largest_scan_fits)
  also have "\<dots> \<longleftrightarrow> unat p * 16 \<le> ?l * 4096" by (simp add: div_ceil_le_iff)
  also have "\<dots> \<longleftrightarrow> unat p \<le> ?l * 256" by linarith
  also have "?l * 256 = unat (umb_largest u)"
    using unat_of_nat_small [of "?l * 256", where 'a = 16] largest_scan_le [of "umb_avail u" 48]
    by (simp add: umb_largest_def)
  finally show ?thesis .
qed

lemma umb_free_loop_run:
  "umb_free_loop alloc m i = (m', i') \<Longrightarrow> i \<le> 48 \<Longrightarrow>
     i \<le> i' \<and> i' \<le> 48 \<and> (\<forall>j. i \<le> j \<and> j < i' \<longrightarrow> bit alloc j) \<and> (i' < 48 \<longrightarrow> \<not> bit alloc i') \<and>
     (\<forall>n. bit m' n \<longleftrightarrow> bit m n \<or> (i \<le> n \<and> n < i'))"
proof (induction alloc m i arbitrary: m' i' rule: umb_free_loop.induct)
  case (1 alloc m i)
  show ?case
  proof (cases "i < 48 \<and> bit alloc i")
    case True
    then have "umb_free_loop alloc (set_mask m i) (i + 1) = (m', i')"
      using "1.prems"(1) by (subst (asm) umb_free_loop.simps) (simp add: test_mask_bit)
    from "1.IH" [OF _ this] have ih: "i + 1 \<le> i' \<and> i' \<le> 48 \<and> (\<forall>j. i + 1 \<le> j \<and> j < i' \<longrightarrow> bit alloc j) \<and> (i' < 48 \<longrightarrow> \<not> bit alloc i') \<and>
       (\<forall>n. bit m' n \<longleftrightarrow> bit (set_mask m i) n \<or> (i + 1 \<le> n \<and> n < i'))"
      using True by (simp add: test_mask_bit)
    moreover have "bit alloc j" if "i \<le> j" "j < i'" for j
      using ih True that by (cases "j = i") auto
    moreover have "bit m' n \<longleftrightarrow> bit m n \<or> (i \<le> n \<and> n < i')" for n
      using ih True by (auto simp: bit_set_mask)
    ultimately show ?thesis by simp
  next
    case False
    then have "umb_free_loop alloc m i = (m, i)" by (subst umb_free_loop.simps) (auto simp: test_mask_bit)
    then have "m' = m" "i' = i" using "1.prems"(1) by simp_all
    with False "1.prems"(2) show ?thesis by auto
  qed
qed

lemma umb_free_run:
  assumes "umb_free seg u g = (True, u', g')"
  defines "off \<equiv> unat (seg div 0x100) - UMA_BASE"
  shows "\<exists>k. off < k \<and> k \<le> 48 \<and> UMA_BASE \<le> unat (seg div 0x100) \<and>
    (\<forall>j. off \<le> j \<and> j < k \<longrightarrow> bit (load64 (umb_allocated u)) j) \<and> (k < 48 \<longrightarrow> \<not> bit (load64 (umb_allocated u)) k) \<and>
    (\<forall>n. bit (load64 (umb_allocated u')) n \<longleftrightarrow> bit (load64 (umb_allocated u)) n \<and> \<not> (off \<le> n \<and> n < k)) \<and>
    g' = unmap_range (UMA_BASE + off) (k - off) g"
proof -
  let ?a = "load64 (umb_allocated u)"
  have page: "UMA_BASE \<le> unat (seg div 0x100)" "unat (seg div 0x100) < UMA_END" and off: "bit ?a off"
    using assms(1) by (auto simp: umb_free_def Let_def off_def test_mask_bit split: if_splits)
  obtain m k where loop: "umb_free_loop ?a 0 off = (m, k)" by (cases "umb_free_loop ?a 0 off")
  have u': "u' = u\<lparr>umb_allocated := and64 (umb_allocated u) (NOT m)\<rparr>"
    and g': "g' = unmap_range (UMA_BASE + off) (k - off) g"
    using assms(1) page off loop by (auto simp: umb_free_def Let_def off_def test_mask_bit)
  have off48: "off < 48" using page by (simp add: off_def UMA_BASE_def UMA_END_def)
  note r = umb_free_loop_run [OF loop less_imp_le [OF off48]]
  then have "off < k" using off off48 by (metis le_neq_implies_less)
  moreover have "bit (load64 (umb_allocated u')) n \<longleftrightarrow> bit ?a n \<and> \<not> (off \<le> n \<and> n < k)" for n
    using r u' by (auto simp: bit_and_iff bit_not_iff dest: bit_imp_le_length)
  ultimately show ?thesis using r g' page(1) by blast
qed

section \<open>The scan\<close>

lemma bit_run_mask: "off + count \<le> 64 \<Longrightarrow>
    bit (push_bit off (push_bit count 1 - 1) :: u64) n \<longleftrightarrow> off \<le> n \<and> n < off + count"
proof -
  assume "off + count \<le> 64"
  moreover have "(push_bit count 1 - 1 :: u64) = mask count" by (simp add: mask_eq_exp_minus_1)
  ultimately show ?thesis by (auto simp: bit_simps)
qed

lemma find_contiguous_run_Some:
  assumes "find_contiguous_run bm 16 16 = Some s"
  shows "fits bm 48 16 s"
proof (cases "bm AND push_bit 16 (push_bit 16 1 - 1) = push_bit 16 (push_bit 16 1 - 1)")
  case True
  then have "s = 16" using assms by (simp add: find_contiguous_run_def Let_def)
  moreover have "bit bm j" if "16 \<le> j" "j < 32" for j
    using that bit_run_mask [of 16 16 j] arg_cong [OF True, of "\<lambda>x. bit x j"] by (simp add: bit_and_iff)
  ultimately show ?thesis by (simp add: fits_def)
next
  case False
  then have "run_scan bm 16 [0..<48] 0 0 = Some s" using assms by (simp add: find_contiguous_run_def Let_def)
  then show ?thesis using run_scan_Some [of 16 bm 48 s] by simp
qed

lemma find_contiguous_run_None:
  "find_contiguous_run bm 16 16 = None \<Longrightarrow> \<not> fits bm 48 16 s"
  using run_scan_None [of 16 bm 48 s] by (auto simp: find_contiguous_run_def Let_def split: if_splits)

lemma bit_scan_free:
  "bit (fold (\<lambda>i f. if P i then set_mask f i else f) [0..<n] (0 :: u64)) k \<longleftrightarrow> k < n \<and> k < 64 \<and> P k"
  by (induction n) (auto simp: bit_set_mask less_Suc_eq)

section \<open>Properties\<close>

text \<open>
  C26. The EMS page frame and the upper memory blocks never share a page: after the scan only
  pages that read uniformly 00h or FFh are offered for blocks, and whenever some sixteen
  consecutive pages are uniform the frame is placed on sixteen such pages inside C000h..EFFFh,
  none of which is offered. Without such a run the frame stays where it was and no page is
  withheld for it.
\<close>

theorem scan_uma_frame:
  assumes "u' = scan_uma g u" and "\<And>i. uni i \<longleftrightarrow> page_uniform g ((UMA_BASE + i) * 4096)"
  shows "(\<forall>i. bit (load64 (uma_free u')) i \<longrightarrow> i < 48 \<and> uni i) \<and>
    (if \<exists>s. s + 16 \<le> 48 \<and> (\<forall>j. s \<le> j \<and> j < s + 16 \<longrightarrow> uni j)
     then UMA_BASE \<le> ems_base_page u' \<and> ems_base_page u' + 16 \<le> UMA_END \<and>
       (\<forall>p. ems_base_page u' \<le> p \<and> p < ems_base_page u' + 16 \<longrightarrow>
          uni (p - UMA_BASE) \<and> \<not> bit (load64 (uma_free u')) (p - UMA_BASE))
     else ems_base_page u' = ems_base_page u \<and> (\<forall>i<48. uni i \<longrightarrow> bit (load64 (uma_free u')) i))"
proof -
  define free where "free = fold (\<lambda>i f. if page_uniform g ((UMA_BASE + i) * 4096) then set_mask f i else f) [0..<48] (0 :: u64)"
  have free: "bit free i \<longleftrightarrow> i < 48 \<and> uni i" for i unfolding free_def bit_scan_free assms(2) by auto
  have fit: "fits free 48 16 s \<longleftrightarrow> s + 16 \<le> 48 \<and> (\<forall>j. s \<le> j \<and> j < s + 16 \<longrightarrow> uni j)" for s
    by (auto simp: fits_def free)
  have hint: "0xD0 - UMA_BASE = 16" by (simp add: UMA_BASE_def)
  note scan = assms(1) [unfolded scan_uma_def Let_def UMA_PAGES_48 hint, folded free_def]
  show ?thesis
  proof (cases "find_contiguous_run free 16 16")
    case None
    then have "u' = u\<lparr>uma_free := store64 free\<rparr>"
      using scan by simp
    then show ?thesis using find_contiguous_run_None [OF None] fit free by auto
  next
    case (Some off)
    have f: "off + 16 \<le> 48" "\<forall>j. off \<le> j \<and> j < off + 16 \<longrightarrow> uni j"
      using find_contiguous_run_Some [OF Some] fit by auto
    have u': "ems_base_page u' = UMA_BASE + off" "load64 (uma_free u') = free AND NOT (push_bit off (push_bit 16 1 - 1))"
      using scan Some by simp_all
    then have "bit (load64 (uma_free u')) i \<longleftrightarrow> bit free i \<and> \<not> (off \<le> i \<and> i < off + 16)" for i
      using bit_run_mask [of off 16 i] f(1) by (auto simp: bit_and_iff bit_not_iff free)
    moreover have "uni (p - UMA_BASE)" if "UMA_BASE + off \<le> p" "p < UMA_BASE + off + 16" for p
      using f(2) that by (simp add: less_diff_conv2 le_diff_conv2 add.commute)
    ultimately show ?thesis using f u'(1) free by (auto simp: UMA_BASE_def UMA_END_def)
  qed
qed

lemma page_uniform_zero: "page_uniform (\<lambda>_. zero_page) a"
  by (auto simp: page_uniform_def guest_read8_def zero_page_def list_all_iff)

theorem scan_uma_frame_witness:
  "ems_base_page (scan_uma (\<lambda>_. zero_page) \<lparr>uma_free = (0, 0), umb_allocated = (0, 0), ems_base_page = 0xD0\<rparr>) + 16 \<le> UMA_END"
  using scan_uma_frame [OF refl, of "\<lambda>_. True" "\<lambda>_. zero_page" "\<lparr>uma_free = (0, 0), umb_allocated = (0, 0), ems_base_page = 0xD0\<rparr>"]
  by (simp add: page_uniform_zero) (metis zero_le)

text \<open>
  A request for an upper memory block is served exactly when some run of available pages is
  long enough, that is when it is not zero and at most what \<^verbatim>\<open>umb_largest\<close> reports; the block has at
  least the paragraphs asked for, lies inside C000h..EFFFh, covers only pages that were free and
  in no other block, is marked allocated and cleared, and nothing else changes.
\<close>

theorem umb_alloc_spec:
  "case umb_alloc p u g of
     (None, u', g') \<Rightarrow> (p = 0 \<or> umb_largest u < p) \<and> u' = u \<and> g' = g
   | (Some (seg, paras), u', g') \<Rightarrow>
       p \<noteq> 0 \<and> p \<le> umb_largest u \<and> p \<le> paras \<and>
       (\<exists>s n. unat seg = (UMA_BASE + s) * 256 \<and> unat paras = n * 256 \<and> s + n \<le> 48 \<and>
         (\<forall>i. s \<le> i \<and> i < s + n \<longrightarrow> bit (load64 (uma_free u)) i \<and> \<not> bit (load64 (umb_allocated u)) i) \<and>
         (\<forall>i. bit (load64 (umb_allocated u')) i \<longleftrightarrow> bit (load64 (umb_allocated u)) i \<or> (s \<le> i \<and> i < s + n)) \<and>
         (\<forall>q. g' q = (if UMA_BASE + s \<le> q \<and> q < UMA_BASE + s + n then zero_page else g q)))"
proof (cases "umb_alloc p u g")
  case (fields r u' g')
  show ?thesis
  proof (cases r)
    case None
    then have "fst (umb_alloc p u g) = None" using fields by simp
    from umb_alloc_None [OF this] have "u' = u" "g' = g" "p = 0 \<or> (\<forall>s. \<not> fits (umb_avail u) 48 (div_ceil (unat p * 16) 4096) s)"
      using fields by auto
    then show ?thesis
      using fields None umb_largest_fits [of p u] by (cases "p = 0") (auto simp: word_less_nat_alt)
  next
    case (Some sp)
    obtain seg paras where r: "r = Some (seg, paras)" using Some by (cases sp) simp
    obtain s n where a: "n = div_ceil (unat p * 16) 4096" "0 < n" "fits (umb_avail u) 48 n s"
      "unat seg = (UMA_BASE + s) * 256" "unat paras = n * 256"
      "\<forall>i. bit (load64 (umb_allocated u')) i \<longleftrightarrow> bit (load64 (umb_allocated u)) i \<or> (s \<le> i \<and> i < s + n)"
      "g' = unmap_range (UMA_BASE + s) n g"
      using umb_alloc_Some [of p u g seg paras u' g'] fields r by blast
    have "p \<noteq> 0" using a(1,2) pages_needed_bounds(1) [OF refl, of p] by simp
    moreover have "p \<le> umb_largest u" using umb_largest_fits [OF \<open>p \<noteq> 0\<close>, of u] a(1,3) by (auto simp: word_le_nat_alt)
    moreover have "p \<le> paras" using pages_needed_bounds(2) [OF a(1)] a(5) by (simp add: word_le_nat_alt)
    ultimately show ?thesis
      using fields r a by (auto simp: fits_def bit_umb_avail unmap_range_apply intro!: exI [of _ s] exI [of _ n])
  qed
qed

theorem umb_alloc_spec_witness:
  "fst (umb_alloc 0x180 \<lparr>uma_free = (0xFF00, 0), umb_allocated = (0x0100, 0), ems_base_page = 0xD0\<rparr> (\<lambda>_. zero_page)) =
     Some (0xC900, 0x200) \<and> (0x180 :: u16) \<le> 0x200"
proof -
  let ?u = "\<lparr>uma_free = (0xFF00, 0), umb_allocated = (0x0100, 0), ems_base_page = 0xD0\<rparr>"
  have "fst (umb_alloc 0x180 ?u (\<lambda>_. zero_page)) = Some (0xC900, 0x200)" by code_simp
  then show ?thesis
    using umb_alloc_spec [of "0x180" ?u "\<lambda>_. zero_page"] by (cases "umb_alloc 0x180 ?u (\<lambda>_. zero_page)") auto
qed

text \<open>
  Releasing a block also releases every block that follows it without a gap: after two
  allocations where the second block starts where the first ends, releasing the first succeeds,
  clears the memory of the second, and makes the release of the second fail.
\<close>

theorem umb_free_neighbour:
  assumes "umb_alloc p1 u g = (Some (s1, n1), u1, g1)" and "umb_alloc p2 u1 g1 = (Some (s2, n2), u2, g2)"
    and "unat s2 = unat s1 + unat n1"
  shows "\<exists>u3 g3. umb_free s1 u2 g2 = (True, u3, g3) \<and> g3 (unat s2 div 256) = zero_page \<and> \<not> fst (umb_free s2 u3 g3)"
proof -
  obtain a n where A: "0 < n" "fits (umb_avail u) 48 n a" "unat s1 = (UMA_BASE + a) * 256" "unat n1 = n * 256"
    "\<forall>i. bit (load64 (umb_allocated u1)) i \<longleftrightarrow> bit (load64 (umb_allocated u)) i \<or> (a \<le> i \<and> i < a + n)"
    using umb_alloc_Some [OF assms(1)] by blast
  obtain b m where B: "0 < m" "fits (umb_avail u1) 48 m b" "unat s2 = (UMA_BASE + b) * 256"
    "\<forall>i. bit (load64 (umb_allocated u2)) i \<longleftrightarrow> bit (load64 (umb_allocated u1)) i \<or> (b \<le> i \<and> i < b + m)"
    using umb_alloc_Some [OF assms(2)] by blast
  have b: "b = a + n" using assms(3) A(3,4) B(3) by simp
  have pages: "unat (s1 div 0x100) = UMA_BASE + a" "unat (s2 div 0x100) = UMA_BASE + b"
    using A(3) B(3) by (simp_all add: unat_div)
  have lt: "a < 48" "b < 48" using A(1,2) B(1,2) by (auto simp: fits_def)
  have alloc: "bit (load64 (umb_allocated u2)) i" if "a \<le> i" "i \<le> b" for i
    using that A(5) B(1,4) b by auto
  obtain u3 g3 where f: "umb_free s1 u2 g2 = (True, u3, g3)"
    using pages(1) lt(1) alloc [of a] b A(1)
    by (cases "umb_free s1 u2 g2") (auto simp: umb_free_def Let_def UMA_BASE_def UMA_END_def test_mask_bit split: prod.splits)
  obtain k where k: "a < k" "k < 48 \<longrightarrow> \<not> bit (load64 (umb_allocated u2)) k" "k \<le> 48"
    "\<forall>n. bit (load64 (umb_allocated u3)) n \<longleftrightarrow> bit (load64 (umb_allocated u2)) n \<and> \<not> (a \<le> n \<and> n < k)"
    "g3 = unmap_range (UMA_BASE + a) (k - a) g2"
    using umb_free_run [OF f] pages(1) by auto
  have "b < k" using alloc [of k] k(1,2) lt(2) by (cases "k < 48") (auto simp: not_le [symmetric])
  then have "\<not> bit (load64 (umb_allocated u3)) b" "g3 (UMA_BASE + b) = zero_page"
    using k b by (auto simp: unmap_range_apply)
  then show ?thesis using f pages(2) B(3) lt(2) by (auto simp: umb_free_def Let_def test_mask_bit)
qed

theorem umb_free_neighbour_witness:
  "\<exists>u2 g2 u3 g3. umb_free 0xC800 u2 g2 = (True, u3, g3) \<and> \<not> fst (umb_free 0xC900 u3 g3)"
proof -
  let ?u = "\<lparr>uma_free = (0xFF00, 0), umb_allocated = (0, 0), ems_base_page = 0xD0\<rparr>" and ?g = "\<lambda>_. zero_page"
  obtain u1 g1 where 1: "umb_alloc 0x80 ?u ?g = (Some (0xC800, 0x100), u1, g1)"
    and u1: "u1 = \<lparr>uma_free = (0xFF00, 0), umb_allocated = (0x0100, 0), ems_base_page = 0xD0\<rparr>"
  proof -
    have "fst (umb_alloc 0x80 ?u ?g) = Some (0xC800, 0x100)"
      "fst (snd (umb_alloc 0x80 ?u ?g)) = \<lparr>uma_free = (0xFF00, 0), umb_allocated = (0x0100, 0), ems_base_page = 0xD0\<rparr>"
      by code_simp+
    then show ?thesis using that by (metis prod.collapse)
  qed
  have "fst (umb_alloc 0x80 u1 ?g) = Some (0xC900, 0x100)" unfolding u1 by code_simp
  moreover have "fst (umb_alloc 0x80 u1 g1) = fst (umb_alloc 0x80 u1 ?g)"
    by (simp add: umb_alloc_def Let_def split: option.splits)
  ultimately obtain u2 g2 where 2: "umb_alloc 0x80 u1 g1 = (Some (0xC900, 0x100), u2, g2)" by (metis prod.collapse)
  show ?thesis using umb_free_neighbour [OF 1 2] by auto
qed

end
