(* ===== verification/Xms.thy ===== *)
theory Xms
  imports Umb "HOL-Library.Multiset"
begin

text \<open>
  \<^verbatim>\<open>kernel/src/kernel/dos/xms.rs\<close> (lines 1-399): the extended memory driver. The handle table is a
  list of sixteen optional handles; \<open>xms_world\<close> collects the per-thread state, the upper memory
  area of theory Umb and the guest's memory. Each arm of \<^verbatim>\<open>xms_dispatch\<close> is a definition of its own;
  \<open>usize\<close> and plain arithmetic are 32-bit and wrap, as on the target.

  The proofs show the two table scans (\<^verbatim>\<open>find_free\<close>, \<^verbatim>\<open>largest_free_kb\<close>) exact on every table whose
  blocks are non-empty and disjoint, and that the allocating services keep the table so.
\<close>

definition MAX_XMS_HANDLES :: nat where "MAX_XMS_HANDLES = 16"
definition XMS_BASE :: u32 where "XMS_BASE = 0x120000"
definition XMS_END :: u32 where "XMS_END = 0x500000"
definition XMS_TOTAL_KB :: u16 where "XMS_TOTAL_KB = ucast ((XMS_END - XMS_BASE) div 1024)"

record xms_handle =
  hbase :: u32
  size_kb :: u16
  locked :: bool

type_synonym handles = "xms_handle option list"

definition xms_state_new :: handles where
  "xms_state_new = replicate MAX_XMS_HANDLES None"

text \<open>The handles of \<^verbatim>\<open>self.handles.iter().flatten()\<close>, and the byte range of one.\<close>

definition live :: "handles \<Rightarrow> xms_handle list" where
  "live hs = map the (filter (\<lambda>h. h \<noteq> None) hs)"

definition handle_range :: "xms_handle \<Rightarrow> u32 \<times> u32" where
  "handle_range h = (hbase h, ucast (size_kb h) * 1024)"

text \<open>The insertion sort of the ranges: element \<open>j\<close> sinks while it is smaller than its neighbour.\<close>

fun sift :: "nat \<Rightarrow> (u32 \<times> u32) list \<Rightarrow> (u32 \<times> u32) list" where
  "sift 0 rs = rs"
| "sift (Suc j) rs =
     (if fst (rs ! Suc j) < fst (rs ! j) then sift j (rs[Suc j := rs ! j, j := rs ! Suc j]) else rs)"

definition sort_ranges :: "(u32 \<times> u32) list \<Rightarrow> (u32 \<times> u32) list" where
  "sort_ranges rs = fold sift [1..<length rs] rs"

fun gap_scan :: "u32 \<Rightarrow> u32 \<Rightarrow> (u32 \<times> u32) list \<Rightarrow> u32 option" where
  "gap_scan sz start [] = (if saturating_sub XMS_END start \<ge> sz then Some start else None)"
| "gap_scan sz start (r # rs) =
     (if saturating_sub (fst r) start \<ge> sz then Some start else gap_scan sz (fst r + snd r) rs)"

definition find_free :: "u32 \<Rightarrow> handles \<Rightarrow> u32 option" where
  "find_free sz hs =
     (if sz = 0 then Some XMS_BASE
      else gap_scan sz XMS_BASE (sort_ranges (map handle_range (live hs))))"

definition free_kb :: "handles \<Rightarrow> u16" where
  "free_kb hs =
     (let used = fold (\<lambda>h used. used + ucast (size_kb h)) (live hs) (0 :: u32) in
      saturating_sub XMS_TOTAL_KB (ucast used))"

fun largest_gap :: "u32 \<Rightarrow> u32 \<Rightarrow> (u32 \<times> u32) list \<Rightarrow> u32" where
  "largest_gap largest start [] =
     (let gap = saturating_sub XMS_END start in if gap > largest then gap else largest)"
| "largest_gap largest start (r # rs) =
     (let gap = saturating_sub (fst r) start in
      largest_gap (if gap > largest then gap else largest) (fst r + snd r) rs)"

definition largest_free_kb :: "handles \<Rightarrow> u16" where
  "largest_free_kb hs = ucast (largest_gap 0 XMS_BASE (sort_ranges (map handle_range (live hs))) div 1024)"

section \<open>The services\<close>

record xms_world =
  xms :: "handles option"
  xuma :: uma
  xmem :: guest
  xldt :: "u64 list"

definition xms_state :: "xms_world \<Rightarrow> handles" where
  "xms_state w = (case xms w of None \<Rightarrow> xms_state_new | Some hs \<Rightarrow> hs)"

definition put_xms :: "handles \<Rightarrow> xms_world \<Rightarrow> xms_world" where
  "put_xms hs w = w\<lparr>xms := Some hs\<rparr>"

definition xms_ok_ax :: "regs \<Rightarrow> regs" where
  "xms_ok_ax r = r\<lparr>rax := set16 1 (rax r)\<rparr>"

definition xms_fail :: "u8 \<Rightarrow> regs \<Rightarrow> regs" where
  "xms_fail e r = r\<lparr>rax := set16 0 (rax r), rbx := set_low8 e (rbx r)\<rparr>"

text \<open>\<^verbatim>\<open>handle >= 1 && (handle as usize - 1) < MAX_XMS_HANDLES\<close> and the entry it names.\<close>

definition lookup_handle :: "u16 \<Rightarrow> handles \<Rightarrow> xms_handle option" where
  "lookup_handle handle hs =
     (if handle \<ge> 1 \<and> unat handle - 1 < MAX_XMS_HANDLES then hs ! (unat handle - 1) else None)"

definition xms_version :: "regs \<Rightarrow> regs" where
  "xms_version r = r\<lparr>rax := set16 0x0300 (rax r), rbx := set16 0x0001 (rbx r), rdx := set16 0 (rdx r)\<rparr>"

definition xms_a20 :: "regs \<Rightarrow> regs" where
  "xms_a20 r = r\<lparr>rax := set16 1 (rax r), rbx := set16 0 (rbx r)\<rparr>"

definition xms_query_free :: "xms_world \<Rightarrow> regs \<Rightarrow> xms_world \<times> regs" where
  "xms_query_free w r =
     (let hs = xms_state w in
      (put_xms hs w, r\<lparr>rax := set16 (largest_free_kb hs) (rax r), rdx := set16 (free_kb hs) (rdx r)\<rparr>))"

definition xms_alloc :: "xms_world \<Rightarrow> regs \<Rightarrow> xms_world \<times> regs" where
  "xms_alloc w r =
     (let size_kb = word16 (rdx r); hs = xms_state w in
      case find_index (\<lambda>h. h = None) hs of
        Some i \<Rightarrow>
          (case find_free (ucast size_kb * 1024) hs of
             Some base \<Rightarrow>
               (put_xms (hs[i := Some \<lparr>hbase = base, size_kb = size_kb, locked = False\<rparr>]) w,
                r\<lparr>rax := set16 1 (rax r), rdx := set16 (of_nat (i + 1)) (rdx r)\<rparr>)
           | None \<Rightarrow> (put_xms hs w, xms_fail 0xA0 r))
      | None \<Rightarrow> (put_xms hs w, xms_fail 0xA1 r))"

definition xms_free :: "xms_world \<Rightarrow> regs \<Rightarrow> xms_world \<times> regs" where
  "xms_free w r =
     (let handle = word16 (rdx r); hs = xms_state w in
      case lookup_handle handle hs of
        Some _ \<Rightarrow> (put_xms (hs[unat handle - 1 := None]) w, xms_ok_ax r)
      | None \<Rightarrow> (put_xms hs w, xms_fail 0xA2 r))"

definition xms_lock :: "xms_world \<Rightarrow> regs \<Rightarrow> xms_world \<times> regs" where
  "xms_lock w r =
     (let handle = word16 (rdx r); hs = xms_state w in
      case lookup_handle handle hs of
        Some h \<Rightarrow>
          (put_xms (hs[unat handle - 1 := Some (h\<lparr>locked := True\<rparr>)]) w,
           r\<lparr>rdx := set16 (ucast (drop_bit 16 (hbase h))) (rdx r),
             rbx := set16 (ucast (hbase h AND 0xFFFF)) (rbx r), rax := set16 1 (rax r)\<rparr>)
      | None \<Rightarrow> (put_xms hs w, xms_fail 0xA2 r))"

definition xms_unlock :: "xms_world \<Rightarrow> regs \<Rightarrow> xms_world \<times> regs" where
  "xms_unlock w r =
     (let handle = word16 (rdx r); hs = xms_state w in
      case lookup_handle handle hs of
        Some h \<Rightarrow> (put_xms (hs[unat handle - 1 := Some (h\<lparr>locked := False\<rparr>)]) w, xms_ok_ax r)
      | None \<Rightarrow> (put_xms hs w, xms_fail 0xA2 r))"

definition xms_info :: "xms_world \<Rightarrow> regs \<Rightarrow> xms_world \<times> regs" where
  "xms_info w r =
     (let handle = word16 (rdx r); hs = xms_state w in
      case lookup_handle handle hs of
        Some h \<Rightarrow>
          (let lock_count = (if locked h then 1 else 0 :: u64);
               free_handles = (of_nat (length (filter (\<lambda>h. h = None) hs)) :: u8) in
           (put_xms hs w,
            r\<lparr>rbx := (rbx r AND NOT 0xFFFF) OR push_bit 8 lock_count OR ucast free_handles,
              rdx := set16 (size_kb h) (rdx r), rax := set16 1 (rax r)\<rparr>))
      | None \<Rightarrow> (put_xms hs w, xms_fail 0xA2 r))"

definition xms_realloc :: "xms_world \<Rightarrow> regs \<Rightarrow> xms_world \<times> regs" where
  "xms_realloc w r =
     (let handle = word16 (rdx r); new_kb = word16 (rbx r); hs = xms_state w in
      case lookup_handle handle hs of
        Some old \<Rightarrow>
          (let i = unat handle - 1; taken = hs[i := None] in
           case find_free (ucast new_kb * 1024) taken of
             Some base \<Rightarrow>
               (put_xms (taken[i := Some \<lparr>hbase = base, size_kb = new_kb, locked = locked old\<rparr>]) w, xms_ok_ax r)
           | None \<Rightarrow> (put_xms (taken[i := Some old]) w, xms_fail 0xA0 r))
      | None \<Rightarrow> (put_xms hs w, xms_fail 0xA2 r))"

definition xms_query_free32 :: "xms_world \<Rightarrow> regs \<Rightarrow> xms_world \<times> regs" where
  "xms_query_free32 w r =
     (let hs = xms_state w; free = ucast (free_kb hs) :: u32 in
      (put_xms hs w,
       r\<lparr>rax := set16 (ucast (free AND 0xFFFF)) (rax r), rdx := set16 (ucast (free AND 0xFFFF)) (rdx r),
         rcx := (rcx r AND NOT 0xFFFFFFFF) OR ucast (XMS_END - 1), rbx := set16 0 (rbx r)\<rparr>))"

definition xms_umb_request :: "xms_world \<Rightarrow> regs \<Rightarrow> xms_world \<times> regs" where
  "xms_umb_request w r =
     (case umb_alloc (word16 (rdx r)) (xuma w) (xmem w) of
        (Some (seg, paras), u, g) \<Rightarrow>
          (w\<lparr>xuma := u, xmem := g\<rparr>,
           r\<lparr>rax := set16 1 (rax r), rbx := set16 seg (rbx r), rdx := set16 paras (rdx r)\<rparr>)
      | (None, u, g) \<Rightarrow>
          (let largest = umb_largest u in
           (w\<lparr>xuma := u, xmem := g\<rparr>,
            r\<lparr>rax := set16 0 (rax r), rbx := set_low8 (if largest > 0 then 0xB0 else 0xB1) (rbx r),
              rdx := set16 largest (rdx r)\<rparr>)))"

definition xms_umb_release :: "xms_world \<Rightarrow> regs \<Rightarrow> xms_world \<times> regs" where
  "xms_umb_release w r =
     (case umb_free (word16 (rdx r)) (xuma w) (xmem w) of
        (ok, u, g) \<Rightarrow> (w\<lparr>xuma := u, xmem := g\<rparr>, if ok then xms_ok_ax r else xms_fail 0xB2 r))"

text \<open>One end of a move: conventional memory for handle 0, otherwise checked against the block.\<close>

definition xms_resolve :: "handles \<Rightarrow> u16 \<Rightarrow> u32 \<Rightarrow> u32 \<Rightarrow> u32 option" where
  "xms_resolve hs handle off len =
     (if handle = 0 then Some (push_bit 4 (drop_bit 16 off) + (off AND 0xFFFF))
      else let idx = unat handle - 1 in
        case (if idx < length hs then hs ! idx else None) of
          Some h \<Rightarrow> if off + len \<le> ucast (size_kb h) * 1024 then Some (hbase h + off) else None
        | None \<Rightarrow> None)"

definition xms_move :: "xms_world \<Rightarrow> regs \<Rightarrow> xms_world \<times> regs" where
  "xms_move w r =
     (let addr = linear (xldt w) r (word16 (ds r)) (ucast (rsi r));
          len = guest_read32 (xmem w) (unat addr);
          src_handle = guest_read16 (xmem w) (unat (addr + 4));
          src_offset = guest_read32 (xmem w) (unat (addr + 6));
          dst_handle = guest_read16 (xmem w) (unat (addr + 10));
          dst_offset = guest_read32 (xmem w) (unat (addr + 12)) in
      if len = 0 then (w, r\<lparr>rax := set16 1 (rax r), rbx := set16 0 (rbx r)\<rparr>)
      else let hs = xms_state w; w' = put_xms hs w in
        case xms_resolve hs src_handle src_offset len of
          None \<Rightarrow> (w', xms_fail 0xA3 r)
        | Some src \<Rightarrow>
            (case xms_resolve hs dst_handle dst_offset len of
               None \<Rightarrow> (w', xms_fail 0xA5 r)
             | Some dst \<Rightarrow>
                 (w'\<lparr>xmem := copy_within (unat src) (unat dst) (unat len) (xmem w)\<rparr>,
                  r\<lparr>rax := set16 1 (rax r), rbx := set16 0 (rbx r)\<rparr>)))"

definition xms_dispatch :: "xms_world \<Rightarrow> regs \<Rightarrow> xms_world \<times> regs" where
  "xms_dispatch w r =
     (let ah = (ucast (drop_bit 8 (rax r)) :: u8) in
      if ah = 0x00 then (w, xms_version r)
      else if 0x03 \<le> ah \<and> ah \<le> 0x06 then (w, xms_a20 r)
      else if ah = 0x07 then (w, xms_a20 r)
      else if ah = 0x08 then xms_query_free w r
      else if ah = 0x09 then xms_alloc w r
      else if ah = 0x0A then xms_free w r
      else if ah = 0x0B then xms_move w r
      else if ah = 0x0C then xms_lock w r
      else if ah = 0x0D then xms_unlock w r
      else if ah = 0x0E then xms_info w r
      else if ah = 0x0F then xms_realloc w r
      else if ah = 0x88 then xms_query_free32 w r
      else if ah = 0x10 then xms_umb_request w r
      else if ah = 0x11 then xms_umb_release w r
      else (w, xms_fail 0x80 r))"

section \<open>The sort\<close>

lemma sift_insert:
  "sorted (map fst xs) \<Longrightarrow>
     sift (length xs) (xs @ x # ys) =
       takeWhile (\<lambda>a. fst a \<le> fst x) xs @ x # dropWhile (\<lambda>a. fst a \<le> fst x) xs @ ys"
proof (induction xs arbitrary: ys rule: rev_induct)
  case Nil
  then show ?case by simp
next
  case (snoc a xs)
  let ?P = "\<lambda>b. fst b \<le> fst x"
  have srt: "sorted (map fst xs)" "\<forall>b\<in>set xs. fst b \<le> fst a" using snoc.prems by (auto simp: sorted_append)
  show ?case
  proof (cases "fst x < fst a")
    case True
    then have "takeWhile ?P (xs @ [a]) = takeWhile ?P xs" "dropWhile ?P (xs @ [a]) = dropWhile ?P xs @ [a]"
      by (auto simp: takeWhile_tail dropWhile_append not_le dropWhile_eq_Nil_conv)
    then show ?thesis
      using True snoc.IH [OF srt(1), of "a # ys"] by (simp add: nth_append list_update_append)
  next
    case False
    then have "\<forall>b\<in>set (xs @ [a]). ?P b" using srt(2) by (auto simp: not_less dest: order_trans)
    then have "takeWhile ?P (xs @ [a]) = xs @ [a]" "dropWhile ?P (xs @ [a]) = []"
      by (simp_all add: takeWhile_eq_all_conv dropWhile_eq_Nil_conv)
    with False show ?thesis by (simp add: nth_append)
  qed
qed

lemma sorted_insert:
  "sorted (map fst xs) \<Longrightarrow>
     sorted (map fst (takeWhile (\<lambda>a. fst a \<le> fst x) xs @ x # dropWhile (\<lambda>a. fst a \<le> fst x) xs))"
  for x :: "u32 \<times> u32"
proof (induction xs)
  case (Cons a xs)
  show ?case
  proof (cases "fst a \<le> fst x")
    case True
    then show ?thesis using Cons by (auto dest: set_takeWhileD set_dropWhileD)
  next
    case False
    then have "\<forall>b\<in>set (map fst (a # xs)). fst x \<le> b" using Cons.prems by fastforce
    then show ?thesis using False Cons.prems by simp
  qed
qed simp

lemma sort_ranges_steps:
  "i \<le> length rs \<Longrightarrow>
     (\<lambda>ys. length ys = length rs \<and> mset ys = mset rs \<and> sorted (map fst (take i ys))) (fold sift [1..<i] rs)"
proof (induction i)
  case 0
  then show ?case by simp
next
  case (Suc i)
  let ?ys = "fold sift [1..<i] rs"
  have ih: "length ?ys = length rs" "mset ?ys = mset rs" "sorted (map fst (take i ?ys))" using Suc by auto
  show ?case
  proof (cases "i = 0")
    case True
    then show ?thesis by (cases rs) auto
  next
    case False
    define A B x where "A = take i ?ys" and "B = drop (Suc i) ?ys" and "x = ?ys ! i"
    have ys: "?ys = A @ x # B" and len: "length A = i"
      using Suc.prems ih(1) by (simp_all add: A_def B_def x_def id_take_nth_drop)
    let ?P = "\<lambda>a. fst a \<le> fst x"
    have st: "fold sift [1..<Suc i] rs = takeWhile ?P A @ x # dropWhile ?P A @ B"
      using False sift_insert [of A x B] ih(3) ys len by (simp add: A_def)
    have A: "length (takeWhile ?P A) + length (dropWhile ?P A) = i" "mset (takeWhile ?P A) + mset (dropWhile ?P A) = mset A"
      using len by (metis length_append takeWhile_dropWhile_id, metis mset_append takeWhile_dropWhile_id)
    have "take (Suc i) (fold sift [1..<Suc i] rs) = takeWhile ?P A @ x # dropWhile ?P A"
      unfolding st using A(1) by (simp add: take_append take_Cons')
    moreover have "mset (fold sift [1..<Suc i] rs) = mset ?ys"
      unfolding st ys using A(2) by (simp add: ac_simps)
    moreover have "length (fold sift [1..<Suc i] rs) = length ?ys"
      unfolding st ys using A(1) len by simp
    ultimately show ?thesis using sorted_insert [of A x] ih A_def by simp
  qed
qed

lemma sort_ranges_sorted: "sorted (map fst (sort_ranges rs))" and mset_sort_ranges: "mset (sort_ranges rs) = mset rs"
  using sort_ranges_steps [of "length rs" rs] unfolding sort_ranges_def by auto

lemma sorted_wrt_permute:
  assumes "\<And>x y. R x y \<Longrightarrow> R y x"
  shows "mset xs = mset ys \<Longrightarrow> sorted_wrt R xs \<Longrightarrow> sorted_wrt R ys"
proof (induction xs arbitrary: ys)
  case (Cons x xs)
  then obtain ys1 ys2 where ys: "ys = ys1 @ x # ys2" by (metis list.set_intros(1) set_mset_mset split_list)
  then have m: "mset xs = mset (ys1 @ ys2)" using Cons.prems(1) by simp
  have "sorted_wrt R (ys1 @ ys2)" using Cons.IH [OF m] Cons.prems(2) by simp
  moreover have "R x y" if "y \<in> set ys1 \<union> set ys2" for y
    using Cons.prems(2) m that by (metis mset_eq_setD set_append sorted_wrt.simps(2))
  ultimately show ?case using ys assms by (auto simp: sorted_wrt_append)
qed simp

section \<open>The scans\<close>

abbreviation rstart :: "u32 \<times> u32 \<Rightarrow> nat" where "rstart r \<equiv> unat (fst r)"
abbreviation rend :: "u32 \<times> u32 \<Rightarrow> nat" where "rend r \<equiv> unat (fst r) + unat (snd r)"

lemma unat_XMS [simp]: "unat XMS_BASE = 0x120000" "unat XMS_END = 0x500000"
  by (simp_all add: XMS_BASE_def XMS_END_def)

fun chained :: "nat \<Rightarrow> (u32 \<times> u32) list \<Rightarrow> bool" where
  "chained start [] \<longleftrightarrow> start \<le> 0x500000"
| "chained start (r # rs) \<longleftrightarrow> start \<le> rstart r \<and> chained (rend r) rs"

lemma chained_le: "chained start rs \<Longrightarrow> start \<le> 0x500000"
  by (induction rs arbitrary: start) fastforce+

lemma chained_ge: "chained start rs \<Longrightarrow> r \<in> set rs \<Longrightarrow> start \<le> rstart r"
  by (induction rs arbitrary: start) fastforce+

lemma unat_rend: "chained (rend r) rs \<Longrightarrow> unat (fst r + snd r) = rend r"
  using chained_le [of "rend r" rs] by (subst unat_add_lem [THEN iffD1]) auto

lemma gap_scan_sound:
  "chained (unat start) rs \<Longrightarrow> gap_scan sz start rs = Some s \<Longrightarrow>
     unat start \<le> unat s \<and> unat s + unat sz \<le> 0x500000 \<and>
     (\<forall>r\<in>set rs. unat s + unat sz \<le> rstart r \<or> rend r \<le> unat s)"
proof (induction rs arbitrary: start)
  case Nil
  then show ?case by (auto simp: word_le_nat_alt rust_arith split: if_splits)
next
  case (Cons r rs)
  have ch: "unat start \<le> rstart r" "chained (rend r) rs" using Cons.prems(1) by simp_all
  show ?case
  proof (cases "saturating_sub (fst r) start \<ge> sz")
    case True
    then have "s = start" "unat start + unat sz \<le> rstart r"
      using Cons.prems(2) ch(1) by (auto simp: word_le_nat_alt rust_arith)
    then show ?thesis using chained_ge [OF ch(2)] chained_le [OF ch(2)] by fastforce
  next
    case False
    then show ?thesis using Cons.IH [of "fst r + snd r"] Cons.prems(2) ch by (simp add: unat_rend [OF ch(2)])
  qed
qed

lemma gap_scan_complete:
  "chained (unat start) rs \<Longrightarrow> gap_scan sz start rs = None \<Longrightarrow> unat start \<le> a \<Longrightarrow> a + unat sz \<le> 0x500000 \<Longrightarrow>
     \<exists>r\<in>set rs. \<not> (a + unat sz \<le> rstart r \<or> rend r \<le> a)"
proof (induction rs arbitrary: start)
  case Nil
  then show ?case by (auto simp: word_le_nat_alt rust_arith split: if_splits)
next
  case (Cons r rs)
  have ch: "chained (rend r) rs" using Cons.prems(1) by simp
  have no: "\<not> saturating_sub (fst r) start \<ge> sz" "gap_scan sz (fst r + snd r) rs = None"
    using Cons.prems(2) by (auto split: if_splits)
  then have "\<not> a + unat sz \<le> rstart r" using Cons.prems(3) by (auto simp: word_le_nat_alt rust_arith)
  then show ?case using Cons.IH [of "fst r + snd r"] no(2) Cons.prems(4) ch
    by (cases "rend r \<le> a") (auto simp: unat_rend [OF ch])
qed

lemma largest_gap_scan:
  "sz \<le> largest_gap l start rs \<longleftrightarrow> sz \<le> l \<or> gap_scan sz start rs \<noteq> None"
proof (induction rs arbitrary: l start)
  case Nil
  show ?case by (auto simp: Let_def not_less intro: order_trans)
next
  case (Cons r rs)
  show ?case using Cons.IH by (auto simp: Let_def not_less intro: order_trans)
qed

section \<open>The handle table\<close>

definition hend :: "xms_handle \<Rightarrow> nat" where
  "hend h = unat (hbase h) + unat (size_kb h) * 1024"

definition block_ok :: "xms_handle \<Rightarrow> bool" where
  "block_ok h \<longleftrightarrow> size_kb h \<noteq> 0 \<and> 0x120000 \<le> unat (hbase h) \<and> hend h \<le> 0x500000"

definition apart :: "xms_handle \<Rightarrow> xms_handle \<Rightarrow> bool" where
  "apart h k \<longleftrightarrow> hend h \<le> unat (hbase k) \<or> hend k \<le> unat (hbase h)"

definition table_ok :: "handles \<Rightarrow> bool" where
  "table_ok hs \<longleftrightarrow> length hs = MAX_XMS_HANDLES \<and> (\<forall>h\<in>set (live hs). block_ok h) \<and> sorted_wrt apart (live hs)"

lemma table_ok_new: "table_ok xms_state_new"
  by (simp add: table_ok_def xms_state_new_def live_def)

lemma kb_bytes: "unat (ucast (k :: u16) * 1024 :: u32) = unat k * 1024"
  using unat_u16_less [of k] by (subst unat_mult_lem [THEN iffD1]) (simp_all add: unat_ucast_widen)

lemma kb_bytes_0: "(ucast (k :: u16) * 1024 :: u32) = 0 \<longleftrightarrow> k = 0"
  using kb_bytes [of k] by (metis mult_eq_0_iff unat_0 unat_eq_0 zero_neq_numeral)

lemma handle_range_end: "fst (handle_range h) = hbase h" "unat (snd (handle_range h)) = unat (size_kb h) * 1024"
  "snd (handle_range h) = 0 \<longleftrightarrow> size_kb h = 0"
  by (simp_all add: handle_range_def kb_bytes kb_bytes_0)

lemma live_split: "i < length hs \<Longrightarrow> live hs = live (take i hs) @ live [hs ! i] @ live (drop (Suc i) hs)"
  unfolding live_def map_append [symmetric] filter_append [symmetric] by (simp add: id_take_nth_drop [symmetric])

lemma live_update: "i < length hs \<Longrightarrow> live (hs[i := x]) = live (take i hs) @ live [x] @ live (drop (Suc i) hs)"
  using live_split [of i "hs[i := x]"] by simp

lemma live_single [simp]: "live [None] = []" "live [Some h] = [h]"
  by (simp_all add: live_def)

lemma live_nth: "i < length hs \<Longrightarrow> hs ! i = Some h \<Longrightarrow> h \<in> set (live hs)"
  by (simp add: live_split)

lemma apart_sym: "apart h k \<Longrightarrow> apart k h"
  by (auto simp: apart_def)

lemma table_ok_remove: "table_ok hs \<Longrightarrow> i < length hs \<Longrightarrow> table_ok (hs[i := None])"
  using live_split [of i hs] by (cases "hs ! i") (auto simp: table_ok_def live_update sorted_wrt_append)

lemma table_ok_add:
  assumes "table_ok hs" and "i < length hs" and "hs ! i = None" and "block_ok h" and "\<forall>k\<in>set (live hs). apart h k"
  shows "table_ok (hs[i := Some h])"
  using assms live_split [of i hs] apart_sym [of h] by (auto simp: table_ok_def live_update sorted_wrt_append)

lemma table_ok_same_range:
  assumes "table_ok hs" and "i < length hs" and "hs ! i = Some h" and "hbase k = hbase h" and "size_kb k = size_kb h"
  shows "table_ok (hs[i := Some k])"
proof -
  have "hend k = hend h" using assms(4,5) by (simp add: hend_def)
  then have "block_ok k = block_ok h" "apart k x = apart h x" "apart x k = apart x h" for x
    using assms(4,5) by (simp_all add: block_ok_def apart_def)
  then show ?thesis
    using assms(1-3) live_split [of i hs] by (auto simp: table_ok_def live_update sorted_wrt_append)
qed

lemma table_chained:
  assumes "table_ok hs"
  shows "chained 0x120000 (sort_ranges (map handle_range (live hs)))"
proof -
  let ?rs = "sort_ranges (map handle_range (live hs))"
  let ?R = "\<lambda>r s. rend r \<le> rstart s \<or> rend s \<le> rstart r"
  have set: "set ?rs = handle_range ` set (live hs)"
    using mset_eq_setD [OF mset_sort_ranges] by simp
  have blocks: "0x120000 \<le> rstart r \<and> rstart r < rend r \<and> rend r \<le> 0x500000" if "r \<in> set ?rs" for r
    using assms that set
    by (auto simp: table_ok_def block_ok_def handle_range_end hend_def unat_gt_0)
  have "sorted_wrt ?R (map handle_range (live hs))"
    using assms by (simp add: table_ok_def sorted_wrt_map handle_range_end apart_def [abs_def] hend_def)
  then have "sorted_wrt ?R ?rs" by (rule sorted_wrt_permute [rotated 2]) (auto simp: mset_sort_ranges)
  moreover have "sorted (map fst ?rs)" by (rule sort_ranges_sorted)
  moreover have "chained a rs" if "sorted_wrt ?R rs" "sorted (map fst rs)" "a \<le> 0x500000"
      "\<forall>r\<in>set rs. a \<le> rstart r \<and> rstart r < rend r \<and> rend r \<le> 0x500000" for a rs
    using that
  proof (induction rs arbitrary: a)
    case (Cons r rs)
    have "rend r \<le> rstart q" if "q \<in> set rs" for q
      using Cons.prems(1,2,4) that by (fastforce simp: word_le_nat_alt)
    then show ?case using Cons by auto
  qed simp
  ultimately show ?thesis using blocks by simp
qed

lemma find_free_sound:
  fixes l :: bool
  assumes ok: "table_ok hs" and k: "k \<noteq> 0" and ff: "find_free (ucast (k :: u16) * 1024) hs = Some b"
  defines "h \<equiv> \<lparr>hbase = b, size_kb = k, locked = l\<rparr>"
  shows "block_ok h" and "\<forall>x\<in>set (live hs). apart h x"
proof -
  let ?rs = "sort_ranges (map handle_range (live hs))" and ?sz = "ucast k * 1024 :: u32"
  have sz: "unat ?sz = unat k * 1024" by (rule kb_bytes)
  have g: "gap_scan ?sz XMS_BASE ?rs = Some b" using ff k by (simp add: find_free_def kb_bytes_0)
  have set: "set ?rs = handle_range ` set (live hs)" using mset_eq_setD [OF mset_sort_ranges] by simp
  have "0x120000 \<le> unat b \<and> unat b + unat k * 1024 \<le> 0x500000 \<and>
      (\<forall>r\<in>set ?rs. unat b + unat k * 1024 \<le> rstart r \<or> rend r \<le> unat b)"
    using gap_scan_sound [OF _ g] table_chained [OF ok] sz by simp
  then show "block_ok h" "\<forall>x\<in>set (live hs). apart h x"
    using k by (auto simp: h_def block_ok_def hend_def apart_def set handle_range_end)
qed

lemma find_free_exact:
  assumes ok: "table_ok hs" and k: "k \<noteq> 0"
  shows "find_free (ucast (k :: u16) * 1024) hs \<noteq> None \<longleftrightarrow> k \<le> largest_free_kb hs"
proof -
  let ?rs = "sort_ranges (map handle_range (live hs))" and ?sz = "ucast k * 1024 :: u32"
  let ?l = "largest_gap 0 XMS_BASE ?rs"
  have sz: "unat ?sz = unat k * 1024" by (rule kb_bytes)
  have nz: "?sz \<noteq> 0" using k by (simp add: kb_bytes_0)
  have le: "largest_gap a start rs \<le> 0x500000" if "chained (unat start) rs" "a \<le> 0x500000" for a start rs
    using that
  proof (induction rs arbitrary: a start)
    case Nil
    then show ?case by (auto simp: Let_def word_le_nat_alt rust_arith)
  next
    case (Cons r rs)
    have ch: "chained (rend r) rs" using Cons.prems(1) by simp
    then have "rstart r \<le> 0x500000" using chained_le [OF ch] by simp
    then show ?case using Cons.IH [of "fst r + snd r"] ch Cons.prems(2)
      by (auto simp: Let_def word_le_nat_alt rust_arith unat_rend [OF ch])
  qed
  have "unat ?l \<le> 0x500000" using le [of XMS_BASE ?rs 0] table_chained [OF ok] by (simp add: word_le_nat_alt)
  then have "unat (ucast (?l div 1024) :: u16) = unat ?l div 1024"
    by (simp add: unsigned_ucast_eq unat_div take_bit_nat_eq_self)
  then have kb: "unat (largest_free_kb hs) = unat ?l div 1024" by (simp add: largest_free_kb_def)
  have "find_free ?sz hs \<noteq> None \<longleftrightarrow> ?sz \<le> ?l" using nz largest_gap_scan [of ?sz 0 XMS_BASE ?rs]
    by (simp add: find_free_def)
  also have "\<dots> \<longleftrightarrow> unat k * 1024 \<le> unat ?l" by (simp add: word_le_nat_alt sz)
  also have "\<dots> \<longleftrightarrow> unat k \<le> unat ?l div 1024" by (simp add: less_eq_div_iff_mult_less_eq)
  finally show ?thesis by (simp add: word_le_nat_alt kb)
qed

lemma lookup_handle_Some:
  "table_ok hs \<Longrightarrow> lookup_handle handle hs = Some h \<Longrightarrow> unat handle - 1 < length hs \<and> hs ! (unat handle - 1) = Some h"
  by (simp add: lookup_handle_def table_ok_def split: if_splits)

lemma xms_state_put [simp]: "xms_state (put_xms hs w) = hs"
  by (simp add: xms_state_def put_xms_def)

lemma xms_alloc_table:
  assumes ok: "table_ok (xms_state w)" and "word16 (rdx r) \<noteq> 0"
  shows "table_ok (xms_state (fst (xms_alloc w r)))"
proof -
  let ?hs = "xms_state w"
  show ?thesis
  proof (cases "find_index (\<lambda>h. h = None) ?hs")
    case None
    then show ?thesis using ok by (simp add: xms_alloc_def Let_def)
  next
    case (Some i)
    then have i: "i < length ?hs" "?hs ! i = None" by (simp_all add: find_index_Some)
    show ?thesis
      using find_free_sound [OF ok assms(2), where l = False] table_ok_add [OF ok i] Some ok
      by (auto simp: xms_alloc_def Let_def split: option.splits)
  qed
qed

lemma xms_realloc_table:
  assumes ok: "table_ok (xms_state w)" and k: "word16 (rbx r) \<noteq> 0"
  shows "table_ok (xms_state (fst (xms_realloc w r)))"
proof (cases "lookup_handle (word16 (rdx r)) (xms_state w)")
  case None
  then show ?thesis using ok by (simp add: xms_realloc_def Let_def)
next
  case (Some old)
  let ?hs = "xms_state w" and ?i = "unat (word16 (rdx r)) - 1"
  have i: "?i < length ?hs" "?hs ! ?i = Some old" using lookup_handle_Some [OF ok Some] by simp_all
  have taken: "table_ok (?hs[?i := None])" using ok i(1) by (rule table_ok_remove)
  have same: "?hs[?i := Some old] = ?hs" using i by (metis list_update_id)
  show ?thesis
    using find_free_sound [OF taken k, where l = "locked old"] table_ok_add [OF taken, of ?i] i(1) Some ok same
    by (auto simp: xms_realloc_def Let_def split: option.splits)
qed

lemma xms_other_tables:
  assumes ok: "table_ok (xms_state w)"
  shows "table_ok (xms_state (fst (xms_free w r)))" "table_ok (xms_state (fst (xms_lock w r)))"
    "table_ok (xms_state (fst (xms_unlock w r)))" "xms_state (fst (xms_info w r)) = xms_state w"
    "xms_state (fst (xms_query_free w r)) = xms_state w" "xms_state (fst (xms_query_free32 w r)) = xms_state w"
    "xms_state (fst (xms_umb_request w r)) = xms_state w" "xms_state (fst (xms_umb_release w r)) = xms_state w"
    "xms_state (fst (xms_move w r)) = xms_state w"
  using ok lookup_handle_Some [OF ok] table_ok_remove [OF ok] table_ok_same_range [OF ok]
  by (auto simp: xms_free_def xms_lock_def xms_unlock_def xms_info_def xms_query_free_def xms_query_free32_def
      xms_umb_request_def xms_umb_release_def xms_move_def Let_def xms_state_def put_xms_def
      split: option.splits prod.splits)

lemma table_apart:
  assumes "table_ok hs" and "i < j" and "j < length hs" and "hs ! i = Some h" and "hs ! j = Some k"
  shows "apart h k"
proof -
  have "drop (Suc i) hs ! (j - Suc i) = Some k" using assms by simp
  then have "k \<in> set (live (drop (Suc i) hs))" using assms by (intro live_nth [of "j - Suc i"]) auto
  then show ?thesis
    using assms live_split [of i hs] by (auto simp: table_ok_def sorted_wrt_append)
qed

definition ah_of :: "regs \<Rightarrow> u8" where
  "ah_of r = ucast (drop_bit 8 (rax r))"

text \<open>Requests that ask for a block of at least one kilobyte.\<close>

definition nonempty_request :: "regs \<Rightarrow> bool" where
  "nonempty_request r \<longleftrightarrow> (ah_of r = 0x09 \<longrightarrow> word16 (rdx r) \<noteq> 0) \<and> (ah_of r = 0x0F \<longrightarrow> word16 (rbx r) \<noteq> 0)"

lemma xms_dispatch_table:
  assumes "table_ok (xms_state w)" and "nonempty_request r"
  shows "table_ok (xms_state (fst (xms_dispatch w r)))"
  using assms xms_alloc_table [OF assms(1), of r] xms_realloc_table [OF assms(1), of r] xms_other_tables [OF assms(1), of r]
  by (simp add: xms_dispatch_def Let_def nonempty_request_def ah_of_def)

definition xms_run :: "regs list \<Rightarrow> xms_world \<Rightarrow> xms_world" where
  "xms_run rs w = fold (\<lambda>r w. fst (xms_dispatch w r)) rs w"

lemma xms_run_table: "table_ok (xms_state w) \<Longrightarrow> \<forall>r\<in>set rs. nonempty_request r \<Longrightarrow> table_ok (xms_state (xms_run rs w))"
  by (induction rs arbitrary: w) (simp_all add: xms_run_def xms_dispatch_table)

section \<open>Properties\<close>

text \<open>
  C9. Extended memory blocks are never shared: after any sequence of XMS calls by a fresh thread
  that never asks for an empty block, every live handle's block lies inside extended memory and
  no two handles' blocks overlap.
\<close>

theorem xms_blocks_disjoint:
  assumes "xms w = None" and "\<forall>r\<in>set rs. nonempty_request r" and "hs = xms_state (xms_run rs w)"
  shows "(\<forall>i h. i < 16 \<and> hs ! i = Some h \<longrightarrow> 0x120000 \<le> unat (hbase h) \<and> hend h \<le> 0x500000) \<and>
    (\<forall>i j h k. i < 16 \<and> j < 16 \<and> i \<noteq> j \<and> hs ! i = Some h \<and> hs ! j = Some k \<longrightarrow>
       hend h \<le> unat (hbase k) \<or> hend k \<le> unat (hbase h))"
proof -
  have "table_ok (xms_state w)" using assms(1) table_ok_new by (simp add: xms_state_def)
  then have ok: "table_ok hs" using xms_run_table assms(2,3) by blast
  then have len: "length hs = 16" by (simp add: table_ok_def MAX_XMS_HANDLES_def)
  have "block_ok h" if "i < 16" "hs ! i = Some h" for i h
    using ok live_nth [of i hs h] that len by (simp add: table_ok_def)
  moreover have "apart h k" if "i < 16" "j < 16" "i \<noteq> j" "hs ! i = Some h" "hs ! j = Some k" for i j h k
    using table_apart [OF ok, of i j h k] table_apart [OF ok, of j i k h] apart_sym that len
    by (cases "i < j") auto
  ultimately show ?thesis unfolding block_ok_def apart_def by blast
qed

definition xms_fresh :: xms_world where
  "xms_fresh = \<lparr>xms = None, xuma = \<lparr>uma_free = (0, 0), umb_allocated = (0, 0), ems_base_page = 0xD0\<rparr>,
     xmem = (\<lambda>_. zero_page), xldt = []\<rparr>"

theorem xms_blocks_disjoint_witness:
  "\<exists>h k. xms_state (xms_run [vm86_call 0x0900 0 64, vm86_call 0x0900 0 32] xms_fresh) ! 0 = Some h \<and>
     xms_state (xms_run [vm86_call 0x0900 0 64, vm86_call 0x0900 0 32] xms_fresh) ! 1 = Some k \<and>
     (hend h \<le> unat (hbase k) \<or> hend k \<le> unat (hbase h))"
proof -
  let ?hs = "xms_state (xms_run [vm86_call 0x0900 0 64, vm86_call 0x0900 0 32] xms_fresh)"
  have "xms xms_fresh = None" "\<forall>r\<in>set [vm86_call 0x0900 0 64, vm86_call 0x0900 0 32]. nonempty_request r"
    by (simp_all add: xms_fresh_def nonempty_request_def ah_of_def)
  note d = conjunct2 [OF xms_blocks_disjoint [OF this refl], rule_format, of 0 1]
  have "?hs ! 0 = Some \<lparr>hbase = 0x120000, size_kb = 64, locked = False\<rparr>"
    "?hs ! 1 = Some \<lparr>hbase = 0x130000, size_kb = 32, locked = False\<rparr>"
    by code_simp+
  then show ?thesis using d by auto
qed

text \<open>
  Allocation is exact: on every table of non-empty disjoint blocks, a request for \<open>k > 0\<close>
  kilobytes succeeds precisely when a handle is free and \<open>k\<close> is at most the largest free block
  that function 08h reports; it then fills that handle with an unlocked block of \<open>k\<close> kilobytes and
  returns its number. Otherwise it fails with A1h (no handle) or A0h (no memory) and the table is
  unchanged.
\<close>

theorem xms_alloc_exact:
  assumes "table_ok (xms_state w)" and "k = word16 (rdx r)" and "k \<noteq> 0" and "xms_alloc w r = (w', r')"
  shows "if (\<exists>i<16. xms_state w ! i = None) \<and> k \<le> largest_free_kb (xms_state w)
    then word16 (rax r') = 1 \<and>
      (\<exists>i<16. xms_state w ! i = None \<and> unat (word16 (rdx r')) = i + 1 \<and>
         (\<exists>base. xms_state w' = (xms_state w)[i := Some \<lparr>hbase = base, size_kb = k, locked = False\<rparr>]))
    else word16 (rax r') = 0 \<and> xms_state w' = xms_state w \<and>
      rbx r' = set_low8 (if \<exists>i<16. xms_state w ! i = None then 0xA0 else 0xA1) (rbx r)"
proof -
  let ?hs = "xms_state w"
  have len: "length ?hs = 16" using assms(1) by (simp add: table_ok_def MAX_XMS_HANDLES_def)
  show ?thesis
  proof (cases "find_index (\<lambda>h. h = None) ?hs")
    case None
    then have "\<not> (\<exists>i<16. ?hs ! i = None)" using len by (auto simp: find_index_None)
    then show ?thesis using None assms(4) by (auto simp: xms_alloc_def Let_def xms_fail_def)
  next
    case (Some i)
    then have i: "i < 16" "?hs ! i = None" using len by (auto simp: find_index_Some)
    then have n: "unat (of_nat (i + 1) :: u16) = i + 1" by (subst unat_of_nat_small) auto
    show ?thesis
      using find_free_exact [OF assms(1,3)] Some i n assms(2,4)
      by (cases "find_free (ucast k * 1024) ?hs") (auto simp: xms_alloc_def Let_def xms_fail_def)
  qed
qed

theorem xms_alloc_exact_witness:
  "word16 (rax (snd (xms_alloc xms_fresh (vm86_call 0x0900 0 3968)))) = 1 \<and>
   word16 (rax (snd (xms_alloc xms_fresh (vm86_call 0x0900 0 3969)))) = 0"
proof -
  have ok: "table_ok (xms_state xms_fresh)" using table_ok_new by (simp add: xms_state_def xms_fresh_def)
  have l: "largest_free_kb (xms_state xms_fresh) = 3968" "xms_state xms_fresh ! 0 = None" by code_simp+
  have ex: "\<exists>i<16. xms_state xms_fresh ! i = None" using l(2) by (intro exI [of _ 0]) simp
  have d: "word16 (rdx (vm86_call 0x0900 0 n)) = ucast n" for n by (simp add:)
  show ?thesis
    using xms_alloc_exact [OF ok refl _ prod.collapse [symmetric], of "vm86_call 0x0900 0 3968"]
      xms_alloc_exact [OF ok refl _ prod.collapse [symmetric], of "vm86_call 0x0900 0 3969"] l(1) ex d
    by simp
qed







text \<open>
  The bounds check of a move wraps: for every live first handle, offset \<open>2^32 - n\<close> with length
  \<open>n\<close> passes it and names the \<open>n\<close> bytes just below the block.
\<close>

theorem xms_resolve_wrap:
  assumes "hs \<noteq> []" and "hs ! 0 = Some h"
  shows "xms_resolve hs 1 (- n) n = Some (hbase h - n)"
  using assms by (simp add: xms_resolve_def)

theorem xms_resolve_wrap_witness:
  "xms_resolve (xms_state (xms_run [vm86_call 0x0900 0 64] xms_fresh)) 1 (- 0x1000) 0x1000 = Some 0x11F000"
proof -
  let ?hs = "xms_state (xms_run [vm86_call 0x0900 0 64] xms_fresh)"
  have "?hs ! 0 = Some \<lparr>hbase = 0x120000, size_kb = 64, locked = False\<rparr>" "?hs \<noteq> []" by code_simp+
  then show ?thesis using xms_resolve_wrap [of ?hs _ "0x1000"] by simp
qed


end
