(* ===== verification/Ems.thy ===== *)
theory Ems
  imports Guest
begin

text \<open>
  \<^verbatim>\<open>kernel/src/kernel/dos/ems.rs\<close>: the expanded memory driver behind INT 67h. Four windows of the page
  frame are mapped by exchanging page-table entries with a backing region of 256 logical pages of
  four virtual pages each. A call returns None where the code's indexing panics; the debug output
  is left out, the page frame's base (\<^verbatim>\<open>EMS_BASE_PAGE\<close>) is part of the state.

  The proofs follow where the contents of each logical page live: in a window while mapped, in
  its backing otherwise.
\<close>

definition MAX_EMS_HANDLES :: nat where "MAX_EMS_HANDLES = 16"
definition EMS_TOTAL_PAGES :: u16 where "EMS_TOTAL_PAGES = 256"
definition EMS_BACKING_VPAGE :: nat where "EMS_BACKING_VPAGE = 0x500"

text \<open>\<^verbatim>\<open>EmsHandle\<close> is its list of backing virtual pages.\<close>

record ems_state =
  ehandles :: "nat list option list"
  frame :: "(nat \<times> nat) option list"
  next_page :: u16

record ems_world =
  ems :: "ems_state option"
  frame_base :: nat
  emem :: guest
  dpmi_active :: bool

definition ems_state_new :: ems_state where
  "ems_state_new = \<lparr>ehandles = replicate MAX_EMS_HANDLES None, frame = replicate 4 None, next_page = 0\<rparr>"

definition ems_of :: "ems_world \<Rightarrow> ems_state" where
  "ems_of w = (case ems w of None \<Rightarrow> ems_state_new | Some s \<Rightarrow> s)"

definition put_ems :: "ems_state \<Rightarrow> ems_world \<Rightarrow> ems_world" where
  "put_ems s w = w\<lparr>ems := Some s\<rparr>"

definition ems_frame_seg :: "ems_world \<Rightarrow> u16" where
  "ems_frame_seg w = of_nat (frame_base w) * 0x100"

definition swap_ems_window :: "nat \<Rightarrow> nat \<Rightarrow> nat \<Rightarrow> guest \<Rightarrow> guest" where
  "swap_ems_window base window backing_vpage g = swap_page_entries backing_vpage (base + window * 4) 4 g"

definition alloc_pages :: "ems_state \<Rightarrow> u16" where
  "alloc_pages s =
     saturating_sub EMS_TOTAL_PAGES
       (fold (\<lambda>h used. case h of Some pages \<Rightarrow> used + of_nat (length pages) | None \<Rightarrow> used) (ehandles s) 0)"

definition free_all_pages :: "ems_state \<Rightarrow> ems_state" where
  "free_all_pages s = s\<lparr>ehandles := replicate MAX_EMS_HANDLES None, frame := replicate 4 None\<rparr>"

text \<open>AH: clear for success, or an error code.\<close>

definition ems_ok_ah :: "regs \<Rightarrow> regs" where
  "ems_ok_ah r = r\<lparr>rax := rax r AND NOT 0xFF00\<rparr>"

definition ems_err :: "u8 \<Rightarrow> regs \<Rightarrow> regs" where
  "ems_err e r = r\<lparr>rax := set_high8 e (rax r)\<rparr>"

text \<open>Fresh backing pages from the bump counter, one per round of the loop.\<close>

fun bump_pages :: "nat \<Rightarrow> u16 \<Rightarrow> nat list \<times> u16" where
  "bump_pages 0 np = ([], np)"
| "bump_pages (Suc n) np =
     (case bump_pages n (np + 1) of (ps, np') \<Rightarrow> ((EMS_BACKING_VPAGE + unat np * 4) # ps, np'))"

definition ems_alloc :: "ems_world \<Rightarrow> regs \<Rightarrow> ems_world \<times> regs" where
  "ems_alloc w r =
     (let pages_needed = word16 (rbx r); s = ems_of w in
      case find_index (\<lambda>h. h = None) (ehandles s) of
        Some i \<Rightarrow>
          (if next_page s + pages_needed > EMS_TOTAL_PAGES then (put_ems s w, ems_err 0x88 r)
           else case bump_pages (unat pages_needed) (next_page s) of
                  (pages, np) \<Rightarrow>
                    (put_ems (s\<lparr>ehandles := (ehandles s)[i := Some pages], next_page := np\<rparr>) w,
                     ems_ok_ah (r\<lparr>rdx := set16 (of_nat i) (rdx r)\<rparr>)))
      | None \<Rightarrow> (put_ems s w, ems_err 0x85 r))"

text \<open>Give a window's contents back to the logical page it shows; None where \<^verbatim>\<open>pages[old_lp]\<close> panics.\<close>

definition save_window :: "nat \<Rightarrow> nat \<Rightarrow> ems_state \<Rightarrow> guest \<Rightarrow> guest option" where
  "save_window base p s g =
     (case frame s ! p of
        None \<Rightarrow> Some g
      | Some (old_h, old_lp) \<Rightarrow>
          if old_h < length (ehandles s) then
            (case ehandles s ! old_h of
               None \<Rightarrow> Some g
             | Some pages \<Rightarrow>
                 if old_lp < length pages then Some (swap_ems_window base p (pages ! old_lp) g) else None)
          else None)"

definition ems_map :: "ems_world \<Rightarrow> regs \<Rightarrow> (ems_world \<times> regs) option" where
  "ems_map w r =
     (let phys_page = unat (ucast (rax r) :: u8); log_page = word16 (rbx r); handle = unat (word16 (rdx r)) in
      if phys_page > 3 then Some (w, ems_err 0x8B r)
      else let s = ems_of w in
        if log_page = 0xFFFF then
          (case save_window (frame_base w) phys_page s (emem w) of
             None \<Rightarrow> None
           | Some g \<Rightarrow> Some ((put_ems (s\<lparr>frame := (frame s)[phys_page := None]\<rparr>) w)\<lparr>emem := g\<rparr>, ems_ok_ah r))
        else if handle \<ge> MAX_EMS_HANDLES then Some (put_ems s w, ems_err 0x83 r)
        else case ehandles s ! handle of
          None \<Rightarrow> Some (put_ems s w, ems_err 0x83 r)
        | Some pages \<Rightarrow>
            if unat log_page < length pages then
              (case save_window (frame_base w) phys_page s (emem w) of
                 None \<Rightarrow> None
               | Some g \<Rightarrow>
                   Some ((put_ems (s\<lparr>frame := (frame s)[phys_page := Some (handle, unat log_page)]\<rparr>) w)
                           \<lparr>emem := swap_ems_window (frame_base w) phys_page (pages ! unat log_page) g\<rparr>,
                         ems_ok_ah r))
            else Some (put_ems s w, ems_err 0x8A r))"

text \<open>The loop over the windows that show a released handle.\<close>

fun release_windows :: "nat \<Rightarrow> nat \<Rightarrow> nat list \<Rightarrow> nat list \<Rightarrow> (nat \<times> nat) option list \<Rightarrow> guest \<Rightarrow>
    ((nat \<times> nat) option list \<times> guest) option" where
  "release_windows base handle pages [] fr g = Some (fr, g)"
| "release_windows base handle pages (win # ws) fr g =
     (case fr ! win of
        Some (h, lp) \<Rightarrow>
          if h = handle then
            (if lp < length pages
             then release_windows base handle pages ws (fr[win := None]) (swap_ems_window base win (pages ! lp) g)
             else None)
          else release_windows base handle pages ws fr g
      | None \<Rightarrow> release_windows base handle pages ws fr g)"

definition ems_release :: "ems_world \<Rightarrow> regs \<Rightarrow> (ems_world \<times> regs) option" where
  "ems_release w r =
     (let handle = unat (word16 (rdx r)); s = ems_of w in
      if handle < MAX_EMS_HANDLES then
        (case ehandles s ! handle of
           None \<Rightarrow> Some (put_ems s w, ems_err 0x83 r)
         | Some pages \<Rightarrow>
             (case release_windows (frame_base w) handle pages [0..<4] (frame s) (emem w) of
                None \<Rightarrow> None
              | Some (fr, g) \<Rightarrow>
                  Some ((put_ems (s\<lparr>frame := fr, ehandles := (ehandles s)[handle := None]\<rparr>) w)\<lparr>emem := g\<rparr>,
                        ems_ok_ah r)))
      else Some (put_ems s w, ems_err 0x83 r))"

definition ems_handle_pages :: "ems_world \<Rightarrow> regs \<Rightarrow> ems_world \<times> regs" where
  "ems_handle_pages w r =
     (let handle = unat (word16 (rdx r)); s = ems_of w in
      (put_ems s w,
       case (if handle < MAX_EMS_HANDLES then ehandles s ! handle else None) of
         Some pages \<Rightarrow> ems_ok_ah (r\<lparr>rbx := (rbx r AND NOT 0xFFFF) OR of_nat (length pages)\<rparr>)
       | None \<Rightarrow> ems_err 0x83 r))"

fun write_handle_table :: "u32 \<Rightarrow> u16 \<Rightarrow> nat list \<Rightarrow> nat list option list \<Rightarrow> guest \<Rightarrow> u16 \<times> guest" where
  "write_handle_table addr count [] hs g = (count, g)"
| "write_handle_table addr count (i # is) hs g =
     (case hs ! i of
        Some pages \<Rightarrow>
          write_handle_table (addr + 4) (count + 1) is hs
            (guest_write16 (unat addr + 2) (of_nat (length pages)) (guest_write16 (unat addr) (of_nat i) g))
      | None \<Rightarrow> write_handle_table addr count is hs g)"

definition ems_all_pages :: "ems_world \<Rightarrow> regs \<Rightarrow> ems_world \<times> regs" where
  "ems_all_pages w r =
     (let s = ems_of w; addr = push_bit 4 (ucast (es r)) + ucast (rdi r) in
      case write_handle_table addr 0 [0..<MAX_EMS_HANDLES] (ehandles s) (emem w) of
        (count, g) \<Rightarrow> ((put_ems s w)\<lparr>emem := g\<rparr>, ems_ok_ah (r\<lparr>rbx := set16 count (rbx r)\<rparr>)))"

text \<open>
  Function 50h, one entry of the mapping array per round: the error code of an early return, or
  None when all entries are mapped.
\<close>

fun map_multiple :: "ems_world \<Rightarrow> u8 \<Rightarrow> nat \<Rightarrow> u32 \<Rightarrow> u32 list \<Rightarrow> ems_state \<Rightarrow> guest \<Rightarrow>
    (u8 option \<times> ems_state \<times> guest) option" where
  "map_multiple w al handle base_addr [] s g = Some (None, s, g)"
| "map_multiple w al handle base_addr (i # is) s g =
     (let log_page = guest_read16 g (unat (base_addr + i * 4));
          phys_raw = guest_read16 g (unat (base_addr + i * 4 + 2));
          phys_page = unat (if al = 0 then ucast phys_raw
                            else ucast ((phys_raw - ems_frame_seg w) div 0x0400) :: u8) in
      if phys_page > 3 then Some (Some 0x8B, s, g)
      else case save_window (frame_base w) phys_page s g of
        None \<Rightarrow> None
      | Some g1 \<Rightarrow>
          if log_page = 0xFFFF then
            map_multiple w al handle base_addr is (s\<lparr>frame := (frame s)[phys_page := None]\<rparr>) g1
          else case ehandles s ! handle of
            Some pages \<Rightarrow>
              if unat log_page < length pages then
                map_multiple w al handle base_addr is
                  (s\<lparr>frame := (frame s)[phys_page := Some (handle, unat log_page)]\<rparr>)
                  (swap_ems_window (frame_base w) phys_page (pages ! unat log_page) g1)
              else Some (Some 0x8A, s, g1)
          | None \<Rightarrow> Some (Some 0x8A, s, g1))"

definition ems_map_multiple :: "ems_world \<Rightarrow> regs \<Rightarrow> (ems_world \<times> regs) option" where
  "ems_map_multiple w r =
     (let al = ucast (rax r) :: u8; count = word16 (rcx r); handle = unat (word16 (rdx r));
          base_addr = push_bit 4 (ucast (word16 (ds r))) + ucast (word16 (rsi r)); s = ems_of w in
      if handle \<ge> MAX_EMS_HANDLES \<or> ehandles s ! handle = None then Some (put_ems s w, ems_err 0x83 r)
      else case map_multiple w al handle base_addr (map of_nat [0..<unat count]) s (emem w) of
        None \<Rightarrow> None
      | Some (e, s', g) \<Rightarrow>
          Some ((put_ems s' w)\<lparr>emem := g\<rparr>, case e of None \<Rightarrow> ems_ok_ah r | Some e \<Rightarrow> ems_err e r))"

definition ems_realloc :: "ems_world \<Rightarrow> regs \<Rightarrow> ems_world \<times> regs" where
  "ems_realloc w r =
     (let handle = unat (word16 (rdx r)); new_count = word16 (rbx r); s = ems_of w in
      if handle \<ge> MAX_EMS_HANDLES then (put_ems s w, ems_err 0x83 r)
      else case ehandles s ! handle of
        None \<Rightarrow> (put_ems s w, ems_err 0x83 r)
      | Some pages \<Rightarrow>
          (let old_count = length pages; ok = ems_ok_ah (r\<lparr>rbx := set16 new_count (rbx r)\<rparr>) in
           if unat new_count > old_count then
             (if next_page s + (new_count - of_nat old_count) > EMS_TOTAL_PAGES then (put_ems s w, ems_err 0x88 r)
              else case bump_pages (unat new_count - old_count) (next_page s) of
                     (fresh, np) \<Rightarrow>
                       (put_ems (s\<lparr>ehandles := (ehandles s)[handle := Some (pages @ fresh)], next_page := np\<rparr>) w, ok))
           else if unat new_count < old_count then
             (put_ems (s\<lparr>ehandles := (ehandles s)[handle := Some (take (unat new_count) pages)]\<rparr>) w, ok)
           else (put_ems s w, ok)))"

definition ems_phys_array :: "ems_world \<Rightarrow> regs \<Rightarrow> ems_world \<times> regs" where
  "ems_phys_array w r =
     (let r' = ems_ok_ah (r\<lparr>rcx := set16 4 (rcx r)\<rparr>) in
      if ucast (rax r) = (0 :: u8) then
        (let base = push_bit 4 (ucast (es r)) + ucast (rdi r) :: u32;
             g = fold (\<lambda>i g. guest_write16 (unat (base + of_nat i * 4 + 2)) (of_nat i)
                   (guest_write16 (unat (base + of_nat i * 4)) (ems_frame_seg w + of_nat i * 0x0400) g)) [0..<4] (emem w) in
         (w\<lparr>emem := g\<rparr>, r'))
      else (w, r'))"

definition int_67h_inner :: "ems_world \<Rightarrow> regs \<Rightarrow> u8 \<Rightarrow> (ems_world \<times> regs) option" where
  "int_67h_inner w r ah =
     (let s = ems_of w in
      if ah = 0x40 then Some (w, ems_ok_ah r)
      else if ah = 0x41 then Some (w, ems_ok_ah (r\<lparr>rbx := set16 (ems_frame_seg w) (rbx r)\<rparr>))
      else if ah = 0x42 then
        Some (put_ems s w, ems_ok_ah (r\<lparr>rbx := set16 (alloc_pages s) (rbx r), rdx := set16 EMS_TOTAL_PAGES (rdx r)\<rparr>))
      else if ah = 0x43 then Some (ems_alloc w r)
      else if ah = 0x44 then ems_map w r
      else if ah = 0x45 then ems_release w r
      else if ah = 0x46 then
        (let r1 = ems_ok_ah r in Some (w, r1\<lparr>rax := set_low8 0x40 (rax r1)\<rparr>))
      else if ah = 0x4B then
        Some (put_ems s w, ems_ok_ah (r\<lparr>rbx := set16 (of_nat (length (filter (\<lambda>h. h \<noteq> None) (ehandles s)))) (rbx r)\<rparr>))
      else if ah = 0x4C then Some (ems_handle_pages w r)
      else if ah = 0x4D then Some (ems_all_pages w r)
      else if ah = 0x50 then ems_map_multiple w r
      else if ah = 0x51 then Some (ems_realloc w r)
      else if ah = 0x58 then Some (ems_phys_array w r)
      else Some (w, ems_err 0x84 r))"

definition int_67h :: "ems_world \<Rightarrow> regs \<Rightarrow> (ems_world \<times> regs) option" where
  "int_67h w r =
     (if dpmi_active w then Some (w, ems_err 0x80 r)
      else int_67h_inner w r (ucast (drop_bit 8 (rax r))))"

section \<open>Where a logical page lives\<close>

definition valid :: "ems_state \<Rightarrow> nat \<times> nat \<Rightarrow> bool" where
  "valid s x \<longleftrightarrow> fst x < length (ehandles s) \<and>
     (case ehandles s ! fst x of Some pages \<Rightarrow> snd x < length pages | None \<Rightarrow> False)"

definition backing :: "ems_state \<Rightarrow> nat \<times> nat \<Rightarrow> nat" where
  "backing s x = the (ehandles s ! fst x) ! snd x"

definition mapped_at :: "ems_state \<Rightarrow> nat \<Rightarrow> nat \<times> nat \<Rightarrow> bool" where
  "mapped_at s p x \<longleftrightarrow> p < 4 \<and> frame s ! p = Some x"


definition pages_ok :: "ems_state \<Rightarrow> bool" where
  "pages_ok s \<longleftrightarrow> unat (next_page s) \<le> 256 \<and>
     (\<forall>x. valid s x \<longrightarrow> (\<exists>k<unat (next_page s). backing s x = EMS_BACKING_VPAGE + k * 4)) \<and>
     (\<forall>x y. valid s x \<and> valid s y \<and> backing s x = backing s y \<longrightarrow> x = y)"

definition frames_ok :: "ems_state \<Rightarrow> bool" where
  "frames_ok s \<longleftrightarrow> (\<forall>p x. mapped_at s p x \<longrightarrow> valid s x) \<and>
     (\<forall>p q x. mapped_at s p x \<and> mapped_at s q x \<longrightarrow> p = q)"

definition ems_inv :: "nat \<Rightarrow> ems_state \<Rightarrow> bool" where
  "ems_inv base s \<longleftrightarrow> length (ehandles s) = 16 \<and> length (frame s) = 4 \<and> base + 16 \<le> EMS_BACKING_VPAGE \<and>
     pages_ok s \<and> frames_ok s"

lemma ems_invD:
  assumes "ems_inv base s"
  shows "length (ehandles s) = 16" and "length (frame s) = 4" and "pages_ok s"
    and "\<And>p x. mapped_at s p x \<Longrightarrow> valid s x"
    and "\<And>p q x. mapped_at s p x \<Longrightarrow> mapped_at s q x \<Longrightarrow> p = q"
  using assms unfolding ems_inv_def frames_ok_def by blast+

lemma ems_inv_new: "base + 16 \<le> EMS_BACKING_VPAGE \<Longrightarrow> ems_inv base ems_state_new"
  by (auto simp: ems_inv_def pages_ok_def frames_ok_def ems_state_new_def valid_def mapped_at_def MAX_EMS_HANDLES_def)



lemma pages_ok_backing: "pages_ok s \<Longrightarrow> valid s x \<Longrightarrow> \<exists>k<unat (next_page s). backing s x = EMS_BACKING_VPAGE + k * 4"
  and pages_ok_inj: "pages_ok s \<Longrightarrow> valid s x \<Longrightarrow> valid s y \<Longrightarrow> backing s x = backing s y \<Longrightarrow> x = y"
  unfolding pages_ok_def by blast+




lemma frame_update_same [simp]:
  "valid (s\<lparr>frame := f\<rparr>) x = valid s x" "backing (s\<lparr>frame := f\<rparr>) x = backing s x"
  by (simp_all add: valid_def backing_def)

lemma pages_ok_frame [simp]: "pages_ok (s\<lparr>frame := f\<rparr>) = pages_ok s"
  unfolding pages_ok_def frame_update_same by simp

lemma mapped_at_update:
  "length (frame s) = 4 \<Longrightarrow> mapped_at (s\<lparr>frame := (frame s)[p := f]\<rparr>) q x \<longleftrightarrow>
     (if q = p then p < 4 \<and> f = Some x else mapped_at s q x)"
  by (auto simp: mapped_at_def nth_list_update)

lemma ems_inv_frame:
  assumes "ems_inv base s" and "length f = 4" and "frames_ok (s\<lparr>frame := f\<rparr>)"
  shows "ems_inv base (s\<lparr>frame := f\<rparr>)"
  using assms by (simp add: ems_inv_def)


lemma ems_inv_map:
  assumes inv: "ems_inv base s" and v: "valid s x" and un: "\<forall>q. q \<noteq> p \<longrightarrow> \<not> mapped_at s q x"
  shows "ems_inv base (s\<lparr>frame := (frame s)[p := Some x]\<rparr>)"
proof (rule ems_inv_frame [OF inv])
  let ?s = "s\<lparr>frame := (frame s)[p := Some x]\<rparr>"
  have m: "mapped_at ?s q y \<Longrightarrow> (q = p \<and> y = x) \<or> (q \<noteq> p \<and> mapped_at s q y)" for q y
    using mapped_at_update [OF ems_invD(2) [OF inv]] by (auto split: if_splits)
  then show "frames_ok ?s"
    using v un ems_invD(4,5) [OF inv] unfolding frames_ok_def frame_update_same by metis
qed (simp add: ems_invD(2) [OF inv])



section \<open>Allocation\<close>

lemma bump_pages_exact:
  "unat np + n < 65536 \<Longrightarrow>
     bump_pages n np = (map (\<lambda>i. EMS_BACKING_VPAGE + (unat np + i) * 4) [0..<n], np + of_nat n)"
proof (induction n arbitrary: np)
  case (Suc n)
  have np: "unat (np + 1) = unat np + 1" using Suc.prems by (subst unat_add_lem [THEN iffD1]) simp_all
  have "[0..<Suc n] = 0 # map Suc [0..<n]" by (simp add: map_Suc_upt upt_conv_Cons del: upt_Suc)
  then show ?case using Suc.IH [of "np + 1"] Suc.prems np by (simp add: add.assoc del: upt_Suc)
qed simp

lemma length_bump_pages: "length (fst (bump_pages n np)) = n"
  by (induction n arbitrary: np) (simp_all add: case_prod_beta)

lemma valid_add_handle:
  fixes pages :: "nat list" and np :: u16
  assumes "i < length (ehandles s)" and "ehandles s ! i = None"
  defines "s' \<equiv> s\<lparr>ehandles := (ehandles s)[i := Some pages], next_page := np\<rparr>"
  shows "valid s' x \<longleftrightarrow> valid s x \<or> (fst x = i \<and> snd x < length pages)"
    and "valid s x \<Longrightarrow> backing s' x = backing s x" and "backing s' (i, l) = pages ! l"
  using assms(1,2) by (auto simp: s'_def valid_def backing_def nth_list_update)

lemma pages_ok_alloc:
  assumes ok: "pages_ok s" and i: "i < length (ehandles s)" "ehandles s ! i = None"
    and room: "unat (next_page s) + n \<le> 256"
  defines "s' \<equiv> s\<lparr>ehandles := (ehandles s)[i := Some (fst (bump_pages n (next_page s)))],
    next_page := snd (bump_pages n (next_page s))\<rparr>"
  shows "pages_ok s'" and "\<And>x. valid s x \<Longrightarrow> valid s' x \<and> backing s' x = backing s x"
proof -
  let ?np = "next_page s"
  have bump: "bump_pages n ?np = (map (\<lambda>k. EMS_BACKING_VPAGE + (unat ?np + k) * 4) [0..<n], ?np + of_nat n)"
    using room by (intro bump_pages_exact) simp
  have np: "unat (next_page s') = unat ?np + n"
    using room by (simp add: s'_def bump) (subst unat_add_lem [THEN iffD1], simp_all add: unat_of_nat_small)
  note v = valid_add_handle [OF i, where pages = "fst (bump_pages n ?np)" and np = "snd (bump_pages n ?np)", folded s'_def]
  show old: "valid s' x \<and> backing s' x = backing s x" if "valid s x" for x using v that by blast
  have new: "backing s' (i, l) = EMS_BACKING_VPAGE + (unat ?np + l) * 4" if "l < n" for l
    using v(3) [of l] that by (simp add: bump)
  have cases: "valid s x \<or> (fst x = i \<and> snd x < n)" if "valid s' x" for x
    using v(1) that by (simp add: bump)
  have range: "\<exists>k<unat ?np + n. backing s' x = EMS_BACKING_VPAGE + k * 4" if "valid s' x" for x
    using cases [OF that] old [of x] pages_ok_backing [OF ok, of x] new [of "snd x"]
    by (metis add_less_cancel_left prod.collapse trans_less_add1)
  have "x = y" if xy: "valid s' x" "valid s' y" "backing s' x = backing s' y" for x y
  proof -
    have lt: "\<exists>k<unat ?np. backing s' z = EMS_BACKING_VPAGE + k * 4" if "valid s z" for z
      using old [OF that] pages_ok_backing [OF ok that] by simp
    have ge: "backing s' z = EMS_BACKING_VPAGE + (unat ?np + snd z) * 4" if "fst z = i" "snd z < n" for z
      using new [OF that(2)] that(1) by (metis prod.collapse)
    have clash: False if "valid s a" "fst b = i" "snd b < n" "backing s' a = backing s' b" for a b
      using lt [OF that(1)] ge [OF that(2,3)] that(4) by auto
    consider "valid s x" "valid s y" | "valid s x" "fst y = i" "snd y < n" | "fst x = i" "snd x < n" "valid s y"
      | "fst x = i" "snd x < n" "fst y = i" "snd y < n"
      using cases [OF xy(1)] cases [OF xy(2)] by blast
    then show ?thesis
    proof cases
      case 1
      then show ?thesis using pages_ok_inj [OF ok 1] old xy(3) by simp
    next
      case 2
      then show ?thesis using clash [of x y] xy(3) by blast
    next
      case 3
      then show ?thesis using clash [of y x] xy(3) by simp
    next
      case 4
      then show ?thesis using ge [of x] ge [of y] xy(3) by (simp add: prod_eq_iff)
    qed
  qed
  then show "pages_ok s'" using range room unfolding pages_ok_def np by blast
qed

lemma ems_inv_alloc:
  assumes inv: "ems_inv base s" and i: "i < 16" "ehandles s ! i = None" and room: "unat (next_page s) + n \<le> 256"
  shows "ems_inv base (s\<lparr>ehandles := (ehandles s)[i := Some (fst (bump_pages n (next_page s)))],
    next_page := snd (bump_pages n (next_page s))\<rparr>)"
proof -
  let ?s = "s\<lparr>ehandles := (ehandles s)[i := Some (fst (bump_pages n (next_page s)))],
    next_page := snd (bump_pages n (next_page s))\<rparr>"
  have i': "i < length (ehandles s)" using i(1) ems_invD(1) [OF inv] by simp
  have "mapped_at ?s p x = mapped_at s p x" for p x by (simp add: mapped_at_def)
  then have "frames_ok ?s"
    using pages_ok_alloc(2) [OF ems_invD(3) [OF inv] i' i(2) room] ems_invD(4,5) [OF inv] unfolding frames_ok_def by blast
  then show ?thesis
    using pages_ok_alloc(1) [OF ems_invD(3) [OF inv] i' i(2) room] inv by (simp add: ems_inv_def)
qed

section \<open>Properties\<close>

lemma ems_of_put [simp]: "ems_of (put_ems s w) = s" "ems_of ((put_ems s w)\<lparr>emem := g\<rparr>) = s"
  by (simp_all add: ems_of_def put_ems_def)


text \<open>A thread that has allocated one handle of two pages.\<close>

definition ems_example :: ems_world where
  "ems_example = \<lparr>ems = Some \<lparr>ehandles = Some [0x500, 0x504] # replicate 15 None, frame = replicate 4 None, next_page = 2\<rparr>,
     frame_base = 0xD0, emem = (\<lambda>_. zero_page), dpmi_active = False\<rparr>"

lemma ems_example_inv: "ems_inv 0xD0 (ems_of ems_example)"
proof -
  have "fst (bump_pages 2 0) = [0x500, 0x504]" "snd (bump_pages 2 0) = 2"
    by (simp_all add: eval_nat_numeral EMS_BACKING_VPAGE_def)
  moreover have "replicate 16 None = (None :: nat list option) # replicate 15 None" by (simp add: eval_nat_numeral)
  ultimately show ?thesis
    using ems_inv_alloc [OF ems_inv_new, of "0xD0" 0 2]
    by (simp add: ems_state_new_def MAX_EMS_HANDLES_def EMS_BACKING_VPAGE_def ems_of_def ems_example_def)
qed

lemma ems_example_of:
  "ehandles (ems_of ems_example) = Some [0x500, 0x504] # replicate 15 None" "frame (ems_of ems_example) = replicate 4 None"
  "next_page (ems_of ems_example) = 2" "frame_base ems_example = 0xD0"
  by (simp_all add: ems_of_def ems_example_def)


text \<open>
  Allocation of up to FEFFh pages is exact: function 43h succeeds precisely when a handle is
  free and the pages fit above the bump counter; it then fills that handle with so many logical
  pages on backing no other logical page uses, every existing page stays where it was, and the
  state stays well-formed. Otherwise it reports 85h or 88h and changes nothing.
\<close>

theorem ems_alloc_exact:
  assumes "ems_inv base (ems_of w)" and "n = word16 (rbx r)" and "unat n \<le> 0xFEFF" and "ems_alloc w r = (w', r')"
  shows "emem w' = emem w \<and> ems_inv base (ems_of w') \<and>
    (if (\<exists>i<16. ehandles (ems_of w) ! i = None) \<and> unat (next_page (ems_of w)) + unat n \<le> 256
     then \<exists>i<16. ehandles (ems_of w) ! i = None \<and> unat (word16 (rdx r')) = i \<and>
       (\<forall>x. valid (ems_of w') x \<longleftrightarrow> valid (ems_of w) x \<or> (fst x = i \<and> snd x < unat n)) \<and>
       (\<forall>x. valid (ems_of w) x \<longrightarrow> backing (ems_of w') x = backing (ems_of w) x)
     else ems_of w' = ems_of w \<and>
       r' = ems_err (if \<exists>i<16. ehandles (ems_of w) ! i = None then 0x88 else 0x85) r)"
proof -
  let ?s = "ems_of w"
  note inv = assms(1)
  have len: "length (ehandles ?s) = 16" using ems_invD(1) [OF inv] .
  have le: "unat (next_page ?s) \<le> 256" using ems_invD(3) [OF inv] by (simp add: pages_ok_def)
  have fit: "next_page ?s + n > EMS_TOTAL_PAGES \<longleftrightarrow> \<not> unat (next_page ?s) + unat n \<le> 256"
  proof -
    have "unat (next_page ?s + n) = unat (next_page ?s) + unat n"
      using le assms(3) by (subst unat_add_lem [THEN iffD1]) simp_all
    then show ?thesis by (simp add: word_less_nat_alt EMS_TOTAL_PAGES_def not_le)
  qed
  show ?thesis
  proof (cases "find_index (\<lambda>h. h = None) (ehandles ?s)")
    case None
    then have "\<not> (\<exists>i<16. ehandles ?s ! i = None)" using len by (auto simp: find_index_None)
    then show ?thesis using None assms(4) inv by (auto simp: ems_alloc_def Let_def put_ems_def ems_of_def)
  next
    case (Some i)
    then have i: "i < 16" "ehandles ?s ! i = None" using len by (auto simp: find_index_Some)
    show ?thesis
    proof (cases "unat (next_page ?s) + unat n \<le> 256")
      case False
      then show ?thesis using Some assms(2,4) inv fit i by (auto simp: ems_alloc_def Let_def put_ems_def ems_of_def)
    next
      case True
      let ?b = "bump_pages (unat n) (next_page ?s)"
      let ?s' = "?s\<lparr>ehandles := (ehandles ?s)[i := Some (fst ?b)], next_page := snd ?b\<rparr>"
      have w': "w' = put_ems ?s' w" "r' = ems_ok_ah (r\<lparr>rdx := set16 (of_nat i) (rdx r)\<rparr>)"
        using Some assms(2,4) fit True by (auto simp: ems_alloc_def Let_def case_prod_beta)
      have "unat (word16 (rdx r')) = i" using w'(2) i(1) by (simp add: ems_ok_ah_def unat_of_nat_small)
      moreover have "emem w' = emem w" using w'(1) by (simp add: put_ems_def)
      moreover have "ems_inv base (ems_of w')" using ems_inv_alloc [OF inv i True] w'(1) by simp
      ultimately show ?thesis
        using valid_add_handle [of i ?s, where pages = "fst ?b" and np = "snd ?b"] i True len w'(1)
        by (auto simp: length_bump_pages)
    qed
  qed
qed

theorem ems_alloc_exact_witness:
  "ems_inv 0xD0 (ems_of (fst (ems_alloc ems_example (vm86_call 0x4300 254 0)))) \<and>
   ems_of (fst (ems_alloc ems_example (vm86_call 0x4300 255 0))) = ems_of ems_example"
proof -
  have "\<exists>i<16. ehandles (ems_of ems_example) ! i = None" by (intro exI [of _ 1]) (simp add: ems_example_of)
  moreover have "unat (word16 (rbx (vm86_call 0x4300 254 0))) = 254" "unat (word16 (rbx (vm86_call 0x4300 255 0))) = 255"
    by (simp_all add:)
  ultimately show ?thesis
    using ems_alloc_exact [OF ems_example_inv refl _ prod.collapse [symmetric], of "vm86_call 0x4300 254 0"]
      ems_alloc_exact [OF ems_example_inv refl _ prod.collapse [symmetric], of "vm86_call 0x4300 255 0"]
    by (simp add: ems_example_of)
qed

text \<open>
  The size check wraps at sixteen bits: with a free handle, a request that carries the bump
  counter past 65535 back to at most 256 is granted in full, handing out far more than the 256
  pages that exist.
\<close>

theorem ems_alloc_wraps:
  assumes "find_index (\<lambda>h. h = None) (ehandles (ems_of w)) = Some i"
    and "unat (next_page (ems_of w)) + unat (word16 (rbx r)) \<ge> 65536" and "next_page (ems_of w) + word16 (rbx r) \<le> 256"
  shows "\<exists>pages. ehandles (ems_of (fst (ems_alloc w r))) ! i = Some pages \<and> length pages = unat (word16 (rbx r)) \<and>
    snd (ems_alloc w r) = ems_ok_ah (r\<lparr>rdx := set16 (of_nat i) (rdx r)\<rparr>)"
proof -
  have "i < length (ehandles (ems_of w))" using assms(1) by (simp add: find_index_Some)
  moreover have "\<not> 256 < next_page (ems_of w) + word16 (rbx r)" using assms(3) by (simp add: not_less)
  ultimately show ?thesis
    using assms(1) by (simp add: ems_alloc_def Let_def EMS_TOTAL_PAGES_def case_prod_beta length_bump_pages)
qed

theorem ems_alloc_wraps_witness:
  "\<exists>pages. ehandles (ems_of (fst (ems_alloc ems_example (vm86_call 0x4300 0xFFFF 0)))) ! 1 = Some pages \<and> length pages = 65535"
proof -
  have "find_index (\<lambda>h. h = None) (ehandles (ems_of ems_example)) = Some 1"
    by (simp add: ems_example_of eval_nat_numeral)
  moreover have "word16 (rbx (vm86_call 0x4300 0xFFFF 0)) = 0xFFFF" by (simp add:)
  ultimately show ?thesis
    using ems_alloc_wraps [of ems_example 1 "vm86_call 0x4300 0xFFFF 0"] by (auto simp: ems_example_of)
qed

text \<open>
  C29. Shrinking a handle under a mapped page makes the next use of that window panic: when a
  window shows logical page \<open>l\<close> of a handle and function 51h reduces the handle to at most \<open>l\<close>
  pages, unmapping the window indexes past the end of the handle's page list.
\<close>

theorem ems_shrink_panics:
  assumes "ems_inv base (ems_of w)" and "mapped_at (ems_of w) p (unat (word16 (rdx r)), l)"
    and "unat (word16 (rbx r)) \<le> l" and "ems_realloc w r = (w', r')"
    and "unat (ucast (rax q) :: u8) = p" and "word16 (rbx q) = 0xFFFF"
  shows "ems_map w' q = None"
proof -
  let ?s = "ems_of w" and ?h = "unat (word16 (rdx r))" and ?n = "unat (word16 (rbx r))"
  have v: "valid ?s (?h, l)" using ems_invD(4) [OF assms(1,2)] .
  then obtain pages where pages: "ehandles ?s ! ?h = Some pages" "l < length pages" "?h < 16"
    using ems_invD(1) [OF assms(1)] by (auto simp: valid_def split: option.splits)
  have "ems_of w' = ?s\<lparr>ehandles := (ehandles ?s)[?h := Some (take ?n pages)]\<rparr>"
    using assms(3,4) pages by (auto simp: ems_realloc_def Let_def MAX_EMS_HANDLES_def)
  moreover have "p < 4" "frame ?s ! p = Some (?h, l)" using assms(2) by (simp_all add: mapped_at_def)
  ultimately show ?thesis
    using assms(3,5,6) pages ems_invD(1) [OF assms(1)] by (simp add: ems_map_def Let_def save_window_def)
qed

theorem ems_shrink_panics_witness:
  "\<exists>w w'. ems_map ems_example (vm86_call 0x4402 1 0) = Some (w, ems_ok_ah (vm86_call 0x4402 1 0)) \<and>
     ems_realloc w (vm86_call 0x5100 1 0) = (w', snd (ems_realloc w (vm86_call 0x5100 1 0))) \<and>
     ems_map w' (vm86_call 0x4402 0xFFFF 0) = None"
proof -
  let ?s = "(ems_of ems_example)\<lparr>frame := (replicate 4 None)[2 := Some (0, 1)]\<rparr>"
  obtain g where m: "ems_map ems_example (vm86_call 0x4402 1 0) =
      Some ((put_ems ?s ems_example)\<lparr>emem := g\<rparr>, ems_ok_ah (vm86_call 0x4402 1 0))" (is "_ = Some (?w, _)")
    by (simp add: ems_map_def Let_def ems_example_of MAX_EMS_HANDLES_def save_window_def)
  have inv: "ems_inv 0xD0 ?s"
    using ems_inv_map [OF ems_example_inv, of "(0, 1)" 2] by (auto simp: ems_example_of valid_def mapped_at_def)
  have "ems_map (fst (ems_realloc ?w (vm86_call 0x5100 1 0))) (vm86_call 0x4402 0xFFFF 0) = None"
    using inv
    by (intro ems_shrink_panics [where w = ?w and base = "0xD0" and p = 2 and l = 1 and r = "vm86_call 0x5100 1 0"])
      (simp_all add: mapped_at_def prod_eq_iff)
  then show ?thesis using m by (metis prod.collapse)
qed

end
