(* ===== verification/Block.thy ===== *)
theory Block
  imports Prelude
begin

text \<open>
  The block-device layer (\<^verbatim>\<open>kernel/src/kernel/block/mod.rs\<close>) and the volume adapter of
  \<^verbatim>\<open>cache.rs\<close>.  The trait object \<^verbatim>\<open>&dyn Disk\<close> is a record of operations over the state \<open>'d\<close> of the
  device behind it; an operation that panics is \<open>None\<close>.  The interior mutability of the wrappers
  is explicit: reads return a new device state as well.

  The locales state the contract of the trait: \<open>disk_reader\<close> for a device whose sectors can be
  read, \<open>disk_writer\<close> for one that also stores what is written.  The contract is proved for the
  volume adapter from the contract of the device below it, and from it the behaviour of whole
  sequences of volume accesses: they are those of a flat array of bytes.
\<close>

section \<open>The disk interface\<close>

record 'd disk_ops =
  disk_read :: "'d \<Rightarrow> u64 \<Rightarrow> u8 list \<Rightarrow> (u32 \<times> u8 list \<times> 'd) option"
  disk_write :: "'d \<Rightarrow> u64 \<Rightarrow> u8 list \<Rightarrow> (u32 \<times> 'd) option"
  disk_sectors :: "'d \<Rightarrow> u64"
  disk_name :: "'d \<Rightarrow> string"

section \<open>Volumes\<close>

text \<open>The disk a volume lives on is passed beside it, since several volumes share one disk.\<close>

record volume =
  vol_start :: u64
  vol_sectors :: u64

definition volume_whole :: "'d disk_ops \<Rightarrow> 'd \<Rightarrow> volume" where
  "volume_whole D d = \<lparr>vol_start = 0, vol_sectors = disk_sectors D d\<rparr>"

definition volume_new :: "'d disk_ops \<Rightarrow> 'd \<Rightarrow> u64 \<Rightarrow> u64 \<Rightarrow> volume" where
  "volume_new D d start sectors =
     \<lparr>vol_start = start, vol_sectors = min sectors (saturating_sub (disk_sectors D d) start)\<rparr>"

definition volume_clamp :: "volume \<Rightarrow> u64 \<Rightarrow> nat \<Rightarrow> nat" where
  "volume_clamp v lba len =
     (let want = of_nat (div_ceil len 512);
          avail = min (saturating_sub (vol_sectors v) lba) want
      in min (unat (ucast (avail * 512) :: usize)) len)"

definition volume_read ::
  "'d disk_ops \<Rightarrow> volume \<Rightarrow> 'd \<Rightarrow> u64 \<Rightarrow> u8 list \<Rightarrow> (u32 \<times> u8 list \<times> 'd) option" where
  "volume_read D v d lba buf =
     (let n = volume_clamp v lba (length buf);
          inside = take n buf;
          past_end = replicate (length buf - n) 0
      in if inside = [] then Some (0, past_end, d)
         else case disk_read D d (vol_start v + lba) inside of
                None \<Rightarrow> None
              | Some (k, inside', d') \<Rightarrow> Some (k, inside' @ past_end, d'))"

definition volume_write ::
  "'d disk_ops \<Rightarrow> volume \<Rightarrow> 'd \<Rightarrow> u64 \<Rightarrow> u8 list \<Rightarrow> (u32 \<times> 'd) option" where
  "volume_write D v d lba buf =
     (let n = volume_clamp v lba (length buf)
      in if n = 0 then Some (0, d)
         else disk_write D d (vol_start v + lba) (take n buf))"

text \<open>\<^verbatim>\<open>VolumeDisk\<close>: a volume presented as a disk again.\<close>

definition volume_disk :: "volume \<Rightarrow> 'd disk_ops \<Rightarrow> 'd disk_ops" where
  "volume_disk v D =
     \<lparr>disk_read = volume_read D v, disk_write = volume_write D v,
      disk_sectors = (\<lambda>_. vol_sectors v), disk_name = disk_name D\<rparr>"

section \<open>A flat disk\<close>

text \<open>
  The specification the block layer refines: an array of bytes and a capacity.  A read beyond
  the capacity sees zeros, a write beyond it is dropped, and both report the sectors inside.
\<close>

definition bytes_at :: "(nat \<Rightarrow> u8) \<Rightarrow> nat \<Rightarrow> nat \<Rightarrow> u8 list" where
  "bytes_at f a n = map f [a ..< a + n]"

definition store_bytes :: "(nat \<Rightarrow> u8) \<Rightarrow> nat \<Rightarrow> u8 list \<Rightarrow> nat \<Rightarrow> u8" where
  "store_bytes f a xs = (\<lambda>i. if a \<le> i \<and> i < a + length xs then xs ! (i - a) else f i)"

definition flat_inside :: "nat \<Rightarrow> nat \<Rightarrow> nat \<Rightarrow> nat" where
  "flat_inside cap lba len = min len ((cap - lba) * 512)"

definition flat_read :: "nat \<Rightarrow> (nat \<Rightarrow> u8) \<Rightarrow> nat \<Rightarrow> nat \<Rightarrow> u32 \<times> u8 list" where
  "flat_read cap f lba len =
     (of_nat (div_ceil (flat_inside cap lba len) 512),
      bytes_at (\<lambda>i. if i < cap * 512 then f i else 0) (lba * 512) len)"

definition flat_write :: "nat \<Rightarrow> (nat \<Rightarrow> u8) \<Rightarrow> nat \<Rightarrow> u8 list \<Rightarrow> u32 \<times> (nat \<Rightarrow> u8)" where
  "flat_write cap f lba xs =
     (let n = flat_inside cap lba (length xs)
      in (of_nat (div_ceil n 512), store_bytes f (lba * 512) (take n xs)))"

lemma length_bytes_at [simp]: "length (bytes_at f a n) = n"
  by (simp add: bytes_at_def)

lemma nth_bytes_at [simp]: "i < n \<Longrightarrow> bytes_at f a n ! i = f (a + i)"
  by (simp add: bytes_at_def)

lemma bytes_at_0 [simp]: "bytes_at f a 0 = []"
  by (simp add: bytes_at_def)

lemma bytes_at_append: "bytes_at f a (m + n) = bytes_at f a m @ bytes_at f (a + m) n"
  by (rule nth_equalityI) (auto simp: nth_append)

lemma take_bytes_at: "take k (bytes_at f a n) = bytes_at f a (min k n)"
  and drop_bytes_at: "drop k (bytes_at f a n) = bytes_at f (a + k) (n - k)"
  by (auto intro!: nth_equalityI simp: add.assoc)

lemma bytes_at_cong: "(\<And>i. a \<le> i \<Longrightarrow> i < a + n \<Longrightarrow> f i = g i) \<Longrightarrow> bytes_at f a n = bytes_at g a n"
  by (simp add: bytes_at_def)

lemma bytes_at_shift: "bytes_at (\<lambda>i. f (b + i)) a n = bytes_at f (b + a) n"
  by (rule nth_equalityI) (auto simp: add.assoc)

lemma store_bytes_Nil [simp]: "store_bytes f a [] = f"
  by (auto simp: store_bytes_def fun_eq_iff)

lemma store_bytes_append:
  "store_bytes f a (xs @ ys) = store_bytes (store_bytes f a xs) (a + length xs) ys"
  by (auto simp: store_bytes_def fun_eq_iff nth_append)

lemma store_bytes_shift:
  "store_bytes f (b + a) xs (b + i) = store_bytes (\<lambda>i. f (b + i)) a xs i"
  by (auto simp: store_bytes_def)

lemma bytes_at_store: "bytes_at (store_bytes f a xs) a (length xs) = xs"
  by (rule nth_equalityI) (auto simp: store_bytes_def)

lemma bytes_at_store_other:
  "a + length xs \<le> b \<or> b + n \<le> a \<Longrightarrow> bytes_at (store_bytes f a xs) b n = bytes_at f b n"
  by (rule bytes_at_cong) (auto simp: store_bytes_def)

lemma flat_inside_range:
  assumes "flat_inside cap lba len \<noteq> 0"
  shows "lba < cap" "lba * 512 + flat_inside cap lba len \<le> cap * 512"
proof -
  from assms show "lba < cap" by (cases "lba < cap") (auto simp: flat_inside_def)
  then have "(cap - lba) * 512 + lba * 512 = cap * 512"
    by (simp add: add_mult_distrib [symmetric])
  then show "lba * 512 + flat_inside cap lba len \<le> cap * 512"
    by (simp add: flat_inside_def)
qed

lemma flat_inside_le [simp]: "flat_inside cap lba len \<le> len"
  by (simp add: flat_inside_def)

section \<open>The contract\<close>

text \<open>
  \<open>bytes\<close> reads the contents of a device state, \<open>ok\<close> says which buffer lengths the device serves:
  a device may insist on whole sectors.  No buffer exceeds \<open>isize::MAX\<close> bytes, a guarantee of the
  language.  The laws speak of accesses inside the capacity; a volume is what keeps them there.
\<close>

locale disk_reader =
  fixes D :: "'d disk_ops" and inv :: "'d \<Rightarrow> bool"
    and bytes :: "'d \<Rightarrow> nat \<Rightarrow> u8" and ok :: "nat \<Rightarrow> bool"
  assumes capacity: "inv d \<Longrightarrow> unat (disk_sectors D d) * 512 < 2 ^ 64"
    and ok_sectors: "ok (n * 512)"
    and read_inside:
      "inv d \<Longrightarrow> ok (length buf) \<Longrightarrow> length buf < 2 ^ 31 \<Longrightarrow>
       unat lba * 512 + length buf \<le> unat (disk_sectors D d) * 512 \<Longrightarrow>
       \<exists>d'. disk_read D d lba buf =
              Some (of_nat (div_ceil (length buf) 512), bytes_at (bytes d) (unat lba * 512) (length buf), d')
            \<and> inv d' \<and> bytes d' = bytes d \<and> disk_sectors D d' = disk_sectors D d"

locale disk_writer = disk_reader +
  assumes write_inside:
      "inv d \<Longrightarrow> length buf < 2 ^ 31 \<Longrightarrow>
       unat lba * 512 + length buf \<le> unat (disk_sectors D d) * 512 \<Longrightarrow>
       \<exists>d'. disk_write D d lba buf = Some (of_nat (div_ceil (length buf) 512), d')
            \<and> inv d' \<and> bytes d' = store_bytes (bytes d) (unat lba * 512) buf
            \<and> disk_sectors D d' = disk_sectors D d"

section \<open>Volumes meet the contract\<close>

text \<open>A volume lies on its disk when its extent is inside the capacity.\<close>

definition volume_on :: "'d disk_ops \<Rightarrow> 'd \<Rightarrow> volume \<Rightarrow> bool" where
  "volume_on D d v \<longleftrightarrow> unat (vol_start v) + unat (vol_sectors v) \<le> unat (disk_sectors D d)"

definition volume_bytes :: "('d \<Rightarrow> nat \<Rightarrow> u8) \<Rightarrow> volume \<Rightarrow> 'd \<Rightarrow> nat \<Rightarrow> u8" where
  "volume_bytes bytes v d = (\<lambda>i. bytes d (unat (vol_start v) * 512 + i))"

lemma volume_whole_on [simp]: "volume_on D d (volume_whole D d)"
  by (simp add: volume_on_def volume_whole_def)

lemma volume_new_on:
  "start \<le> disk_sectors D d \<Longrightarrow> volume_on D d (volume_new D d start sectors)"
  by (auto simp: volume_on_def volume_new_def min_def word_le_nat_alt unat_saturating_sub)

lemma volume_new_beyond:
  "disk_sectors D d \<le> start \<Longrightarrow> vol_sectors (volume_new D d start sectors) = 0"
  by (simp add: volume_new_def saturating_sub_def)

lemma div_ceil_bound: "len < 2 ^ 31 \<Longrightarrow> div_ceil len 512 \<le> 2 ^ 22"
  using div_ceil_le_iff [of 512 len "2 ^ 22"] by simp

lemma volume_clamp_eq:
  assumes "len < 2 ^ 31"
  shows "volume_clamp v lba len = flat_inside (unat (vol_sectors v)) (unat lba) len"
proof -
  define want where "want = div_ceil len 512"
  define avail where "avail = min (saturating_sub (vol_sectors v) lba) (of_nat want)"
  have want: "want \<le> 2 ^ 22" "len \<le> want * 512"
    using assms div_ceil_bound div_ceil_covers [of 512 len] by (auto simp: want_def)
  then have "unat avail = min (unat (vol_sectors v) - unat lba) want"
    by (simp add: avail_def min_def word_le_nat_alt unat_saturating_sub unat_of_nat_small)
  moreover from this want have "unat avail * 512 \<le> 2 ^ 31"
    by simp
  then have "unat (ucast (avail * 512) :: usize) = unat avail * 512"
    by (simp add: unat_word_ariths unsigned_ucast_eq take_bit_eq_mod)
  ultimately show ?thesis
    using want(2) by (simp add: volume_clamp_def flat_inside_def Let_def avail_def [symmetric] want_def [symmetric])
qed

text \<open>What a volume access does, on every branch, from the contract of the disk below.\<close>

context disk_reader
begin

lemma volume_read_flat:
  assumes "inv d" and "volume_on D d v" and len: "length buf < 2 ^ 31"
    and "ok (volume_clamp v lba (length buf))"
  shows "\<exists>d'. volume_read D v d lba buf =
           Some (fst (flat_read (unat (vol_sectors v)) (volume_bytes bytes v d) (unat lba) (length buf)),
                 snd (flat_read (unat (vol_sectors v)) (volume_bytes bytes v d) (unat lba) (length buf)), d')
         \<and> inv d' \<and> bytes d' = bytes d \<and> disk_sectors D d' = disk_sectors D d"
proof -
  let ?cap = "unat (vol_sectors v)" and ?f = "volume_bytes bytes v d"
  let ?n = "volume_clamp v lba (length buf)"
  have n: "?n = flat_inside ?cap (unat lba) (length buf)"
    by (rule volume_clamp_eq [OF len])
  then have le: "?n \<le> length buf" by (simp add: flat_inside_def)
  let ?z = "\<lambda>i. if i < ?cap * 512 then ?f i else 0"
  have split: "bytes_at ?z (unat lba * 512) (length buf) =
      bytes_at ?z (unat lba * 512) ?n @ replicate (length buf - ?n) 0"
  proof (rule nth_equalityI)
    fix i assume "i < length (bytes_at ?z (unat lba * 512) (length buf))"
    then show "bytes_at ?z (unat lba * 512) (length buf) ! i =
        (bytes_at ?z (unat lba * 512) ?n @ replicate (length buf - ?n) 0) ! i"
      by (auto simp: nth_append n flat_inside_def)
  qed (use le in simp)
  show ?thesis
  proof (cases "?n = 0")
    case True
    then show ?thesis
      using assms split
      by (simp add: volume_read_def flat_read_def Let_def n [symmetric] div_ceil_def)
  next
    case False
    with n have inside: "unat lba * 512 + ?n \<le> ?cap * 512"
      using flat_inside_range(2) [of ?cap "unat lba" "length buf"] by simp
    have bound: "unat (vol_start v) + unat lba < 2 ^ 64"
    proof -
      have "unat lba < ?cap" using False n flat_inside_range(1) [of ?cap "unat lba" "length buf"] by simp
      then show ?thesis
        using assms(2) unat_u64_less [of "disk_sectors D d"] by (simp add: volume_on_def)
    qed
    then have lba: "unat (vol_start v + lba) = unat (vol_start v) + unat lba"
      by (simp add: unat_word_ariths)
    obtain d' where d': "disk_read D d (vol_start v + lba) (take ?n buf) =
        Some (of_nat (div_ceil ?n 512), bytes_at (bytes d) (unat (vol_start v + lba) * 512) ?n, d')"
      "inv d' \<and> bytes d' = bytes d \<and> disk_sectors D d' = disk_sectors D d"
      using read_inside [OF assms(1), of "take ?n buf" "vol_start v + lba"] assms le inside
      by (auto simp: lba volume_on_def)
    have "bytes_at ?z (unat lba * 512) ?n = bytes_at (bytes d) (unat (vol_start v + lba) * 512) ?n"
      using inside by (intro nth_equalityI) (auto simp: lba volume_bytes_def add_mult_distrib add.assoc)
    then show ?thesis
      using False d' le split by (auto simp: volume_read_def flat_read_def Let_def n [symmetric])
  qed
qed

lemma volume_disk_reader:
  "disk_reader (volume_disk v D) (\<lambda>d. inv d \<and> volume_on D d v) (volume_bytes bytes v) ok"
proof unfold_locales
  fix d assume d: "inv d \<and> volume_on D d v"
  then show "unat (disk_sectors (volume_disk v D) d) * 512 < 2 ^ 64"
    using capacity [of d] by (auto simp: volume_disk_def volume_on_def)
  fix buf :: "u8 list" and lba :: u64
  let ?n = "length buf" and ?cap = "unat (vol_sectors v)"
  assume len: "ok ?n" "?n < 2 ^ 31"
    and range: "unat lba * 512 + ?n \<le> unat (disk_sectors (volume_disk v D) d) * 512"
  then have n: "flat_inside ?cap (unat lba) ?n = ?n"
    by (auto simp: volume_disk_def flat_inside_def)
  obtain d' where "volume_read D v d lba buf =
      Some (fst (flat_read ?cap (volume_bytes bytes v d) (unat lba) ?n),
            snd (flat_read ?cap (volume_bytes bytes v d) (unat lba) ?n), d')"
    "inv d' \<and> bytes d' = bytes d \<and> disk_sectors D d' = disk_sectors D d"
    using volume_read_flat [of d v buf lba] d len volume_clamp_eq [OF len(2), of v lba] n by auto
  moreover have "flat_read ?cap (volume_bytes bytes v d) (unat lba) ?n =
      (of_nat (div_ceil ?n 512), bytes_at (volume_bytes bytes v d) (unat lba * 512) ?n)"
    using range by (auto simp: flat_read_def n volume_disk_def intro!: bytes_at_cong)
  ultimately show "\<exists>d'. disk_read (volume_disk v D) d lba buf =
      Some (of_nat (div_ceil ?n 512), bytes_at (volume_bytes bytes v d) (unat lba * 512) ?n, d') \<and>
      (inv d' \<and> volume_on D d' v) \<and> volume_bytes bytes v d' = volume_bytes bytes v d \<and>
      disk_sectors (volume_disk v D) d' = disk_sectors (volume_disk v D) d"
    using d by (auto simp: volume_disk_def volume_on_def volume_bytes_def)
qed (rule ok_sectors)

end

context disk_writer
begin

lemma volume_write_flat:
  assumes "inv d" and "volume_on D d v" and len: "length buf < 2 ^ 31"
  shows "\<exists>d'. volume_write D v d lba buf =
           Some (fst (flat_write (unat (vol_sectors v)) (volume_bytes bytes v d) (unat lba) buf), d')
         \<and> inv d' \<and> disk_sectors D d' = disk_sectors D d
         \<and> bytes d' = store_bytes (bytes d) ((unat (vol_start v) + unat lba) * 512)
                        (take (volume_clamp v lba (length buf)) buf)
         \<and> volume_bytes bytes v d' =
             snd (flat_write (unat (vol_sectors v)) (volume_bytes bytes v d) (unat lba) buf)"
proof (cases "volume_clamp v lba (length buf) = 0")
  case True
  then show ?thesis
    using assms volume_clamp_eq [OF len, of v lba]
    by (simp add: volume_write_def flat_write_def Let_def div_ceil_def)
next
  case False
  let ?cap = "unat (vol_sectors v)" and ?n = "volume_clamp v lba (length buf)"
  have n: "?n = flat_inside ?cap (unat lba) (length buf)"
    by (rule volume_clamp_eq [OF len])
  with False have inside: "unat lba * 512 + ?n \<le> ?cap * 512" "unat lba < ?cap" "?n \<le> length buf"
    using flat_inside_range [of ?cap "unat lba" "length buf"] by simp_all
  then have lba: "unat (vol_start v + lba) = unat (vol_start v) + unat lba"
    using assms(2) unat_u64_less [of "disk_sectors D d"] by (simp add: volume_on_def unat_word_ariths)
  obtain d' where d': "disk_write D d (vol_start v + lba) (take ?n buf) = Some (of_nat (div_ceil ?n 512), d')"
    "inv d'" "disk_sectors D d' = disk_sectors D d"
    "bytes d' = store_bytes (bytes d) ((unat (vol_start v) + unat lba) * 512) (take ?n buf)"
    using write_inside [OF assms(1), of "take ?n buf" "vol_start v + lba"] assms inside
    by (auto simp: lba volume_on_def)
  then have "volume_bytes bytes v d' = store_bytes (volume_bytes bytes v d) (unat lba * 512) (take ?n buf)"
    by (intro ext) (simp add: volume_bytes_def add_mult_distrib store_bytes_shift)
  then show ?thesis
    using False d' by (auto simp: volume_write_def flat_write_def Let_def n [symmetric])
qed

lemma volume_disk_writer:
  "disk_writer (volume_disk v D) (\<lambda>d. inv d \<and> volume_on D d v) (volume_bytes bytes v) ok"
proof (intro disk_writer.intro volume_disk_reader disk_writer_axioms.intro)
  fix d and lba :: u64 and buf :: "u8 list"
  let ?n = "length buf" and ?cap = "unat (vol_sectors v)"
  assume d: "inv d \<and> volume_on D d v" and len: "?n < 2 ^ 31"
    and range: "unat lba * 512 + ?n \<le> unat (disk_sectors (volume_disk v D) d) * 512"
  then have n: "flat_inside ?cap (unat lba) ?n = ?n"
    by (auto simp: volume_disk_def flat_inside_def)
  show "\<exists>d'. disk_write (volume_disk v D) d lba buf = Some (of_nat (div_ceil ?n 512), d') \<and>
      (inv d' \<and> volume_on D d' v) \<and>
      volume_bytes bytes v d' = store_bytes (volume_bytes bytes v d) (unat lba * 512) buf \<and>
      disk_sectors (volume_disk v D) d' = disk_sectors (volume_disk v D) d"
    using volume_write_flat [of d v buf lba] d len n
    by (auto simp: volume_disk_def volume_on_def flat_write_def Let_def)
qed

text \<open>Volumes whose extents do not overlap are isolated from each other.\<close>

lemma volume_write_isolated:
  assumes "inv d" "volume_on D d v" "volume_on D d w" "length buf < 2 ^ 31"
    and "unat (vol_start v) + unat (vol_sectors v) \<le> unat (vol_start w) \<or>
         unat (vol_start w) + unat (vol_sectors w) \<le> unat (vol_start v)"
    and "volume_write D v d lba buf = Some (k, d')" and "i < unat (vol_sectors w) * 512"
  shows "volume_bytes bytes w d' i = volume_bytes bytes w d i"
proof -
  let ?n = "volume_clamp v lba (length buf)"
  have d': "bytes d' = store_bytes (bytes d) ((unat (vol_start v) + unat lba) * 512) (take ?n buf)"
    using volume_write_flat [OF assms(1,2,4), of lba] assms(6) by auto
  have "?n = 0 \<or> unat lba * 512 + ?n \<le> unat (vol_sectors v) * 512"
    using volume_clamp_eq [OF assms(4), of v lba] flat_inside_range(2) by metis
  moreover have "length (take ?n buf) = ?n"
    using volume_clamp_eq [OF assms(4), of v lba] by simp
  ultimately show ?thesis
    using assms(5,7) by (auto simp: volume_bytes_def d' store_bytes_def)
qed

end

section \<open>Sequences of volume accesses\<close>

text \<open>
  Accesses of a filesystem: reads into a given buffer and writes.  The outcome of each is the sector
  count it returned and, for a read, the buffer after it.
\<close>

datatype vol_op = VRead u64 "u8 list" | VWrite u64 "u8 list"
datatype vol_out = ReadOut u32 "u8 list" | WriteOut u32

fun vol_op_short :: "vol_op \<Rightarrow> bool" where
  "vol_op_short (VRead _ buf) = (length buf < 2 ^ 31)" |
  "vol_op_short (VWrite _ buf) = (length buf < 2 ^ 31)"

fun run_volume :: "'d disk_ops \<Rightarrow> volume \<Rightarrow> 'd \<Rightarrow> vol_op list \<Rightarrow> (vol_out list \<times> 'd) option" where
  "run_volume D v d [] = Some ([], d)" |
  "run_volume D v d (VRead lba buf # ops) =
     (case volume_read D v d lba buf of
        None \<Rightarrow> None
      | Some (n, buf, d) \<Rightarrow> map_option (\<lambda>(outs, d). (ReadOut n buf # outs, d)) (run_volume D v d ops))" |
  "run_volume D v d (VWrite lba buf # ops) =
     (case volume_write D v d lba buf of
        None \<Rightarrow> None
      | Some (n, d) \<Rightarrow> map_option (\<lambda>(outs, d). (WriteOut n # outs, d)) (run_volume D v d ops))"

text \<open>The same accesses to the flat array of bytes.\<close>

fun run_flat :: "nat \<Rightarrow> (nat \<Rightarrow> u8) \<Rightarrow> vol_op list \<Rightarrow> vol_out list \<times> (nat \<Rightarrow> u8)" where
  "run_flat cap f [] = ([], f)" |
  "run_flat cap f (VRead lba buf # ops) =
     (case flat_read cap f (unat lba) (length buf) of
        (n, buf) \<Rightarrow> case run_flat cap f ops of (outs, g) \<Rightarrow> (ReadOut n buf # outs, g))" |
  "run_flat cap f (VWrite lba buf # ops) =
     (case flat_write cap f (unat lba) buf of
        (n, f) \<Rightarrow> case run_flat cap f ops of (outs, g) \<Rightarrow> (WriteOut n # outs, g))"

context disk_writer
begin

lemma run_volume_flat:
  assumes "\<And>n. ok n" "inv d" "volume_on D d v" "list_all vol_op_short ops"
  shows "\<exists>d'. run_volume D v d ops =
           Some (fst (run_flat (unat (vol_sectors v)) (volume_bytes bytes v d) ops), d')
         \<and> inv d' \<and> volume_on D d' v
         \<and> volume_bytes bytes v d' = snd (run_flat (unat (vol_sectors v)) (volume_bytes bytes v d) ops)"
  using assms(2-4)
proof (induction ops arbitrary: d)
  case (Cons op ops)
  let ?cap = "unat (vol_sectors v)"
  show ?case
  proof (cases op)
    case (VRead lba buf)
    let ?r = "flat_read ?cap (volume_bytes bytes v d) (unat lba) (length buf)"
    obtain d1 where d1: "volume_read D v d lba buf = Some (fst ?r, snd ?r, d1)" "inv d1"
      "bytes d1 = bytes d" "disk_sectors D d1 = disk_sectors D d"
      using volume_read_flat [OF Cons.prems(1,2), of buf lba] assms(1) Cons.prems(3) VRead by auto
    then have "volume_on D d1 v" "volume_bytes bytes v d1 = volume_bytes bytes v d"
      using Cons.prems(2) by (simp_all add: volume_on_def volume_bytes_def)
    then show ?thesis
      using Cons.IH [OF d1(2)] Cons.prems(3) d1(1) by (auto simp: VRead split: prod.splits)
  next
    case (VWrite lba buf)
    let ?w = "flat_write ?cap (volume_bytes bytes v d) (unat lba) buf"
    obtain d1 where d1: "volume_write D v d lba buf = Some (fst ?w, d1)" "inv d1"
      "disk_sectors D d1 = disk_sectors D d" "volume_bytes bytes v d1 = snd ?w"
      using volume_write_flat [OF Cons.prems(1,2), of buf lba] Cons.prems(3) VWrite by auto
    then have "volume_on D d1 v"
      using Cons.prems(2) by (simp add: volume_on_def)
    then show ?thesis
      using Cons.IH [OF d1(2)] Cons.prems(3) d1(1,4) by (auto simp: VWrite split: prod.splits)
  qed
qed simp

end

end
