(* ===== verification/Multiboot.thy ===== *)
theory Multiboot
  imports Cmdline Block
begin

text \<open>
  The boot-module transport of \<^verbatim>\<open>kernel/src/multiboot.rs\<close>: parsing a module's mount command,
  accepting the loader's modules, reserving and handing them off, and the read-only disk over a
  module's physical range.  A failed assertion is \<open>None\<close>.  The descriptor and command readers and
  the physical-memory reader belong to the architecture layer and are arguments.
\<close>

section \<open>Mount commands\<close>

definition BOOT_MODULE_MOUNT_MAX :: nat where "BOOT_MODULE_MOUNT_MAX = 128"
definition MAX_BOOT_MODULES :: nat where "MAX_BOOT_MODULES = 4"

record parsed_mount =
  pm_bytes :: "u8 list"
  pm_len :: nat

definition is_ascii_alphanumeric :: "u8 \<Rightarrow> bool" where
  "is_ascii_alphanumeric b \<longleftrightarrow>
     0x30 \<le> b \<and> b \<le> 0x39 \<or> 0x41 \<le> b \<and> b \<le> 0x5A \<or> 0x61 \<le> b \<and> b \<le> 0x7A"

definition mount_char :: "u8 \<Rightarrow> bool" where
  "mount_char b \<longleftrightarrow> is_ascii_alphanumeric b \<or> b = 0x2E \<or> b = 0x5F \<or> b = 0x2D"

text \<open>The inner loop: one path component into the buffer.\<close>
fun copy_component :: "u8 list \<Rightarrow> u8 list \<Rightarrow> nat \<Rightarrow> (u8 list \<times> nat) option" where
  "copy_component [] out len = Some (out, len)" |
  "copy_component (b # rest) out len =
     (if \<not> mount_char b then None
      else if \<not> len + 1 < length out then None
      else copy_component rest (out[len := b]) (len + 1))"

fun copy_components :: "u8 list list \<Rightarrow> u8 list \<Rightarrow> nat \<Rightarrow> (u8 list \<times> nat) option" where
  "copy_components [] out len = Some (out, len)" |
  "copy_components (c # rest) out len =
     (if c = [] then None
      else if c = [0x2E] \<or> c = [0x2E, 0x2E] then None
      else case copy_component c out len of
             None \<Rightarrow> None
           | Some (out, len) \<Rightarrow>
               if \<not> len < length out then None
               else copy_components rest (out[len := 0x2F]) (len + 1))"

text \<open>The outer \<open>option\<close> is the panic, the inner one the function's own result.\<close>
definition parse_mount :: "u8 list \<Rightarrow> parsed_mount option option" where
  "parse_mount command =
     (case parse_key_value command of
        None \<Rightarrow> Some None
      | Some (key, path) \<Rightarrow>
          if \<not> key_eq key (bytes_of ''retroos.mount'') then Some None
          else if path = [] then None
          else if path ! 0 \<noteq> 0x2F then None
          else if 0x20 \<in> set path then None
          else let out = replicate BOOT_MODULE_MOUNT_MAX 0;
                   path = drop 1 path
               in if path = [] then Some (Some \<lparr>pm_bytes = out, pm_len = 0\<rparr>)
                  else if last path = 0x2F then None
                  else case copy_components (split_by (\<lambda>b. b = 0x2F) path) out 0 of
                         None \<Rightarrow> None
                       | Some (out, len) \<Rightarrow> Some (Some \<lparr>pm_bytes = out, pm_len = len\<rparr>))"

section \<open>Accepting modules\<close>

record accepted_module =
  am_start :: u64
  am_len :: usize
  am_mount :: "u8 list"
  am_mount_len :: nat

definition MULTIBOOT_INFO_MODULES :: u32 where "MULTIBOOT_INFO_MODULES = 8"

text \<open>
  One round of the loop over the descriptors.  \<open>read_command\<close> is the architecture's copy of the
  module string into a 256-byte buffer and the length it reports.
\<close>
definition accept_module ::
  "(u32 \<Rightarrow> (u8 list \<times> nat) option) \<Rightarrow> u32 \<times> u32 \<times> u32 \<times> u32 \<Rightarrow>
   accepted_module option list \<Rightarrow> accepted_module option list option" where
  "accept_module read_command words accepted =
     (case words of (mod_start, mod_end, str, reserved) \<Rightarrow>
        if str = 0 then Some accepted
        else case read_command str of
          None \<Rightarrow> Some accepted
        | Some (command, len_command) \<Rightarrow>
            if 256 < len_command then None
            else case parse_mount (take len_command command) of
              None \<Rightarrow> None
            | Some None \<Rightarrow> Some accepted
            | Some (Some mount) \<Rightarrow>
                if \<not> mod_start < mod_end then None
                else let len = mod_end - mod_start in
                  if \<not> (len \<noteq> 0 \<and> len mod 512 = 0) then None
                  else if \<exists>prior\<in>set (List.map_filter id accepted).
                            take (am_mount_len prior) (am_mount prior) = take (pm_len mount) (pm_bytes mount)
                  then None
                  else case find_index (\<lambda>a. a = None) accepted of
                         None \<Rightarrow> None
                       | Some slot \<Rightarrow>
                           Some (accepted[slot := Some \<lparr>am_start = ucast mod_start, am_len = len,
                                   am_mount = pm_bytes mount, am_mount_len = pm_len mount\<rparr>]))"

fun capture_loop ::
  "(nat \<Rightarrow> u32 \<times> u32 \<times> u32 \<times> u32) \<Rightarrow> (u32 \<Rightarrow> (u8 list \<times> nat) option) \<Rightarrow> nat list \<Rightarrow>
   accepted_module option list \<Rightarrow> accepted_module option list option" where
  "capture_loop read_descriptor read_command [] accepted = Some accepted" |
  "capture_loop read_descriptor read_command (index # rest) accepted =
     (case accept_module read_command (read_descriptor index) accepted of
        None \<Rightarrow> None
      | Some accepted \<Rightarrow> capture_loop read_descriptor read_command rest accepted)"

definition capture_modules ::
  "u32 \<Rightarrow> u32 \<Rightarrow> u32 \<Rightarrow> (nat \<Rightarrow> u32 \<times> u32 \<times> u32 \<times> u32) \<Rightarrow> (u32 \<Rightarrow> (u8 list \<times> nat) option) \<Rightarrow>
   accepted_module option list option" where
  "capture_modules flags mods_count mods_addr read_descriptor read_command =
     (let accepted = replicate MAX_BOOT_MODULES None
      in if flags AND MULTIBOOT_INFO_MODULES = 0 \<or> mods_addr = 0 then Some accepted
         else capture_loop read_descriptor read_command [0..<min (unat mods_count) 32] accepted)"

text \<open>The page ranges \<^verbatim>\<open>reserve_modules\<close> passes to its callback, in order.\<close>
definition reserve_modules :: "accepted_module option list \<Rightarrow> (u64 \<times> u64) list" where
  "reserve_modules modules =
     map (\<lambda>m. (am_start m div 4096,
                of_nat (div_ceil (unat (am_start m + ucast (am_len m))) 4096)))
       (List.map_filter id modules)"

record boot_module =
  bm_physical_start :: u64
  bm_len :: usize
  bm_mount_bytes :: "u8 list"
  bm_mount_len :: nat

definition handoff_modules :: "accepted_module option list \<Rightarrow> boot_module option list" where
  "handoff_modules modules =
     map (map_option (\<lambda>m. \<lparr>bm_physical_start = am_start m, bm_len = am_len m,
                            bm_mount_bytes = am_mount m, bm_mount_len = am_mount_len m\<rparr>)) modules"

definition bm_mount :: "boot_module \<Rightarrow> u8 list" where
  "bm_mount m = take (bm_mount_len m) (bm_mount_bytes m)"

section \<open>The module disk\<close>

record module_disk_state =
  md_physical_start :: u64
  md_len :: usize
  md_read_physical :: "u64 \<Rightarrow> nat \<Rightarrow> u8 list option"

definition from_boot_module :: "boot_module \<Rightarrow> (u64 \<Rightarrow> nat \<Rightarrow> u8 list option) \<Rightarrow> module_disk_state option" where
  "from_boot_module m read_physical =
     (if bm_len m = 0 \<or> bm_len m mod 512 \<noteq> 0 then None
      else Some \<lparr>md_physical_start = bm_physical_start m, md_len = bm_len m,
                 md_read_physical = read_physical\<rparr>)"

definition module_sectors :: "module_disk_state \<Rightarrow> u64" where
  "module_sectors m = ucast (md_len m div 512)"

definition module_read ::
  "module_disk_state \<Rightarrow> u64 \<Rightarrow> u8 list \<Rightarrow> (u32 \<times> u8 list \<times> module_disk_state) option" where
  "module_read m lba buf =
     (let want = of_nat (div_ceil (length buf) 512);
          n = min (saturating_sub (module_sectors m) lba) want;
          count = unat (ucast n * 512 :: usize)
      in if count = 0 then Some (ucast n, replicate (length buf) 0, m)
         else case checked_mul lba 512 of
                None \<Rightarrow> None
              | Some offset \<Rightarrow>
                  case checked_add (md_physical_start m) offset of
                    None \<Rightarrow> None
                  | Some physical \<Rightarrow>
                      if length buf < count then None
                      else case md_read_physical m physical count of
                             None \<Rightarrow> None
                           | Some data \<Rightarrow> Some (ucast n, data @ replicate (length buf - count) 0, m))"

definition module_disk :: "module_disk_state disk_ops" where
  "module_disk =
     \<lparr>disk_read = module_read, disk_write = (\<lambda>m _ _. Some (0, m)),
      disk_sectors = module_sectors, disk_name = (\<lambda>_. ''multiboot-module'')\<rparr>"

section \<open>What a parsed mount path looks like\<close>

text \<open>
  A normalised mount path: a sequence of components, each followed by a slash; the root is the
  empty path.
\<close>

definition component_ok :: "u8 list \<Rightarrow> bool" where
  "component_ok c \<longleftrightarrow> c \<noteq> [] \<and> c \<noteq> [0x2E] \<and> c \<noteq> [0x2E, 0x2E] \<and> list_all mount_char c"

definition join_mount :: "u8 list list \<Rightarrow> u8 list" where
  "join_mount cs = concat (map (\<lambda>c. c @ [0x2F]) cs)"

declare take_Suc_update [simp]

lemma copy_component_Some:
  "copy_component c out len = Some (out', len') \<Longrightarrow> len \<le> length out \<Longrightarrow>
   len' = len + length c \<and> length out' = length out \<and> len' \<le> length out \<and>
   take len' out' = take len out @ c \<and> list_all mount_char c"
proof (induction c arbitrary: out len)
  case (Cons b c)
  then have len: "len + 1 < length out" and "mount_char b"
    and rest: "copy_component c (out[len := b]) (len + 1) = Some (out', len')"
    by (auto split: if_splits)
  from Cons.IH [OF rest] len \<open>mount_char b\<close> show ?case
    by auto
qed simp

lemma copy_components_Some:
  "copy_components cs out len = Some (out', len') \<Longrightarrow> len \<le> length out \<Longrightarrow>
   length out' = length out \<and> len' \<le> length out \<and>
   take len' out' = take len out @ join_mount cs \<and> list_all component_ok cs"
proof (induction cs arbitrary: out len)
  case Nil
  then show ?case by (simp add: join_mount_def)
next
  case (Cons c cs)
  then obtain out1 len1 where c: "copy_component c out len = Some (out1, len1)"
    and cond: "c \<noteq> []" "c \<noteq> [0x2E]" "c \<noteq> [0x2E, 0x2E]" "len1 < length out1"
    and rest: "copy_components cs (out1[len1 := 0x2F]) (len1 + 1) = Some (out', len')"
    by (auto split: if_splits option.splits)
  from copy_component_Some [OF c Cons.prems(2)] Cons.IH [OF rest] cond
  show ?case by (auto simp: join_mount_def component_ok_def)
qed

definition mount_ok :: "u8 list \<Rightarrow> bool" where
  "mount_ok p \<longleftrightarrow> (\<exists>cs. p = join_mount cs \<and> list_all component_ok cs)"

lemma mount_okI: "list_all component_ok cs \<Longrightarrow> mount_ok (join_mount cs)"
  by (auto simp: mount_ok_def)

lemma mount_ok_Nil [simp]: "mount_ok []"
  using mount_okI [of "[]"] by (simp add: join_mount_def)

lemma parse_mount_ok:
  assumes "parse_mount command = Some (Some pm)"
  shows "mount_ok (take (pm_len pm) (pm_bytes pm))" "length (pm_bytes pm) = BOOT_MODULE_MOUNT_MAX"
    "pm_len pm \<le> BOOT_MODULE_MOUNT_MAX"
  using assms
  by (auto simp: parse_mount_def Let_def mount_okI split: option.splits if_splits
           dest!: copy_components_Some)

section \<open>The accepted modules\<close>

definition am_path :: "accepted_module \<Rightarrow> u8 list" where
  "am_path m = take (am_mount_len m) (am_mount m)"

definition accepted_ok :: "accepted_module \<Rightarrow> bool" where
  "accepted_ok m \<longleftrightarrow> am_len m \<noteq> 0 \<and> am_len m mod 512 = 0 \<and>
     unat (am_start m) + unat (am_len m) < 2 ^ 32 \<and> mount_ok (am_path m) \<and>
     length (am_mount m) = BOOT_MODULE_MOUNT_MAX \<and> am_mount_len m \<le> BOOT_MODULE_MOUNT_MAX"

abbreviation present :: "'a option list \<Rightarrow> 'a list" where
  "present \<equiv> List.map_filter id"

definition captured_ok :: "accepted_module option list \<Rightarrow> bool" where
  "captured_ok acc \<longleftrightarrow> length acc = MAX_BOOT_MODULES \<and> list_all accepted_ok (present acc) \<and>
     distinct (map am_path (present acc))"

lemma present_simps [simp]:
  "present [] = []" "present (None # xs) = present xs" "present (Some x # xs) = x # present xs"
  "present (xs @ ys) = present xs @ present ys"
  by (simp_all add: List.map_filter_def)

lemma present_insert:
  assumes "acc ! i = None" "i < length acc"
  shows "\<exists>xs ys. present acc = xs @ ys \<and> present (acc[i := Some m]) = xs @ m # ys"
proof -
  have "acc = take i acc @ None # drop (Suc i) acc"
    using assms by (metis id_take_nth_drop)
  moreover have "acc[i := Some m] = take i acc @ Some m # drop (Suc i) acc"
    using assms by (simp add: upd_conv_take_nth_drop)
  ultimately show ?thesis
    by (metis present_simps(2-4))
qed

lemma captured_ok_insert:
  assumes "captured_ok acc" "find_index (\<lambda>a. a = None) acc = Some slot"
    and "accepted_ok m" "\<forall>p\<in>set (present acc). am_path p \<noteq> am_path m"
  shows "captured_ok (acc[slot := Some m])"
proof -
  obtain xs ys where "present acc = xs @ ys" "present (acc[slot := Some m]) = xs @ m # ys"
    using assms(2) present_insert [of acc slot m] by (auto simp: find_index_Some)
  with assms(1,3,4) show ?thesis
    by (auto simp: captured_ok_def)
qed

lemma accept_module_ok:
  assumes "captured_ok acc" "accept_module rc words acc = Some acc'"
  shows "captured_ok acc'"
proof -
  obtain s e t r where w: "words = (s, e, t, r)" by (cases words)
  show ?thesis
  proof (cases "acc' = acc")
    case False
    then obtain command n pm slot where *: "rc t = Some (command, n)"
      "parse_mount (take n command) = Some (Some pm)" "s < e" "e - s \<noteq> 0" "(e - s) mod 512 = 0"
      "\<forall>p\<in>set (present acc). am_path p \<noteq> take (pm_len pm) (pm_bytes pm)"
      "find_index (\<lambda>a. a = None) acc = Some slot"
      "acc' = acc[slot := Some \<lparr>am_start = ucast s, am_len = e - s,
                am_mount = pm_bytes pm, am_mount_len = pm_len pm\<rparr>]"
      using assms(2)
      by (auto simp: accept_module_def w Let_def am_path_def split: if_splits option.splits)
    have "unat (ucast s :: u64) + unat (e - s) < 2 ^ 32"
      using \<open>s < e\<close> unat_u32_less [of e]
      by (simp add: unat_sub word_less_nat_alt word_le_nat_alt unat_ucast_widen)
    with * parse_mount_ok [OF *(2)] show ?thesis
      unfolding *(8) by (intro captured_ok_insert [OF assms(1) *(7)]) (simp_all add: accepted_ok_def am_path_def)
  qed (use assms in simp)
qed

lemma capture_loop_ok:
  "captured_ok acc \<Longrightarrow> capture_loop rd rc is acc = Some acc' \<Longrightarrow> captured_ok acc'"
  by (induction "is" arbitrary: acc) (auto split: option.splits dest: accept_module_ok)

lemma captured_ok_empty [simp]: "captured_ok (replicate MAX_BOOT_MODULES None)"
  by (simp add: captured_ok_def List.map_filter_def)

lemma capture_modules_ok:
  "capture_modules flags n addr rd rc = Some acc \<Longrightarrow> captured_ok acc"
  by (auto simp: capture_modules_def Let_def split: if_splits elim!: capture_loop_ok [rotated])

section \<open>The module disk meets the contract of a readable disk\<close>

text \<open>
  What the kernel relies on of the physical reader: inside the module's range it succeeds and
  returns the bytes of memory, the same for overlapping reads.
\<close>

definition phys_byte :: "module_disk_state \<Rightarrow> nat \<Rightarrow> u8" where
  "phys_byte m a = hd (the (md_read_physical m (of_nat a) 1))"

definition module_inv :: "module_disk_state \<Rightarrow> bool" where
  "module_inv m \<longleftrightarrow> unat (md_physical_start m) + unat (md_len m) < 2 ^ 64 \<and>
     (\<forall>p n. unat (md_physical_start m) \<le> unat p \<and>
            unat p + n \<le> unat (md_physical_start m) + unat (md_len m) \<longrightarrow>
            md_read_physical m p n = Some (bytes_at (phys_byte m) (unat p) n))"

definition module_bytes :: "module_disk_state \<Rightarrow> nat \<Rightarrow> u8" where
  "module_bytes m i = phys_byte m (unat (md_physical_start m) + i)"

lemma unat_module_sectors: "unat (module_sectors m) = unat (md_len m) div 512"
  by (simp add: module_sectors_def unat_ucast_widen unat_div)

lemma module_read_inside:
  assumes "module_inv m" and k: "length buf = k * 512" "length buf < 2 ^ 31"
    and range: "unat lba * 512 + length buf \<le> unat (module_sectors m) * 512"
  shows "module_read m lba buf = Some (of_nat k, bytes_at (module_bytes m) (unat lba * 512) (length buf), m)"
proof -
  have ceil: "div_ceil (length buf) 512 = k" by (simp add: k div_ceil_def)
  have k22: "k < 2 ^ 22" using k by simp
  have lba: "unat lba + k \<le> unat (module_sectors m)" using range k(1) by simp
  define n where "n = min (saturating_sub (module_sectors m) lba) (of_nat k :: u64)"
  have n: "unat n = k"
    using k22 lba by (auto simp: n_def min_def word_le_nat_alt unat_saturating_sub unat_of_nat_small)
  then have n': "n = of_nat k" using k22 by (simp add: word_unat_eq_iff unat_of_nat_small)
  have un: "(ucast n :: u32) = of_nat k"
    using k22 by (simp add: word_unat_eq_iff unsigned_ucast_eq n take_bit_eq_mod unat_of_nat_small)
  have count: "unat (ucast n * 512 :: usize) = length buf"
    using k22 k by (simp add: un unat_word_ariths unat_of_nat_small)
  have in_len: "unat lba * 512 + length buf \<le> unat (md_len m)"
    using range by (simp add: unat_module_sectors)
  have mul: "checked_mul lba 512 = Some (lba * 512)" "unat (lba * 512) = unat lba * 512"
    using in_len unat_u32_less [of "md_len m"] by (auto simp: checked_mul_def unat_word_ariths)
  have phys: "unat (md_physical_start m) + unat (lba * 512) < 2 ^ 64"
    using assms(1) in_len mul by (simp add: module_inv_def)
  then have add: "checked_add (md_physical_start m) (lba * 512) = Some (md_physical_start m + lba * 512)"
    and uadd: "unat (md_physical_start m + lba * 512) = unat (md_physical_start m) + unat lba * 512"
    by (simp add: checked_add_def) (use phys in \<open>simp add: unat_add_lem [THEN iffD1] mul(2)\<close>)
  have "md_read_physical m (md_physical_start m + lba * 512) (length buf) =
      Some (bytes_at (phys_byte m) (unat (md_physical_start m) + unat lba * 512) (length buf))"
    using assms(1) in_len by (simp add: module_inv_def uadd)
  moreover have "bytes_at (phys_byte m) (unat (md_physical_start m) + unat lba * 512) (length buf) =
      bytes_at (module_bytes m) (unat lba * 512) (length buf)"
    by (simp add: module_bytes_def [abs_def] bytes_at_shift)
  ultimately show ?thesis
    unfolding module_read_def Let_def ceil n_def [symmetric] count
    by (simp add: mul add un)
qed

interpretation module: disk_reader module_disk module_inv module_bytes "\<lambda>n. n mod 512 = 0"
proof
  fix d assume "module_inv d"
  show "unat (disk_sectors module_disk d) * 512 < 2 ^ 64"
    using unat_u32_less [of "md_len d"] by (simp add: module_disk_def unat_module_sectors)
next
  fix d and buf :: "u8 list" and lba :: u64
  assume "module_inv d" "length buf mod 512 = 0" "length buf < 2 ^ 31"
    and "unat lba * 512 + length buf \<le> unat (disk_sectors module_disk d) * 512"
  moreover from this obtain k where "length buf = k * 512" by (metis mod_0_imp_dvd dvd_div_mult_self)
  moreover from this have "div_ceil (length buf) 512 = k" by (simp add: div_ceil_def)
  ultimately show "\<exists>d'. disk_read module_disk d lba buf =
      Some (of_nat (div_ceil (length buf) 512), bytes_at (module_bytes d) (unat lba * 512) (length buf), d') \<and>
      module_inv d' \<and> module_bytes d' = module_bytes d \<and>
      disk_sectors module_disk d' = disk_sectors module_disk d"
    using module_read_inside [of d buf k lba] by (simp add: module_disk_def)
qed simp

text \<open>A buffer that does not end on a sector boundary, inside the module, is not served: the slice panics.\<close>

lemma module_read_partial_sector:
  assumes "length buf mod 512 \<noteq> 0" "length buf < 2 ^ 31" "lba < module_sectors m"
    and "unat lba * 512 + length buf \<le> unat (module_sectors m) * 512"
  shows "module_read m lba buf = None"
proof -
  define want where "want = div_ceil (length buf) 512"
  define n where "n = min (saturating_sub (module_sectors m) lba) (of_nat want :: u64)"
  have w: "want \<le> 2 ^ 22" "length buf < want * 512" "want \<le> unat (module_sectors m) - unat lba"
  proof -
    show "want \<le> 2 ^ 22" using assms(2) div_ceil_bound by (simp add: want_def)
    have "length buf \<le> want * 512" using div_ceil_covers [of 512 "length buf"] by (simp add: want_def)
    moreover have "length buf \<noteq> want * 512" using assms(1) by auto
    ultimately show "length buf < want * 512" by simp
    show "want \<le> unat (module_sectors m) - unat lba"
      using assms(3,4) by (simp add: want_def div_ceil_le_iff diff_mult_distrib)
  qed
  then have n: "unat n = want"
    by (simp add: n_def min_def word_le_nat_alt unat_saturating_sub unat_of_nat_small)
  have "unat (ucast n * 512 :: usize) = want * 512"
    using w(1) by (simp add: unat_word_ariths unsigned_ucast_eq take_bit_eq_mod n)
  with w show ?thesis
    unfolding module_read_def Let_def want_def [symmetric] n_def [symmetric]
    by (auto split: option.splits)
qed

section \<open>Property\<close>

text \<open>
  C22.  The type of an accepted boot module: whatever descriptors and command strings the loader
  supplies, capturing either stops or yields at most four modules, with non-empty ranges of whole
  sectors below 4 GiB and normalised, pairwise different mount paths.  Each one handed off makes a
  disk, with at least one sector, and no disk has an unparsed path.
\<close>

theorem captured_modules_ok:
  assumes "capture_modules flags n addr rd rc = Some mods"
  shows "length mods = MAX_BOOT_MODULES \<and>
    distinct (map bm_mount (present (handoff_modules mods))) \<and>
    (\<forall>m \<in> set (present (handoff_modules mods)).
       mount_ok (bm_mount m) \<and> unat (bm_physical_start m) + unat (bm_len m) < 2 ^ 32 \<and>
       (\<exists>d. from_boot_module m r = Some d \<and> 0 < module_sectors d))"
proof -
  let ?h = "\<lambda>m. \<lparr>bm_physical_start = am_start m, bm_len = am_len m,
                bm_mount_bytes = am_mount m, bm_mount_len = am_mount_len m\<rparr>"
  have ok: "captured_ok mods" by (rule capture_modules_ok [OF assms])
  have h: "present (handoff_modules xs) = map ?h (present xs)" for xs
    by (induction xs) (auto simp: handoff_modules_def List.map_filter_def)
  have "0 < (ucast (len div 512) :: u64)" if "len \<noteq> 0" "len mod 512 = 0" for len :: usize
  proof -
    have "unat (len mod 512) = 0" using that(2) by simp
    then have "unat len mod 512 = 0" by (simp add: unat_mod)
    moreover have "0 < unat len" using that(1) by (simp add: unat_gt_0)
    ultimately have "0 < unat (len div 512)" by (auto simp: unat_div)
    then show ?thesis by (simp add: word_less_nat_alt unat_ucast_widen)
  qed
  with ok show ?thesis
    by (auto simp: h captured_ok_def accepted_ok_def list_all_iff bm_mount_def am_path_def [abs_def] comp_def
        from_boot_module_def module_sectors_def)
qed

definition example_modules :: "accepted_module option list" where
  "example_modules =
     [Some \<lparr>am_start = 0x1000, am_len = 0x400, am_mount = bytes_of ''games/'' @ replicate 122 0, am_mount_len = 6\<rparr>,
      None, None, None]"

lemma capture_example:
  "capture_modules 8 2 1 (\<lambda>i. if i = 0 then (3, 2, 1, 0) else (0x1000, 0x1400, 2, 0))
     (\<lambda>str. if str = 2 then Some (bytes_of ''RetroOS.mount=/games'', 20) else Some (bytes_of ''initrd'', 6))
   = Some example_modules"
  by code_simp

theorem captured_modules_ok_witness:
  "\<exists>d. from_boot_module \<lparr>bm_physical_start = 0x1000, bm_len = 0x400,
          bm_mount_bytes = bytes_of ''games/'' @ replicate 122 0, bm_mount_len = 6\<rparr> (\<lambda>_ _. None) = Some d
        \<and> 0 < module_sectors d"
  using captured_modules_ok [OF capture_example, of "\<lambda>_ _. None"]
  by (simp add: example_modules_def handoff_modules_def)

end
