(* ===== verification/Overlay.thy ===== *)
theory Overlay
  imports Block OrdMap
begin

text \<open>
  The volatile write overlay (\<^verbatim>\<open>kernel/src/kernel/block/overlay.rs\<close>): a disk that keeps what is
  written in a map of sectors and lets those sectors win on later reads.  Over any readable disk
  the overlay is a writable one, and it uses nothing of that disk but its reads.
\<close>

section \<open>The overlay\<close>

record 'd ram_overlay =
  ov_inner :: 'd
  ov_map :: "(u64, u8 list) btree"

definition overlay_wrap :: "'d \<Rightarrow> 'd ram_overlay" where
  "overlay_wrap inner = \<lparr>ov_inner = inner, ov_map = []\<rparr>"

text \<open>\<open>slice::chunks\<close>, with the number of each chunk.\<close>
function chunks_from :: "nat \<Rightarrow> 'a list \<Rightarrow> (nat \<times> 'a list) list" where
  "chunks_from i xs = (if xs = [] then [] else (i, take 512 xs) # chunks_from (i + 1) (drop 512 xs))"
  by pat_completeness auto
termination
  by (relation "measure (\<lambda>(_, xs). length xs)") auto

declare chunks_from.simps [simp del]

definition shadow_chunk :: "(u64, u8 list) btree \<Rightarrow> u64 \<Rightarrow> nat \<times> u8 list \<Rightarrow> u8 list" where
  "shadow_chunk m lba = (\<lambda>(i, chunk).
     case btree_get m (lba + of_nat i) of Some s \<Rightarrow> take (length chunk) s | None \<Rightarrow> chunk)"

definition overlay_read ::
  "'d disk_ops \<Rightarrow> 'd ram_overlay \<Rightarrow> u64 \<Rightarrow> u8 list \<Rightarrow> (u32 \<times> u8 list \<times> 'd ram_overlay) option" where
  "overlay_read D ov lba buf =
     (case disk_read D (ov_inner ov) lba buf of
        None \<Rightarrow> None
      | Some (n, buf, inner) \<Rightarrow>
          let m = ov_map ov;
              buf = (if m \<noteq> [] then concat (map (shadow_chunk m lba) (chunks_from 0 buf)) else buf)
          in Some (n, buf, ov\<lparr>ov_inner := inner\<rparr>))"

definition overlay_write_chunk ::
  "'d disk_ops \<Rightarrow> u64 \<Rightarrow> nat \<times> u8 list \<Rightarrow> 'd ram_overlay \<Rightarrow> 'd ram_overlay option" where
  "overlay_write_chunk D lba = (\<lambda>(i, chunk) ov.
     let sector = lba + of_nat i
     in if length chunk = 512 then Some (ov\<lparr>ov_map := btree_insert sector chunk (ov_map ov)\<rparr>)
        else case overlay_read D ov sector (replicate 512 0) of
               None \<Rightarrow> None
             | Some (_, s, ov) \<Rightarrow>
                 Some (ov\<lparr>ov_map := btree_insert sector (chunk @ drop (length chunk) s) (ov_map ov)\<rparr>))"

fun overlay_write_chunks ::
  "'d disk_ops \<Rightarrow> u64 \<Rightarrow> (nat \<times> u8 list) list \<Rightarrow> 'd ram_overlay \<Rightarrow> 'd ram_overlay option" where
  "overlay_write_chunks D lba [] ov = Some ov" |
  "overlay_write_chunks D lba (c # cs) ov =
     (case overlay_write_chunk D lba c ov of
        None \<Rightarrow> None
      | Some ov \<Rightarrow> overlay_write_chunks D lba cs ov)"

definition overlay_write ::
  "'d disk_ops \<Rightarrow> 'd ram_overlay \<Rightarrow> u64 \<Rightarrow> u8 list \<Rightarrow> (u32 \<times> 'd ram_overlay) option" where
  "overlay_write D ov lba buf =
     (case overlay_write_chunks D lba (chunks_from 0 buf) ov of
        None \<Rightarrow> None
      | Some ov \<Rightarrow> Some (of_nat (div_ceil (length buf) 512), ov))"

definition overlay_disk :: "'d disk_ops \<Rightarrow> 'd ram_overlay disk_ops" where
  "overlay_disk D =
     \<lparr>disk_read = overlay_read D, disk_write = overlay_write D,
      disk_sectors = (\<lambda>ov. disk_sectors D (ov_inner ov)),
      disk_name = (\<lambda>ov. disk_name D (ov_inner ov))\<rparr>"

section \<open>The contents of an overlay\<close>

definition overlay_bytes :: "('d \<Rightarrow> nat \<Rightarrow> u8) \<Rightarrow> 'd ram_overlay \<Rightarrow> nat \<Rightarrow> u8" where
  "overlay_bytes bytes ov i =
     (if i div 512 < 2 ^ 64
      then case btree_get (ov_map ov) (of_nat (i div 512)) of
             Some s \<Rightarrow> s ! (i mod 512)
           | None \<Rightarrow> bytes (ov_inner ov) i
      else bytes (ov_inner ov) i)"

definition overlay_inv :: "('d \<Rightarrow> bool) \<Rightarrow> 'd ram_overlay \<Rightarrow> bool" where
  "overlay_inv I ov \<longleftrightarrow> I (ov_inner ov) \<and> btree_wf (ov_map ov) \<and>
     (\<forall>k s. btree_get (ov_map ov) k = Some s \<longrightarrow> length s = 512)"

lemma sector_div: "j < 512 \<Longrightarrow> (s * 512 + j) div 512 = (s :: nat)"
  and sector_mod: "j < 512 \<Longrightarrow> (s * 512 + j) mod 512 = (j :: nat)"
  by simp_all

lemma shadow_chunk_bytes:
  assumes sec: "unat lba + i < 2 ^ 64" and len: "length chunk \<le> 512"
    and chunk: "chunk = bytes_at (bytes (ov_inner ov)) ((unat lba + i) * 512) (length chunk)"
    and wf: "\<And>k s. btree_get (ov_map ov) k = Some s \<Longrightarrow> length s = 512"
  shows "shadow_chunk (ov_map ov) lba (i, chunk) =
           bytes_at (overlay_bytes bytes ov) ((unat lba + i) * 512) (length chunk)"
proof (rule nth_equalityI)
  have len': "length (shadow_chunk (ov_map ov) lba (i, chunk)) = length chunk"
    using len by (auto simp: shadow_chunk_def split: option.splits dest: wf)
  then show "length (shadow_chunk (ov_map ov) lba (i, chunk)) =
      length (bytes_at (overlay_bytes bytes ov) ((unat lba + i) * 512) (length chunk))"
    by simp
  fix j assume "j < length (shadow_chunk (ov_map ov) lba (i, chunk))"
  then have j: "j < length chunk" by (simp add: len')
  define p where "p = (unat lba + i) * 512 + j"
  have "j < 512" using j len by simp
  then have "p div 512 = unat lba + i" "p mod 512 = j"
    unfolding p_def by (simp_all only: sector_div sector_mod)
  moreover have "chunk ! j = bytes (ov_inner ov) p"
    unfolding p_def using j by (subst chunk) simp
  moreover have "bytes_at (overlay_bytes bytes ov) ((unat lba + i) * 512) (length chunk) ! j = overlay_bytes bytes ov p"
    unfolding p_def by (rule nth_bytes_at [OF j])
  ultimately show "shadow_chunk (ov_map ov) lba (i, chunk) ! j =
      bytes_at (overlay_bytes bytes ov) ((unat lba + i) * 512) (length chunk) ! j"
    using j sec by (simp add: shadow_chunk_def overlay_bytes_def split: option.splits)
qed

lemma shadow_chunks_bytes:
  assumes wf: "\<And>k s. btree_get (ov_map ov) k = Some s \<Longrightarrow> length s = 512"
    and N: "N \<le> 2 ^ 64" and "(unat lba + i) * 512 + length buf \<le> N * 512"
    and "buf = bytes_at (bytes (ov_inner ov)) ((unat lba + i) * 512) (length buf)"
  shows "concat (map (shadow_chunk (ov_map ov) lba) (chunks_from i buf)) =
           bytes_at (overlay_bytes bytes ov) ((unat lba + i) * 512) (length buf)"
  using assms(3,4)
proof (induction i buf rule: chunks_from.induct)
  case (1 i buf)
  show ?case
  proof (cases "buf = []")
    case False
    let ?B = "bytes (ov_inner ov)" and ?a = "(unat lba + i) * 512"
    have "0 < length buf" using False by simp
    with 1(2) have "(unat lba + i) * 512 < N * 512" by linarith
    then have N': "unat lba + i < N" by simp
    then have sec: "unat lba + i < 2 ^ 64" using N by linarith
    let ?m = "min 512 (length buf)" and ?n = "length buf - 512"
    have split: "bytes_at f ?a (length buf) = bytes_at f ?a ?m @ bytes_at f ((unat lba + (i + 1)) * 512) ?n" for f
      using bytes_at_append [of f ?a ?m ?n] by (cases "length buf \<le> 512") (simp_all add: min_def algebra_simps)
    have hd: "take 512 buf = bytes_at ?B ?a ?m" and tl: "drop 512 buf = bytes_at ?B ((unat lba + (i + 1)) * 512) ?n"
      using arg_cong [OF 1(3), of "take 512"] arg_cong [OF 1(3), of "drop 512"]
      by (simp_all add: take_bytes_at drop_bytes_at algebra_simps)
    have "shadow_chunk (ov_map ov) lba (i, take 512 buf) = bytes_at (overlay_bytes bytes ov) ?a ?m"
    proof -
      have len: "length (take 512 buf) = ?m" by simp
      have "shadow_chunk (ov_map ov) lba (i, take 512 buf) =
          bytes_at (overlay_bytes bytes ov) ?a (length (take 512 buf))"
        by (rule shadow_chunk_bytes [OF sec]) (simp, subst len, rule hd, erule wf)
      then show ?thesis unfolding len .
    qed
    moreover have "(unat lba + (i + 1)) * 512 + length (drop 512 buf) \<le> N * 512"
    proof (cases "length buf \<le> 512")
      case True
      from N' have "unat lba + (i + 1) \<le> N" by simp
      then have "(unat lba + (i + 1)) * 512 \<le> N * 512" by (rule mult_le_mono1)
      with True show ?thesis by simp
    next
      case False
      with 1(2) show ?thesis by simp
    qed
    then have "concat (map (shadow_chunk (ov_map ov) lba) (chunks_from (i + 1) (drop 512 buf))) =
        bytes_at (overlay_bytes bytes ov) ((unat lba + (i + 1)) * 512) (length (drop 512 buf))"
      by (rule 1(1) [OF False]) (subst length_drop, rule tl)
    ultimately show ?thesis
      unfolding split [of "overlay_bytes bytes ov"] chunks_from.simps [of i buf] using False by simp
  qed (simp add: chunks_from.simps)
qed

section \<open>Writing a sector\<close>

lemma overlay_bytes_insert:
  assumes "btree_wf (ov_map ov)" "length s = 512"
  shows "overlay_bytes bytes (ov\<lparr>ov_map := btree_insert sector s (ov_map ov)\<rparr>) =
           store_bytes (overlay_bytes bytes ov) (unat sector * 512) s"
proof
  fix i
  have in_sector: "unat sector * 512 \<le> i \<and> i < unat sector * 512 + 512 \<longleftrightarrow> i div 512 = unat sector"
    by auto
  have word: "of_nat (i div 512) = sector \<longleftrightarrow> i div 512 = unat sector" if "i div 512 < 2 ^ 64"
    using unat_of_nat_small [where 'a = 64, of "i div 512"] that by (auto simp: word_unat_eq_iff)
  have "i - unat sector * 512 = i mod 512" if "i div 512 = unat sector"
    using that by (metis minus_div_mult_eq_mod)
  then show "overlay_bytes bytes (ov\<lparr>ov_map := btree_insert sector s (ov_map ov)\<rparr>) i =
      store_bytes (overlay_bytes bytes ov) (unat sector * 512) s i"
    using assms word unat_u64_less [of sector] in_sector
    by (auto simp: overlay_bytes_def store_bytes_def cong: option.case_cong)
qed

lemma store_bytes_seeded:
  assumes "length chunk \<le> n"
  shows "store_bytes f a (chunk @ drop (length chunk) (bytes_at f a n)) = store_bytes f a chunk"
  using assms by (auto simp: store_bytes_def fun_eq_iff nth_append)

lemma overlay_bytes_inner_cong:
  "bytes inner = bytes (ov_inner ov) \<Longrightarrow> overlay_bytes bytes (ov\<lparr>ov_inner := inner\<rparr>) = overlay_bytes bytes ov"
  by (rule ext) (simp add: overlay_bytes_def cong: option.case_cong if_cong)

lemma overlay_bytes_empty: "ov_map ov = [] \<Longrightarrow> overlay_bytes bytes ov = bytes (ov_inner ov)"
  by (rule ext) (simp add: overlay_bytes_def cong: option.case_cong if_cong)

lemma chunks_from_length:
  "(j, c) \<in> set (chunks_from i xs) \<Longrightarrow> length c \<le> 512 \<and> i \<le> j \<and> (j - i) * 512 < length xs"
proof (induction i xs rule: chunks_from.induct)
  case (1 i xs)
  show ?case
  proof (cases "xs = []")
    case False
    with 1(2) consider "j = i" "c = take 512 xs" | "(j, c) \<in> set (chunks_from (i + 1) (drop 512 xs))"
      by (subst (asm) (2) chunks_from.simps) auto
    then show ?thesis
    proof cases
      case 2
      from 1(1) [OF False this] have "length c \<le> 512" "i + 1 \<le> j" "(j - (i + 1)) * 512 < length xs - 512"
        by simp_all
      moreover from this have "(j - i) * 512 = (j - (i + 1)) * 512 + 512"
        by (simp add: algebra_simps diff_mult_distrib)
      ultimately show ?thesis by simp
    qed (use False in simp)
  qed (use 1(2) in \<open>simp add: chunks_from.simps\<close>)
qed

section \<open>The contract\<close>

context disk_reader
begin

lemma overlay_read_inside:
  assumes "overlay_inv inv ov" "ok (length buf)" "length buf < 2 ^ 31"
    and range: "unat lba * 512 + length buf \<le> unat (disk_sectors D (ov_inner ov)) * 512"
  obtains inner where
    "overlay_read D ov lba buf = Some (of_nat (div_ceil (length buf) 512),
       bytes_at (overlay_bytes bytes ov) (unat lba * 512) (length buf), ov\<lparr>ov_inner := inner\<rparr>)"
    "inv inner" "bytes inner = bytes (ov_inner ov)" "disk_sectors D inner = disk_sectors D (ov_inner ov)"
proof -
  have inv: "inv (ov_inner ov)" and wf: "\<And>k s. btree_get (ov_map ov) k = Some s \<Longrightarrow> length s = 512"
    using assms(1) by (auto simp: overlay_inv_def)
  obtain inner where r: "disk_read D (ov_inner ov) lba buf =
      Some (of_nat (div_ceil (length buf) 512), bytes_at (bytes (ov_inner ov)) (unat lba * 512) (length buf), inner)"
    "inv inner" "bytes inner = bytes (ov_inner ov)" "disk_sectors D inner = disk_sectors D (ov_inner ov)"
    using read_inside [OF inv assms(2,3) range] by auto
  let ?b = "bytes_at (bytes (ov_inner ov)) (unat lba * 512) (length buf)"
  have "concat (map (shadow_chunk (ov_map ov) lba) (chunks_from 0 ?b)) =
      bytes_at (overlay_bytes bytes ov) (unat lba * 512) (length buf)"
    using shadow_chunks_bytes [where ov = ov and bytes = bytes and lba = lba and i = 0 and buf = ?b
        and N = "unat (disk_sectors D (ov_inner ov))", OF wf] range unat_u64_less [of "disk_sectors D (ov_inner ov)"]
    by simp
  moreover have "?b = bytes_at (overlay_bytes bytes ov) (unat lba * 512) (length buf)" if "ov_map ov = []"
    using that by (simp add: overlay_bytes_empty)
  ultimately show thesis
    using that [OF _ r(2-4)] r(1) by (cases "ov_map ov = []") (simp_all add: overlay_read_def Let_def)
qed

lemma overlay_write_chunk_inside:
  assumes "overlay_inv inv ov" "length chunk \<le> 512"
    and range: "unat lba + i < unat (disk_sectors D (ov_inner ov))"
  obtains ov' where "overlay_write_chunk D lba (i, chunk) ov = Some ov'" "overlay_inv inv ov'"
    "overlay_bytes bytes ov' = store_bytes (overlay_bytes bytes ov) ((unat lba + i) * 512) chunk"
    "bytes (ov_inner ov') = bytes (ov_inner ov)"
    "disk_sectors D (ov_inner ov') = disk_sectors D (ov_inner ov)"
proof -
  have wf: "btree_wf (ov_map ov)" "\<And>k s. btree_get (ov_map ov) k = Some s \<Longrightarrow> length s = 512"
    and inv: "inv (ov_inner ov)"
    using assms(1) by (auto simp: overlay_inv_def)
  let ?sector = "lba + of_nat i :: u64"
  have "unat lba + i < 2 ^ 64"
    using range unat_u64_less [of "disk_sectors D (ov_inner ov)"] by simp
  then have sector: "unat ?sector = unat lba + i"
    by (simp add: unat_word_ariths unsigned_of_nat take_bit_eq_mod mod_add_right_eq)
  show thesis
  proof (cases "length chunk = 512")
    case True
    let ?ov = "ov\<lparr>ov_map := btree_insert ?sector chunk (ov_map ov)\<rparr>"
    have "overlay_inv inv ?ov" using wf inv True by (auto simp: overlay_inv_def)
    then show thesis
      using that [of ?ov] True overlay_bytes_insert [OF wf(1) True, of bytes ?sector] sector
      by (simp add: overlay_write_chunk_def Let_def)
  next
    case False
    have "ok (length (replicate 512 (0 :: u8)))" using ok_sectors [of 1] by simp
    then obtain inner where r: "overlay_read D ov ?sector (replicate 512 0) =
        Some (of_nat (div_ceil 512 512), bytes_at (overlay_bytes bytes ov) ((unat lba + i) * 512) 512, ov\<lparr>ov_inner := inner\<rparr>)"
      "inv inner" "bytes inner = bytes (ov_inner ov)" "disk_sectors D inner = disk_sectors D (ov_inner ov)"
      using overlay_read_inside [OF assms(1), of "replicate 512 0" ?sector] range sector by auto
    let ?s = "chunk @ drop (length chunk) (bytes_at (overlay_bytes bytes ov) ((unat lba + i) * 512) 512)"
    let ?ov = "ov\<lparr>ov_inner := inner, ov_map := btree_insert ?sector ?s (ov_map ov)\<rparr>"
    have len: "length ?s = 512" using assms(2) by simp
    have "overlay_inv inv ?ov" using wf r(2) len by (auto simp: overlay_inv_def)
    moreover have "overlay_bytes bytes ?ov = store_bytes (overlay_bytes bytes ov) ((unat lba + i) * 512) chunk"
      using overlay_bytes_insert [of "ov\<lparr>ov_inner := inner\<rparr>" ?s bytes ?sector] wf(1) len sector
        store_bytes_seeded [OF assms(2)] overlay_bytes_inner_cong [OF r(3)] by simp
    ultimately show thesis
      using that [of ?ov] False r by (simp add: overlay_write_chunk_def Let_def)
  qed
qed

lemma overlay_write_chunks_inside:
  assumes "overlay_inv inv ov"
    and "(unat lba + i) * 512 + length buf \<le> unat (disk_sectors D (ov_inner ov)) * 512"
  shows "\<exists>ov'. overlay_write_chunks D lba (chunks_from i buf) ov = Some ov' \<and> overlay_inv inv ov' \<and>
    overlay_bytes bytes ov' = store_bytes (overlay_bytes bytes ov) ((unat lba + i) * 512) buf \<and>
    bytes (ov_inner ov') = bytes (ov_inner ov) \<and>
    disk_sectors D (ov_inner ov') = disk_sectors D (ov_inner ov)"
  using assms
proof (induction i buf arbitrary: ov rule: chunks_from.induct)
  case (1 i buf)
  show ?case
  proof (cases "buf = []")
    case True
    then show ?thesis using 1(2) by (simp add: chunks_from.simps)
  next
    case False
    let ?cap = "unat (disk_sectors D (ov_inner ov))"
    have "0 < length buf" using False by simp
    with 1(3) have "(unat lba + i) * 512 < ?cap * 512" by linarith
    then have lt: "unat lba + i < ?cap" by simp
    obtain ov1 where ov1: "overlay_write_chunk D lba (i, take 512 buf) ov = Some ov1" "overlay_inv inv ov1"
      "overlay_bytes bytes ov1 = store_bytes (overlay_bytes bytes ov) ((unat lba + i) * 512) (take 512 buf)"
      "bytes (ov_inner ov1) = bytes (ov_inner ov)"
      "disk_sectors D (ov_inner ov1) = disk_sectors D (ov_inner ov)"
      using overlay_write_chunk_inside [OF 1(2) _ lt, of "take 512 buf"] by auto
    have "(unat lba + (i + 1)) * 512 + length (drop 512 buf) \<le> ?cap * 512"
    proof (cases "length buf \<le> 512")
      case True
      from lt have "unat lba + (i + 1) \<le> ?cap" by simp
      then have "(unat lba + (i + 1)) * 512 \<le> ?cap * 512" by (rule mult_le_mono1)
      with True show ?thesis by simp
    qed (use 1(3) in simp)
    from 1(1) [OF False ov1(2)] this ov1(5) obtain ov2 where
      ov2: "overlay_write_chunks D lba (chunks_from (i + 1) (drop 512 buf)) ov1 = Some ov2" "overlay_inv inv ov2"
      "overlay_bytes bytes ov2 = store_bytes (overlay_bytes bytes ov1) ((unat lba + (i + 1)) * 512) (drop 512 buf)"
      "bytes (ov_inner ov2) = bytes (ov_inner ov1)"
      "disk_sectors D (ov_inner ov2) = disk_sectors D (ov_inner ov1)"
      by auto
    have "store_bytes f ((unat lba + i) * 512) buf =
        store_bytes (store_bytes f ((unat lba + i) * 512) (take 512 buf)) ((unat lba + (i + 1)) * 512) (drop 512 buf)" for f
      using store_bytes_append [of f "(unat lba + i) * 512" "take 512 buf" "drop 512 buf"]
      by (cases "length buf \<le> 512") (simp_all add: algebra_simps)
    with ov1 ov2 False show ?thesis
      by (simp add: chunks_from.simps [of i buf])
  qed
qed

lemma overlay_write_inside:
  assumes "overlay_inv inv ov"
    and "unat lba * 512 + length buf \<le> unat (disk_sectors D (ov_inner ov)) * 512"
  shows "\<exists>ov'. overlay_write D ov lba buf = Some (of_nat (div_ceil (length buf) 512), ov') \<and>
    overlay_inv inv ov' \<and>
    overlay_bytes bytes ov' = store_bytes (overlay_bytes bytes ov) (unat lba * 512) buf \<and>
    bytes (ov_inner ov') = bytes (ov_inner ov) \<and>
    disk_sectors D (ov_inner ov') = disk_sectors D (ov_inner ov)"
  using overlay_write_chunks_inside [OF assms(1), of lba 0 buf] assms(2)
  by (auto simp: overlay_write_def)

text \<open>Over a readable disk the overlay is a writable disk, whatever the disk's own writes do.\<close>

lemma overlay_disk_writer:
  "disk_writer (overlay_disk D) (overlay_inv inv) (overlay_bytes bytes) ok"
proof
  fix ov assume "overlay_inv inv ov"
  then show "unat (disk_sectors (overlay_disk D) ov) * 512 < 2 ^ 64"
    using capacity [of "ov_inner ov"] by (simp add: overlay_disk_def overlay_inv_def)
next
  fix ov and buf :: "u8 list" and lba :: u64
  assume ov: "overlay_inv inv ov" and "ok (length buf)" "length buf < 2 ^ 31"
    and "unat lba * 512 + length buf \<le> unat (disk_sectors (overlay_disk D) ov) * 512"
  then obtain inner where "overlay_read D ov lba buf = Some (of_nat (div_ceil (length buf) 512),
       bytes_at (overlay_bytes bytes ov) (unat lba * 512) (length buf), ov\<lparr>ov_inner := inner\<rparr>)"
    "inv inner" "bytes inner = bytes (ov_inner ov)" "disk_sectors D inner = disk_sectors D (ov_inner ov)"
    by (auto simp: overlay_disk_def elim: overlay_read_inside)
  with ov show "\<exists>ov'. disk_read (overlay_disk D) ov lba buf =
      Some (of_nat (div_ceil (length buf) 512), bytes_at (overlay_bytes bytes ov) (unat lba * 512) (length buf), ov') \<and>
      overlay_inv inv ov' \<and> overlay_bytes bytes ov' = overlay_bytes bytes ov \<and>
      disk_sectors (overlay_disk D) ov' = disk_sectors (overlay_disk D) ov"
    by (simp add: overlay_disk_def overlay_inv_def overlay_bytes_inner_cong)
next
  fix ov and buf :: "u8 list" and lba :: u64
  assume "overlay_inv inv ov"
    and "unat lba * 512 + length buf \<le> unat (disk_sectors (overlay_disk D) ov) * 512"
  then show "\<exists>ov'. disk_write (overlay_disk D) ov lba buf = Some (of_nat (div_ceil (length buf) 512), ov') \<and>
      overlay_inv inv ov' \<and>
      overlay_bytes bytes ov' = store_bytes (overlay_bytes bytes ov) (unat lba * 512) buf \<and>
      disk_sectors (overlay_disk D) ov' = disk_sectors (overlay_disk D) ov"
    using overlay_write_inside [of ov lba buf] by (auto simp: overlay_disk_def)
qed (rule ok_sectors)

lemma overlay_wrap_inv: "inv d \<Longrightarrow> overlay_inv inv (overlay_wrap d)"
  by (simp add: overlay_inv_def overlay_wrap_def)

lemma overlay_wrap_bytes: "overlay_bytes bytes (overlay_wrap d) = bytes d"
  using overlay_bytes_empty [of "overlay_wrap d" bytes] by (simp add: overlay_wrap_def)

end

section \<open>The device is never written\<close>

lemma overlay_read_only: "overlay_read (D\<lparr>disk_write := w\<rparr>) = overlay_read D"
  by (simp add: overlay_read_def [abs_def])

lemma overlay_write_chunk_only: "overlay_write_chunk (D\<lparr>disk_write := w\<rparr>) = overlay_write_chunk D"
  unfolding overlay_write_chunk_def [abs_def] overlay_read_only ..

lemma overlay_write_chunks_only:
  "overlay_write_chunks (D\<lparr>disk_write := w\<rparr>) lba cs ov = overlay_write_chunks D lba cs ov"
  by (induction cs arbitrary: ov) (simp_all add: overlay_write_chunk_only split: option.splits)

text \<open>
  C21.  Protection is structural: an overlay behaves identically whatever the wrapped device does on
  a write.  Replacing the device's write operation by any other changes no read, no write, no
  capacity and no name of the overlay, so no write ever reaches the device.
\<close>

theorem overlay_never_writes:
  "overlay_disk (D\<lparr>disk_write := w\<rparr>) = overlay_disk D"
  by (simp add: overlay_disk_def overlay_read_only overlay_write_def [abs_def] overlay_write_chunks_only)

end
