(* ===== verification/Cache.thy ===== *)
theory Cache
  imports Block OrdMap "HOL-Library.Product_Lexorder"
begin

text \<open>
  The page cache (\<^verbatim>\<open>kernel/src/kernel/block/cache.rs\<close>): a read-through cache of 4 KiB pages over one
  disk, with a probation and a protected segment, invalidated before each write.  The statistics
  counter \<^verbatim>\<open>iostat::vol_read\<close> is left out.

  Two groups of lemmas: the structural ones bound the cache and its protected segment and show
  that a miss never evicts a protected page, for any disk; the others show that the cache over a
  disk that meets the contract meets it too, for buffers of any length.
\<close>

section \<open>State\<close>

definition PAGE_SIZE :: nat where [simp]: "PAGE_SIZE = 4096"
definition PAGE_SECTORS :: u64 where [simp]: "PAGE_SECTORS = 8"
definition PAGE_LIMIT :: nat where "PAGE_LIMIT = 512"
definition PROTECTED_LIMIT :: nat where "PROTECTED_LIMIT = 384"
definition FREQUENCY_AGE_INTERVAL :: u64 where "FREQUENCY_AGE_INTERVAL = 512"

record page =
  pg_data :: "u8 list"
  pg_used :: u64
  pg_hits :: u16
  pg_protected :: bool

record 'd cached_disk =
  cd_inner :: 'd
  cd_pages :: "(u64, page) btree"
  cd_clock :: u64

definition cache_wrap :: "'d \<Rightarrow> 'd cached_disk" where
  "cache_wrap inner = \<lparr>cd_inner = inner, cd_pages = [], cd_clock = 0\<rparr>"

section \<open>Loading a page\<close>

definition page_rank :: "u64 \<times> page \<Rightarrow> u16 \<times> u64" where
  "page_rank = (\<lambda>(_, p). (pg_hits p, pg_used p))"

definition age_pages :: "u64 \<Rightarrow> (u64, page) btree \<Rightarrow> (u64, page) btree" where
  "age_pages now pages =
     (if now mod FREQUENCY_AGE_INTERVAL = 0
      then btree_map_values (\<lambda>p. p\<lparr>pg_hits := max (pg_hits p div 2) 1\<rparr>) pages
      else pages)"

text \<open>A hit: demote the coldest protected page if the segment is full, then promote this one.\<close>
definition touch_page :: "u64 \<Rightarrow> u64 \<Rightarrow> (u64, page) btree \<Rightarrow> (u64, page) btree" where
  "touch_page page now pages =
     (let promote = \<not> (case btree_get pages page of Some p \<Rightarrow> pg_protected p | None \<Rightarrow> False);
          pages =
            (if promote \<and> PROTECTED_LIMIT \<le> length (filter (\<lambda>(_, p). pg_protected p) pages)
             then case min_by_key page_rank (filter (\<lambda>(k, p). k \<noteq> page \<and> pg_protected p) pages) of
                    Some (oldest, _) \<Rightarrow> btree_modify oldest (\<lambda>p. p\<lparr>pg_protected := False\<rparr>) pages
                  | None \<Rightarrow> pages
             else pages)
      in btree_modify page
           (\<lambda>p. p\<lparr>pg_used := now, pg_hits := saturating_add (pg_hits p) 1, pg_protected := True\<rparr>) pages)"

text \<open>Room for one more page: evict the coldest page on probation, or else the coldest of all.\<close>
definition evict_page :: "(u64, page) btree \<Rightarrow> (u64, page) btree" where
  "evict_page pages =
     (if length pages = PAGE_LIMIT
      then case (case min_by_key page_rank (filter (\<lambda>(_, p). \<not> pg_protected p) pages) of
                   Some e \<Rightarrow> Some e
                 | None \<Rightarrow> min_by_key page_rank pages) of
             Some (oldest, _) \<Rightarrow> btree_remove oldest pages
           | None \<Rightarrow> pages
      else pages)"

definition load_page :: "'d disk_ops \<Rightarrow> 'd cached_disk \<Rightarrow> u64 \<Rightarrow> (bool \<times> 'd cached_disk) option" where
  "load_page D c page =
     (let now = cd_clock c + 1;
          pages = age_pages now (cd_pages c);
          c = c\<lparr>cd_clock := now, cd_pages := pages\<rparr>
      in if btree_get pages page \<noteq> None
         then Some (True, c\<lparr>cd_pages := touch_page page now pages\<rparr>)
         else let offset = saturating_mul page 4096;
                  available = unat (min (saturating_sub
                    (saturating_mul (disk_sectors D (cd_inner c)) 512) offset) 4096)
              in if available = 0 then Some (False, c)
                 else case disk_read D (cd_inner c) (saturating_mul page PAGE_SECTORS) (replicate available 0) of
                        None \<Rightarrow> None
                      | Some (n, data, inner) \<Rightarrow>
                          let c = c\<lparr>cd_inner := inner\<rparr>
                          in if unat n \<noteq> div_ceil available 512 then Some (False, c)
                             else Some (True, c\<lparr>cd_pages := btree_insert page
                                    \<lparr>pg_data = data @ replicate (PAGE_SIZE - available) 0,
                                     pg_used = now, pg_hits = 1, pg_protected = False\<rparr>
                                    (evict_page pages)\<rparr>))"

section \<open>The disk operations\<close>

definition invalidate :: "'d cached_disk \<Rightarrow> u64 \<Rightarrow> nat \<Rightarrow> 'd cached_disk" where
  "invalidate c lba len =
     (if len = 0 then c
      else let first = lba div PAGE_SECTORS;
               last_sector = saturating_sub (saturating_add lba (of_nat (div_ceil len 512))) 1;
               last' = last_sector div PAGE_SECTORS
           in c\<lparr>cd_pages := fold btree_remove (map of_nat [unat first ..< Suc (unat last')]) (cd_pages c)\<rparr>)"

lemma page_offset_less: "unat (position mod 4096 :: u64) < 4096"
  by (simp add: unat_mod)

text \<open>
  The copy loop of \<^verbatim>\<open>read\<close>: each round copies at least one byte.  The page just loaded is looked up
  again, as the code does.
\<close>
function cache_copy ::
  "'d disk_ops \<Rightarrow> nat \<Rightarrow> 'd cached_disk \<Rightarrow> u8 list \<Rightarrow> nat \<Rightarrow> u64 \<Rightarrow>
   (u32 \<times> u8 list \<times> 'd cached_disk) option" where
  "cache_copy D valid c buffer copied position =
     (if \<not> copied < valid then Some (of_nat (div_ceil valid 512), buffer, c)
      else let page = position div 4096
           in case load_page D c page of
                None \<Rightarrow> None
              | Some (loaded, c) \<Rightarrow>
                  if \<not> loaded then Some (of_nat (div_ceil copied 512), buffer, c)
                  else let within = unat (position mod 4096);
                           amount = min (valid - copied) (PAGE_SIZE - within)
                       in case btree_get (cd_pages c) page of
                            None \<Rightarrow> Some (of_nat (div_ceil copied 512), buffer, c)
                          | Some cached \<Rightarrow>
                              cache_copy D valid c
                                (take copied buffer @ take amount (drop within (pg_data cached))
                                   @ drop (copied + amount) buffer)
                                (copied + amount) (position + of_nat amount))"
  by pat_completeness auto

termination
proof (relation "measure (\<lambda>(_, valid, _, _, copied, _). valid - copied)", goal_cases)
  case (2 D valid c buffer copied position)
  then show ?case using page_offset_less [of position] by (auto simp: min_def)
qed simp

declare cache_copy.simps [simp del]

definition cache_read ::
  "'d disk_ops \<Rightarrow> 'd cached_disk \<Rightarrow> u64 \<Rightarrow> u8 list \<Rightarrow> (u32 \<times> u8 list \<times> 'd cached_disk) option" where
  "cache_read D c lba buffer =
     (let start = saturating_mul lba 512;
          valid = unat (min (saturating_sub (saturating_mul (disk_sectors D (cd_inner c)) 512) start)
                        (of_nat (length buffer)));
          buffer = take valid buffer @ replicate (length buffer - valid) 0
      in cache_copy D valid c buffer 0 start)"

definition cache_write ::
  "'d disk_ops \<Rightarrow> 'd cached_disk \<Rightarrow> u64 \<Rightarrow> u8 list \<Rightarrow> (u32 \<times> 'd cached_disk) option" where
  "cache_write D c lba buffer =
     (let c = invalidate c lba (length buffer)
      in case disk_write D (cd_inner c) lba buffer of
           None \<Rightarrow> None
         | Some (n, inner) \<Rightarrow> Some (n, c\<lparr>cd_inner := inner\<rparr>))"

definition cached_ops :: "'d disk_ops \<Rightarrow> 'd cached_disk disk_ops" where
  "cached_ops D =
     \<lparr>disk_read = cache_read D, disk_write = cache_write D,
      disk_sectors = (\<lambda>c. disk_sectors D (cd_inner c)),
      disk_name = (\<lambda>c. disk_name D (cd_inner c))\<rparr>"

text \<open>\<^verbatim>\<open>cache::volume\<close>: the disk operations and the state of a volume with its own cache.\<close>

definition cache_volume_ops :: "volume \<Rightarrow> 'd disk_ops \<Rightarrow> 'd cached_disk disk_ops" where
  "cache_volume_ops v D = cached_ops (volume_disk v D)"

definition cache_volume :: "volume \<Rightarrow> 'd disk_ops \<Rightarrow> 'd \<Rightarrow> volume \<times> 'd cached_disk" where
  "cache_volume v D d =
     (let c = cache_wrap d in (volume_whole (cache_volume_ops v D) c, c))"

section \<open>The segments of the cache\<close>

definition protected_count :: "(u64, page) btree \<Rightarrow> nat" where
  "protected_count pages = length (filter (\<lambda>(_, p). pg_protected p) pages)"

definition pages_wf :: "(u64, page) btree \<Rightarrow> bool" where
  "pages_wf pages \<longleftrightarrow> btree_wf pages \<and> length pages \<le> PAGE_LIMIT \<and> protected_count pages \<le> PROTECTED_LIMIT"

lemma age_pages_get:
  "btree_get (age_pages now pages) k =
     map_option (\<lambda>p. if now mod FREQUENCY_AGE_INTERVAL = 0 then p\<lparr>pg_hits := max (pg_hits p div 2) 1\<rparr> else p)
       (btree_get pages k)"
  by (simp add: age_pages_def map_option.identity)

lemma protected_count_map_values:
  "(\<And>p. pg_protected (f p) = pg_protected p) \<Longrightarrow>
   protected_count (btree_map_values f pages) = protected_count pages"
  unfolding protected_count_def btree_map_values_def by (induction pages) auto

lemma age_pages_wf: "pages_wf pages \<Longrightarrow> pages_wf (age_pages now pages)"
  by (simp add: pages_wf_def age_pages_def protected_count_map_values)

lemma modify_protected:
  assumes "btree_wf pages" "btree_get pages k = Some p"
  shows "protected_count (btree_modify k f pages) + (if pg_protected p then 1 else 0) =
         protected_count pages + (if pg_protected (f p) then 1 else 0)"
  using btree_modify_count [OF assms, where P = "\<lambda>(_, p). pg_protected p" and f = f] by (simp add: protected_count_def)

lemma touch_page_wf:
  assumes wf: "pages_wf pages" and get: "btree_get pages page = Some p"
  shows "pages_wf (touch_page page now pages)"
proof -
  let ?f = "\<lambda>p. p\<lparr>pg_used := now, pg_hits := saturating_add (pg_hits p) 1, pg_protected := True\<rparr>"
  have bwf: "btree_wf pages" and lim: "protected_count pages \<le> PROTECTED_LIMIT"
    using wf by (auto simp: pages_wf_def)
  show ?thesis
  proof (cases "\<not> pg_protected p \<and> PROTECTED_LIMIT \<le> protected_count pages")
    case False
    then have "touch_page page now pages = btree_modify page ?f pages"
      using get by (auto simp: touch_page_def Let_def protected_count_def)
    then show ?thesis
      using wf modify_protected [OF bwf get, of ?f] False lim
      by (auto simp: pages_wf_def split: if_splits)
  next
    case True
    let ?cand = "filter (\<lambda>(k, p). k \<noteq> page \<and> pg_protected p) pages"
    have "0 < protected_count pages" using True by (simp add: PROTECTED_LIMIT_def)
    then obtain e where "e \<in> set pages" "pg_protected (snd e)"
      by (auto simp: protected_count_def filter_empty_conv)
    moreover from this have "fst e \<noteq> page"
      using get btree_get_iff [OF bwf, of "fst e" "snd e"] True by auto
    ultimately have "?cand \<noteq> []" by (force simp: filter_empty_conv)
    then obtain oldest q where q: "min_by_key page_rank ?cand = Some (oldest, q)"
      by (cases "min_by_key page_rank ?cand") auto
    then have mem: "(oldest, q) \<in> set pages" "oldest \<noteq> page" "pg_protected q"
      using min_by_key_in [OF q] by auto
    let ?pages = "btree_modify oldest (\<lambda>p. p\<lparr>pg_protected := False\<rparr>) pages"
    have eq: "touch_page page now pages = btree_modify page ?f ?pages"
      using True get q by (simp add: touch_page_def Let_def protected_count_def)
    have "protected_count ?pages + 1 = protected_count pages"
      using modify_protected [OF bwf, of oldest q] mem bwf by (simp add: btree_get_iff)
    moreover have "protected_count (btree_modify page ?f ?pages) = protected_count ?pages + 1"
      using modify_protected [of ?pages page p ?f] get mem(2) True bwf by simp
    ultimately show ?thesis
      using wf by (simp add: eq pages_wf_def)
  qed
qed

lemma evict_page_cases:
  assumes "pages_wf pages"
  shows "evict_page pages = pages \<and> length pages < PAGE_LIMIT \<or>
    (\<exists>k p. btree_get pages k = Some p \<and> \<not> pg_protected p \<and> evict_page pages = btree_remove k pages \<and>
           length (evict_page pages) < PAGE_LIMIT)"
proof (cases "length pages = PAGE_LIMIT")
  case True
  let ?prob = "filter (\<lambda>(_, p). \<not> pg_protected p) pages"
  have "length ?prob + protected_count pages = length pages"
    using sum_length_filter_compl [of "\<lambda>(_, p). pg_protected p" pages]
    by (simp add: protected_count_def case_prod_beta' add.commute)
  with True assms have "?prob \<noteq> []"
    by (auto simp: pages_wf_def PAGE_LIMIT_def PROTECTED_LIMIT_def)
  then obtain k p where kp: "min_by_key page_rank ?prob = Some (k, p)"
    by (cases "min_by_key page_rank ?prob") auto
  then have "(k, p) \<in> set pages" "\<not> pg_protected p"
    using min_by_key_in [OF kp] by auto
  moreover have "evict_page pages = btree_remove k pages"
    using True kp by (simp add: evict_page_def)
  moreover have "length (btree_remove k pages) < PAGE_LIMIT"
    using btree_remove_length [of pages k] assms True \<open>(k, p) \<in> set pages\<close> by (force simp: pages_wf_def)
  ultimately show ?thesis
    using assms by (auto simp: pages_wf_def btree_get_iff)
next
  case False
  with assms show ?thesis by (auto simp: evict_page_def pages_wf_def)
qed

lemma evict_page_wf: "pages_wf pages \<Longrightarrow> pages_wf (evict_page pages) \<and> length (evict_page pages) < PAGE_LIMIT"
  using evict_page_cases [of pages]
  by (auto simp: pages_wf_def protected_count_def intro: order_trans [OF btree_remove_count])

lemma evict_page_keeps:
  "pages_wf pages \<Longrightarrow> btree_get pages k = Some p \<Longrightarrow> pg_protected p \<Longrightarrow>
   btree_get (evict_page pages) k = Some p"
  using evict_page_cases [of pages] by auto

lemma evict_page_get: "btree_get (evict_page pages) k = Some p \<Longrightarrow> btree_get pages k = Some p"
  by (auto simp: evict_page_def split: if_splits option.splits prod.splits)

lemma insert_page_wf:
  assumes "pages_wf pages" "btree_get pages k = None" "\<not> pg_protected p"
  shows "pages_wf (btree_insert k p (evict_page pages))"
proof -
  have "k \<notin> fst ` set (evict_page pages)"
    using assms(2) evict_page_get [of pages k] btree_get_keys [of "evict_page pages" k] by force
  then show ?thesis
    using evict_page_wf [OF assms(1)] assms(3)
    by (auto simp: pages_wf_def protected_count_def btree_insert_length btree_insert_filter)
qed

lemma load_page_wf:
  assumes "pages_wf (cd_pages c)" "load_page D c page = Some (b, c')"
  shows "pages_wf (cd_pages c')"
proof -
  let ?pages = "age_pages (cd_clock c + 1) (cd_pages c)"
  have "pages_wf ?pages" by (rule age_pages_wf [OF assms(1)])
  then show ?thesis
    using assms(2) touch_page_wf [of ?pages page] insert_page_wf [of ?pages page]
    by (auto simp: load_page_def Let_def split: if_splits option.splits)
qed

lemma cache_copy_wf:
  "pages_wf (cd_pages c) \<Longrightarrow> cache_copy D valid c buffer copied position = Some (n, buf, c') \<Longrightarrow>
   pages_wf (cd_pages c')"
proof (induction D valid c buffer copied position rule: cache_copy.induct)
  case (1 D valid c buffer copied position)
  show ?case
  proof (cases "load_page D c (position div 4096)")
    case None
    then show ?thesis using 1(2,3) by (subst (asm) cache_copy.simps) (auto split: if_splits)
  next
    case (Some bc)
    obtain b c1 where bc: "bc = (b, c1)" by (cases bc)
    have "pages_wf (cd_pages c1)" using load_page_wf 1(2) Some bc by blast
    then show ?thesis
      using 1 Some bc by (subst (asm) (2) cache_copy.simps) (fastforce simp: Let_def split: if_splits option.splits)
  qed
qed

lemma cache_read_wf:
  "pages_wf (cd_pages c) \<Longrightarrow> cache_read D c lba buf = Some (n, buf', c') \<Longrightarrow> pages_wf (cd_pages c')"
  by (auto simp: cache_read_def Let_def dest: cache_copy_wf)

lemma pages_wf_fold_remove: "pages_wf m \<Longrightarrow> pages_wf (fold btree_remove ks m)"
  using fold_btree_remove_count [where P = "\<lambda>_. True" and ks = ks and m = m]
    fold_btree_remove_count [where P = "\<lambda>(_, p). pg_protected p" and ks = ks and m = m]
  by (simp add: pages_wf_def protected_count_def fold_btree_remove_wf)

lemma invalidate_wf: "pages_wf (cd_pages c) \<Longrightarrow> pages_wf (cd_pages (invalidate c lba len))"
  by (simp add: invalidate_def Let_def pages_wf_fold_remove del: upt_Suc)

lemma cache_write_wf:
  "pages_wf (cd_pages c) \<Longrightarrow> cache_write D c lba buf = Some (n, c') \<Longrightarrow> pages_wf (cd_pages c')"
  by (auto simp: cache_write_def Let_def split: option.splits dest: invalidate_wf)

section \<open>Scan resistance\<close>

lemma load_page_miss:
  assumes "pages_wf (cd_pages c)" "load_page D c page = Some (b, c')" "btree_get (cd_pages c) page = None"
  shows "\<forall>k p. btree_get (cd_pages c) k = Some p \<and> pg_protected p \<longrightarrow>
           (\<exists>p'. btree_get (cd_pages c') k = Some p' \<and> pg_protected p' \<and> pg_data p' = pg_data p)"
    and "\<forall>k. k \<noteq> page \<and> btree_get (cd_pages c) k = None \<longrightarrow> btree_get (cd_pages c') k = None"
proof -
  let ?pages = "age_pages (cd_clock c + 1) (cd_pages c)"
  have wf: "pages_wf ?pages" by (rule age_pages_wf [OF assms(1)])
  have none: "btree_get ?pages k = None \<longleftrightarrow> btree_get (cd_pages c) k = None" for k
    by (simp add: age_pages_get)
  have outcome: "cd_pages c' = ?pages \<or> (\<exists>q. cd_pages c' = btree_insert page q (evict_page ?pages))"
  proof -
    have "btree_get ?pages page = None" using none assms(3) by simp
    with assms(2) show ?thesis
      by (simp add: load_page_def Let_def split: if_splits option.splits prod.splits) (blast | force)+
  qed
  show "\<forall>k p. btree_get (cd_pages c) k = Some p \<and> pg_protected p \<longrightarrow>
           (\<exists>p'. btree_get (cd_pages c') k = Some p' \<and> pg_protected p' \<and> pg_data p' = pg_data p)"
  proof (intro allI impI)
    fix k p assume p: "btree_get (cd_pages c) k = Some p \<and> pg_protected p"
    then obtain p' where p': "btree_get ?pages k = Some p'" "pg_protected p'" "pg_data p' = pg_data p"
      by (simp add: age_pages_get)
    have "k \<noteq> page" using p assms(3) by auto
    then show "\<exists>p'. btree_get (cd_pages c') k = Some p' \<and> pg_protected p' \<and> pg_data p' = pg_data p"
      using outcome evict_page_keeps [OF wf p'(1,2)] p' evict_page_wf [OF wf]
      by (auto simp: pages_wf_def)
  qed
  show "\<forall>k. k \<noteq> page \<and> btree_get (cd_pages c) k = None \<longrightarrow> btree_get (cd_pages c') k = None"
  proof (intro allI impI)
    fix k assume k: "k \<noteq> page \<and> btree_get (cd_pages c) k = None"
    then have "btree_get (evict_page ?pages) k = None"
      using evict_page_get [of ?pages k] none [of k] by (cases "btree_get (evict_page ?pages) k") auto
    then show "btree_get (cd_pages c') k = None"
      using outcome k none evict_page_wf [OF wf] by (auto simp: pages_wf_def)
  qed
qed

text \<open>A one-pass scan: the pages of a list loaded one after the other.\<close>

fun load_pages :: "'d disk_ops \<Rightarrow> 'd cached_disk \<Rightarrow> u64 list \<Rightarrow> 'd cached_disk option" where
  "load_pages D c [] = Some c" |
  "load_pages D c (page # ps) =
     (case load_page D c page of None \<Rightarrow> None | Some (_, c) \<Rightarrow> load_pages D c ps)"

lemma load_pages_scan:
  assumes "pages_wf (cd_pages c)" "load_pages D c ps = Some c'" "distinct ps"
    and "\<forall>page \<in> set ps. btree_get (cd_pages c) page = None"
    and "btree_get (cd_pages c) k = Some p" "pg_protected p"
  shows "\<exists>p'. btree_get (cd_pages c') k = Some p' \<and> pg_protected p' \<and> pg_data p' = pg_data p"
  using assms
proof (induction ps arbitrary: c p)
  case (Cons page ps)
  then obtain b c1 where c1: "load_page D c page = Some (b, c1)" "load_pages D c1 ps = Some c'"
    by (auto split: option.splits)
  have none: "btree_get (cd_pages c) page = None" using Cons.prems(4) by simp
  note miss = load_page_miss [OF Cons.prems(1) c1(1) none]
  obtain p1 where p1: "btree_get (cd_pages c1) k = Some p1" "pg_protected p1" "pg_data p1 = pg_data p"
    using miss(1) Cons.prems(5,6) by blast
  have "\<forall>q \<in> set ps. btree_get (cd_pages c1) q = None"
    using miss(2) Cons.prems(3,4) by auto
  then show ?case
    using Cons.IH [OF load_page_wf [OF Cons.prems(1) c1(1)] c1(2) _ _ p1(1,2)] Cons.prems(3) p1(3) by simp
qed simp

section \<open>The contract\<close>

text \<open>What a cached page must hold: the bytes of the disk, as far as the disk goes.\<close>

definition page_ok :: "nat \<Rightarrow> (nat \<Rightarrow> u8) \<Rightarrow> u64 \<Rightarrow> u8 list \<Rightarrow> bool" where
  "page_ok sz f k data \<longleftrightarrow> unat k * 4096 < sz \<and> length data = 4096 \<and>
     (\<forall>j < 4096. unat k * 4096 + j < sz \<longrightarrow> data ! j = f (unat k * 4096 + j))"

definition cached_inv :: "'d disk_ops \<Rightarrow> ('d \<Rightarrow> bool) \<Rightarrow> ('d \<Rightarrow> nat \<Rightarrow> u8) \<Rightarrow> 'd cached_disk \<Rightarrow> bool" where
  "cached_inv D I bytes c \<longleftrightarrow> I (cd_inner c) \<and> pages_wf (cd_pages c) \<and>
     (\<forall>k p. btree_get (cd_pages c) k = Some p \<longrightarrow>
        page_ok (unat (disk_sectors D (cd_inner c)) * 512) (bytes (cd_inner c)) k (pg_data p))"

lemma page_ok_slice:
  assumes "page_ok sz f k data" "w + n \<le> 4096" "unat k * 4096 + w + n \<le> sz"
  shows "take n (drop w data) = bytes_at f (unat k * 4096 + w) n"
  using assms by (intro nth_equalityI) (auto simp: page_ok_def add.assoc)

text \<open>Ageing, demotion and promotion change no data.\<close>

lemma touch_page_data:
  assumes "btree_get (touch_page page now pages) k = Some q"
  obtains p where "btree_get pages k = Some p" "pg_data q = pg_data p"
proof -
  have "\<exists>p. btree_get pages k = Some p \<and> pg_data q = pg_data p"
    using assms by (auto simp: touch_page_def Let_def split: if_splits option.splits)
  then show thesis using that by blast
qed

lemma touch_page_get: "btree_get pages page = Some p \<Longrightarrow> btree_get (touch_page page now pages) page \<noteq> None"
  by (auto simp: touch_page_def Let_def split: option.splits)

lemma age_pages_data:
  assumes "btree_get (age_pages now pages) k = Some q"
  obtains p where "btree_get pages k = Some p" "pg_data q = pg_data p"
  using assms by (auto simp: age_pages_get)

context disk_reader
begin

text \<open>The sizes a miss computes, when the page begins inside the disk.\<close>

lemma miss_sizes:
  assumes "inv d" and page: "unat page * 4096 < unat (disk_sectors D d) * 512"
  defines "available \<equiv> unat (min (saturating_sub (saturating_mul (disk_sectors D d) 512) (saturating_mul page 4096)) 4096)"
  shows "available = min (unat (disk_sectors D d) * 512 - unat page * 4096) 4096"
    and "available mod 512 = 0" and "0 < available" and "available \<le> 4096"
    and "unat (saturating_mul page PAGE_SECTORS) * 512 = unat page * 4096"
    and "unat page * 4096 + available \<le> unat (disk_sectors D d) * 512"
proof -
  let ?cap = "unat (disk_sectors D d)"
  have cap: "?cap * 512 < 2 ^ 64" by (rule capacity [OF assms(1)])
  have "unat (saturating_mul (disk_sectors D d) 512) = ?cap * 512"
    and "unat (saturating_mul page 4096) = unat page * 4096"
    and "unat (saturating_mul page PAGE_SECTORS) = unat page * 8"
    using cap page by (simp_all add: unat_saturating_mul)
  then show av: "available = min (?cap * 512 - unat page * 4096) 4096"
    and "unat (saturating_mul page PAGE_SECTORS) * 512 = unat page * 4096"
    by (simp_all add: available_def min_def word_le_nat_alt unat_saturating_sub)
  have "?cap * 512 - unat page * 4096 = (?cap - unat page * 8) * 512"
    by (simp add: diff_mult_distrib)
  then show "available mod 512 = 0" by (simp add: av min_def)
  show "0 < available" "available \<le> 4096" "unat page * 4096 + available \<le> ?cap * 512"
    using page by (simp_all add: av)
qed

lemma load_page_inside:
  assumes c: "cached_inv D inv bytes c"
    and page: "unat page * 4096 < unat (disk_sectors D (cd_inner c)) * 512"
  obtains c' p where "load_page D c page = Some (True, c')" "cached_inv D inv bytes c'"
    "bytes (cd_inner c') = bytes (cd_inner c)" "disk_sectors D (cd_inner c') = disk_sectors D (cd_inner c)"
    "btree_get (cd_pages c') page = Some p"
proof -
  let ?now = "cd_clock c + 1"
  let ?pages = "age_pages ?now (cd_pages c)"
  let ?size = "unat (disk_sectors D (cd_inner c)) * 512" and ?f = "bytes (cd_inner c)"
  have inv: "inv (cd_inner c)" and wf: "pages_wf ?pages"
    and ok: "\<And>k p. btree_get ?pages k = Some p \<Longrightarrow> page_ok ?size ?f k (pg_data p)"
    using c by (auto simp: cached_inv_def age_pages_wf elim!: age_pages_data)
  show thesis
  proof (cases "btree_get ?pages page")
    case (Some p)
    let ?c = "c\<lparr>cd_clock := ?now, cd_pages := touch_page page ?now ?pages\<rparr>"
    have "cached_inv D inv bytes ?c"
      using inv touch_page_wf [OF wf Some] ok
      by (auto simp: cached_inv_def elim!: touch_page_data)
    moreover have "load_page D c page = Some (True, ?c)"
      using Some by (simp add: load_page_def Let_def)
    moreover obtain q where "btree_get (touch_page page ?now ?pages) page = Some q"
      using touch_page_get [OF Some] by blast
    ultimately show thesis using that by simp
  next
    case None
    define available where "available = unat (min (saturating_sub
      (saturating_mul (disk_sectors D (cd_inner c)) 512) (saturating_mul page 4096)) 4096)"
    note av = miss_sizes [OF inv page, folded available_def]
    let ?lba = "saturating_mul page PAGE_SECTORS"
    have "ok available"
      using ok_sectors [of "available div 512"] av(2) by (simp add: minus_mod_eq_div_mult [symmetric])
    then obtain inner where r: "disk_read D (cd_inner c) ?lba (replicate available 0) =
        Some (of_nat (div_ceil available 512), bytes_at ?f (unat page * 4096) available, inner)"
      "inv inner" "bytes inner = ?f" "disk_sectors D inner = disk_sectors D (cd_inner c)"
      using read_inside [OF inv, of "replicate available 0" ?lba, unfolded length_replicate av(5)] av(4,6)
      by auto
    have n: "unat (of_nat (div_ceil available 512) :: u32) = div_ceil available 512"
      using div_ceil_le_iff [of 512 available 8] av(4) by (simp add: unat_of_nat_small)
    let ?p = "\<lparr>pg_data = bytes_at ?f (unat page * 4096) available @ replicate (PAGE_SIZE - available) 0,
               pg_used = ?now, pg_hits = 1, pg_protected = False\<rparr>"
    let ?c = "c\<lparr>cd_clock := ?now, cd_inner := inner, cd_pages := btree_insert page ?p (evict_page ?pages)\<rparr>"
    have "load_page D c page = Some (True, ?c)"
      using None r(1) n av(3) by (simp add: load_page_def Let_def available_def [symmetric])
    moreover have "page_ok ?size ?f page (pg_data ?p)"
      using page av(1,4) by (auto simp: page_ok_def nth_append)
    then have "cached_inv D inv bytes ?c"
      using r insert_page_wf [OF wf None, of ?p] ok evict_page_get [of ?pages] evict_page_wf [OF wf]
      by (auto simp: cached_inv_def pages_wf_def split: if_splits)
    ultimately show thesis
      using that [of ?c ?p] r evict_page_wf [OF wf] by (simp add: pages_wf_def)
  qed
qed

lemma cache_copy_inside:
  assumes "cached_inv D inv bytes c" "start + valid \<le> unat (disk_sectors D (cd_inner c)) * 512"
    and "valid \<le> length buffer" "copied \<le> valid" "unat position = start + copied"
    and "take copied buffer = bytes_at (bytes (cd_inner c)) start copied"
  shows "\<exists>c'. cache_copy D valid c buffer copied position =
      Some (of_nat (div_ceil valid 512), bytes_at (bytes (cd_inner c)) start valid @ drop valid buffer, c') \<and>
    cached_inv D inv bytes c' \<and> bytes (cd_inner c') = bytes (cd_inner c) \<and>
    disk_sectors D (cd_inner c') = disk_sectors D (cd_inner c)"
  using assms
proof (induction "valid - copied" arbitrary: c buffer copied position rule: less_induct)
  case less
  let ?f = "bytes (cd_inner c)" and ?size = "unat (disk_sectors D (cd_inner c)) * 512"
  have inv: "inv (cd_inner c)" using less.prems(1) by (simp add: cached_inv_def)
  show ?case
  proof (cases "copied < valid")
    case False
    then have "copied = valid" using less.prems(4) by simp
    then have "buffer = bytes_at ?f start valid @ drop valid buffer"
      using less.prems(6) by (metis append_take_drop_id)
    then show ?thesis
      using less.prems(1) False by (subst cache_copy.simps) simp
  next
    case True
    let ?pos = "start + copied" and ?page = "position div 4096"
    define within where "within = unat (position mod 4096)"
    define amount where "amount = min (valid - copied) (PAGE_SIZE - within)"
    have pos: "?pos < ?size" using True less.prems(2) by simp
    have page: "unat ?page = ?pos div 4096" and within: "within = ?pos mod 4096"
      using less.prems(5) by (simp_all add: unat_div unat_mod within_def)
    have addr: "unat ?page * 4096 + within = ?pos" by (simp add: page within)
    have "within < 4096" by (simp add: within)
    then have amount: "0 < amount" "amount \<le> valid - copied" "within + amount \<le> 4096"
      using True by (auto simp: amount_def)
    obtain c1 p where load: "load_page D c ?page = Some (True, c1)" and c1: "cached_inv D inv bytes c1"
      "bytes (cd_inner c1) = ?f" "disk_sectors D (cd_inner c1) = disk_sectors D (cd_inner c)"
      "btree_get (cd_pages c1) ?page = Some p"
    proof -
      have "unat ?page * 4096 < ?size" using addr pos by linarith
      then show ?thesis by (rule load_page_inside [OF less.prems(1)]) (rule that)
    qed
    let ?buffer = "take copied buffer @ take amount (drop within (pg_data p)) @ drop (copied + amount) buffer"
    have "page_ok ?size ?f ?page (pg_data p)"
      using c1 by (auto simp: cached_inv_def)
    then have slice: "take amount (drop within (pg_data p)) = bytes_at ?f ?pos amount"
      using page_ok_slice [of ?size ?f ?page "pg_data p" within amount, unfolded addr] amount less.prems(2)
      by simp
    have buf: "?buffer = bytes_at ?f start (copied + amount) @ drop (copied + amount) buffer"
      unfolding slice less.prems(6) bytes_at_append by simp
    have len: "length ?buffer = length buffer"
      unfolding buf using amount less.prems(3) by simp
    have upos: "unat (position + of_nat amount) = start + (copied + amount)"
    proof -
      have "unat position + amount < 2 ^ 64"
        using capacity [OF inv] less.prems(2,5) amount True by simp
      then show ?thesis
        using less.prems(5) by (simp add: unat_word_ariths unsigned_of_nat take_bit_eq_mod mod_add_right_eq)
    qed
    have "cache_copy D valid c buffer copied position =
        cache_copy D valid c1 ?buffer (copied + amount) (position + of_nat amount)"
      using True load c1(4) by (subst cache_copy.simps) (simp add: Let_def within_def amount_def)
    moreover have "\<exists>c'. cache_copy D valid c1 ?buffer (copied + amount) (position + of_nat amount) =
        Some (of_nat (div_ceil valid 512), bytes_at (bytes (cd_inner c1)) start valid @ drop valid ?buffer, c') \<and>
      cached_inv D inv bytes c' \<and> bytes (cd_inner c') = bytes (cd_inner c1) \<and>
      disk_sectors D (cd_inner c') = disk_sectors D (cd_inner c1)"
    proof (rule less.hyps [OF _ c1(1) _ _ _ upos])
      show "valid - (copied + amount) < valid - copied" using amount True by simp
      show "start + valid \<le> unat (disk_sectors D (cd_inner c1)) * 512" using less.prems(2) c1(3) by simp
      show "valid \<le> length ?buffer" using less.prems(3) len by simp
      show "copied + amount \<le> valid" using amount True by simp
      show "take (copied + amount) ?buffer = bytes_at (bytes (cd_inner c1)) start (copied + amount)"
        unfolding buf c1(2) by simp
    qed
    moreover have "drop valid ?buffer = drop valid buffer"
      unfolding buf using amount True by simp
    ultimately show ?thesis using c1(2,3) by simp
  qed
qed

lemma cache_read_inside:
  assumes c: "cached_inv D inv bytes c" and len: "length buf < 2 ^ 31"
    and range: "unat lba * 512 + length buf \<le> unat (disk_sectors D (cd_inner c)) * 512"
  shows "\<exists>c'. cache_read D c lba buf =
      Some (of_nat (div_ceil (length buf) 512), bytes_at (bytes (cd_inner c)) (unat lba * 512) (length buf), c') \<and>
    cached_inv D inv bytes c' \<and> bytes (cd_inner c') = bytes (cd_inner c) \<and>
    disk_sectors D (cd_inner c') = disk_sectors D (cd_inner c)"
proof -
  let ?start = "saturating_mul lba 512"
  have cap: "unat (disk_sectors D (cd_inner c)) * 512 < 2 ^ 64"
    using capacity c by (simp add: cached_inv_def)
  then have start: "unat ?start = unat lba * 512"
    and size: "unat (saturating_mul (disk_sectors D (cd_inner c)) 512) = unat (disk_sectors D (cd_inner c)) * 512"
    using range by (simp_all add: unat_saturating_mul)
  have "unat (of_nat (length buf) :: u64) = length buf" using len by (simp add: unat_of_nat_small)
  then have valid: "unat (min (saturating_sub (saturating_mul (disk_sectors D (cd_inner c)) 512) ?start)
      (of_nat (length buf))) = length buf"
    using range start size by (auto simp: min_def word_le_nat_alt unat_saturating_sub)
  then show ?thesis
    using cache_copy_inside [OF c range, of buf 0 ?start] start by (simp add: cache_read_def Let_def)
qed

lemma cached_disk_reader:
  "disk_reader (cached_ops D) (cached_inv D inv bytes) (\<lambda>c. bytes (cd_inner c)) (\<lambda>_. True)"
proof
  fix c assume "cached_inv D inv bytes c"
  then show "unat (disk_sectors (cached_ops D) c) * 512 < 2 ^ 64"
    using capacity by (simp add: cached_ops_def cached_inv_def)
next
  fix c and buf :: "u8 list" and lba :: u64
  assume "cached_inv D inv bytes c" "length buf < 2 ^ 31"
    and "unat lba * 512 + length buf \<le> unat (disk_sectors (cached_ops D) c) * 512"
  then show "\<exists>c'. disk_read (cached_ops D) c lba buf =
      Some (of_nat (div_ceil (length buf) 512), bytes_at (bytes (cd_inner c)) (unat lba * 512) (length buf), c') \<and>
      cached_inv D inv bytes c' \<and> bytes (cd_inner c') = bytes (cd_inner c) \<and>
      disk_sectors (cached_ops D) c' = disk_sectors (cached_ops D) c"
    using cache_read_inside [of c buf lba] by (simp add: cached_ops_def)
qed simp

lemma cache_wrap_inv: "inv d \<Longrightarrow> cached_inv D inv bytes (cache_wrap d)"
  by (simp add: cached_inv_def cache_wrap_def pages_wf_def protected_count_def)

end

section \<open>Coherence of writes\<close>

lemma invalidate_get:
  assumes "0 < len" "len < 2 ^ 31" "unat lba * 512 + len \<le> sz" "sz < 2 ^ 64"
    and "btree_get (cd_pages (invalidate c lba len)) k = Some p"
  shows "btree_get (cd_pages c) k = Some p"
    and "unat k * 4096 + 4096 \<le> unat lba * 512 \<or> unat lba * 512 + len \<le> unat k * 4096"
proof -
  let ?n = "div_ceil len 512"
  let ?last = "saturating_sub (saturating_add lba (of_nat ?n)) 1"
  have n: "0 < ?n" "?n \<le> 2 ^ 22" "len \<le> ?n * 512"
    using assms(1,2) div_ceil_bound [of len] div_ceil_covers [of 512 len] by (auto simp: div_ceil_def)
  have "unat lba + ?n < 2 ^ 64" using assms(3,4) n by simp
  then have last: "unat ?last = unat lba + ?n - 1"
    using n by (simp add: unat_saturating_sub unat_saturating_add unat_of_nat_small)
  let ?r = "[unat (lba div PAGE_SECTORS) ..< Suc (unat (?last div PAGE_SECTORS))]"
  have get: "btree_get (cd_pages (invalidate c lba len)) k =
      (if k \<in> of_nat ` set ?r then None else btree_get (cd_pages c) k)"
    using assms(1) by (simp add: invalidate_def Let_def fold_btree_remove del: upt_Suc set_upt)
  with assms(5) show "btree_get (cd_pages c) k = Some p" by (auto split: if_splits)
  have "unat k \<notin> set ?r"
  proof
    assume "unat k \<in> set ?r"
    then have "of_nat (unat k) \<in> (of_nat ` set ?r :: u64 set)" by (rule imageI)
    moreover have "of_nat (unat k) = k" by simp
    ultimately show False using assms(5) unfolding get by simp
  qed
  moreover have "unat (lba div PAGE_SECTORS) = unat lba div 8"
    "unat (?last div PAGE_SECTORS) = (unat lba + ?n - 1) div 8"
    using last by (simp_all add: unat_div)
  ultimately have "unat k < unat lba div 8 \<or> (unat lba + ?n - 1) div 8 < unat k"
    unfolding set_upt atLeastLessThan_iff by linarith
  then show "unat k * 4096 + 4096 \<le> unat lba * 512 \<or> unat lba * 512 + len \<le> unat k * 4096"
  proof
    assume "unat k < unat lba div 8"
    then have "Suc (unat k) \<le> unat lba div 8" by simp
    then have "Suc (unat k) * 8 \<le> unat lba" by (simp add: less_eq_div_iff_mult_less_eq)
    then show ?thesis by simp
  next
    assume "(unat lba + ?n - 1) div 8 < unat k"
    then have "unat lba + ?n - 1 < unat k * 8" by (simp add: div_less_iff_less_mult)
    then have "unat lba + ?n \<le> unat k * 8" using n(1) by simp
    then have "unat lba * 512 + ?n * 512 \<le> unat k * 4096" by simp
    then show ?thesis using n(3) by simp
  qed
qed

lemma page_ok_store:
  assumes "page_ok sz f k data" "unat k * 4096 + 4096 \<le> a \<or> a + length xs \<le> unat k * 4096"
  shows "page_ok sz (store_bytes f a xs) k data"
  using assms by (auto simp: page_ok_def store_bytes_def)

context disk_writer
begin

lemma cache_write_inside:
  assumes c: "cached_inv D inv bytes c" and len: "length buf < 2 ^ 31"
    and range: "unat lba * 512 + length buf \<le> unat (disk_sectors D (cd_inner c)) * 512"
  shows "\<exists>c'. cache_write D c lba buf = Some (of_nat (div_ceil (length buf) 512), c') \<and>
    cached_inv D inv bytes c' \<and>
    bytes (cd_inner c') = store_bytes (bytes (cd_inner c)) (unat lba * 512) buf \<and>
    disk_sectors D (cd_inner c') = disk_sectors D (cd_inner c)"
proof -
  let ?c = "invalidate c lba (length buf)" and ?size = "unat (disk_sectors D (cd_inner c)) * 512"
  have inner: "cd_inner ?c = cd_inner c" by (simp add: invalidate_def Let_def)
  have inv: "inv (cd_inner c)" and wf: "pages_wf (cd_pages c)"
    using c by (auto simp: cached_inv_def)
  obtain d' where d': "disk_write D (cd_inner c) lba buf = Some (of_nat (div_ceil (length buf) 512), d')"
    "inv d'" "bytes d' = store_bytes (bytes (cd_inner c)) (unat lba * 512) buf"
    "disk_sectors D d' = disk_sectors D (cd_inner c)"
    using write_inside [OF inv len range] by auto
  have "page_ok ?size (bytes d') k (pg_data p)" if kp: "btree_get (cd_pages ?c) k = Some p" for k p
  proof (cases "buf = []")
    case True
    with kp c d' show ?thesis by (auto simp: invalidate_def cached_inv_def)
  next
    case False
    then have "0 < length buf" by simp
    note gone = invalidate_get [OF this len range capacity [OF inv] kp]
    then have "page_ok ?size (bytes (cd_inner c)) k (pg_data p)"
      using c by (auto simp: cached_inv_def)
    then show ?thesis unfolding d'(3) by (rule page_ok_store [OF _ gone(2)])
  qed
  then have "cached_inv D inv bytes (?c\<lparr>cd_inner := d'\<rparr>)"
    using d' invalidate_wf [OF wf] by (simp add: cached_inv_def)
  then show ?thesis
    using d' by (simp add: cache_write_def Let_def inner)
qed

lemma cached_disk_writer:
  "disk_writer (cached_ops D) (cached_inv D inv bytes) (\<lambda>c. bytes (cd_inner c)) (\<lambda>_. True)"
proof (intro disk_writer.intro cached_disk_reader disk_writer_axioms.intro)
  fix c and buf :: "u8 list" and lba :: u64
  assume "cached_inv D inv bytes c" "length buf < 2 ^ 31"
    and "unat lba * 512 + length buf \<le> unat (disk_sectors (cached_ops D) c) * 512"
  then show "\<exists>c'. disk_write (cached_ops D) c lba buf = Some (of_nat (div_ceil (length buf) 512), c') \<and>
      cached_inv D inv bytes c' \<and>
      bytes (cd_inner c') = store_bytes (bytes (cd_inner c)) (unat lba * 512) buf \<and>
      disk_sectors (cached_ops D) c' = disk_sectors (cached_ops D) c"
    using cache_write_inside [of c buf lba] by (simp add: cached_ops_def)
qed

end

section \<open>Properties\<close>

text \<open>
  C30.  The cache is scan-resistant: over any disk, loading any number of pages that were not
  cached, each once, keeps every protected page, still protected and with the same data, and
  leaves at most 512 pages, at most 384 of them protected.
\<close>

theorem cache_scan_resistant:
  assumes "pages_wf (cd_pages c)" "load_pages D c ps = Some c'" "distinct ps"
    and "\<forall>page \<in> set ps. btree_get (cd_pages c) page = None"
    and "btree_get (cd_pages c) k = Some p" "pg_protected p"
  shows "length (cd_pages c') \<le> 512 \<and> protected_count (cd_pages c') \<le> 384 \<and>
    (\<exists>p'. btree_get (cd_pages c') k = Some p' \<and> pg_protected p' \<and> pg_data p' = pg_data p)"
proof -
  have "pages_wf (cd_pages c) \<Longrightarrow> load_pages D c ps = Some c' \<Longrightarrow> pages_wf (cd_pages c')" for c
    by (induction ps arbitrary: c) (auto split: option.splits dest: load_page_wf)
  with assms load_pages_scan [OF assms] show ?thesis
    by (auto simp: pages_wf_def PAGE_LIMIT_def PROTECTED_LIMIT_def)
qed

definition blank_disk :: "unit disk_ops" where
  "blank_disk =
     \<lparr>disk_read = (\<lambda>d _ buf. Some (of_nat (div_ceil (length buf) 512), replicate (length buf) 0, d)),
      disk_write = (\<lambda>d _ _. Some (0, d)), disk_sectors = (\<lambda>_. 16), disk_name = (\<lambda>_. ''blank'')\<rparr>"

definition hot_page :: page where
  "hot_page = \<lparr>pg_data = [1], pg_used = 5, pg_hits = 2, pg_protected = True\<rparr>"

theorem cache_scan_resistant_witness:
  "\<exists>c' p'. load_pages blank_disk \<lparr>cd_inner = (), cd_pages = [(0, hot_page)], cd_clock = 5\<rparr> [1] = Some c' \<and>
     btree_get (cd_pages c') 1 \<noteq> None \<and> btree_get (cd_pages c') 0 = Some p' \<and> pg_data p' = [1]"
proof -
  let ?c = "\<lparr>cd_inner = (), cd_pages = [(0, hot_page)], cd_clock = 5\<rparr>"
  have "\<exists>c'. load_pages blank_disk ?c [1] = Some c' \<and> btree_get (cd_pages c') 1 \<noteq> None"
    by (simp add: load_page_def Let_def age_pages_def FREQUENCY_AGE_INTERVAL_def blank_disk_def
        saturating_mul_def saturating_sub_def div_ceil_def evict_page_def PAGE_LIMIT_def)
  then obtain c' where c': "load_pages blank_disk ?c [1] = Some c'" "btree_get (cd_pages c') 1 \<noteq> None"
    by blast
  moreover have "pages_wf (cd_pages ?c)"
    by (simp add: pages_wf_def btree_wf_def protected_count_def PAGE_LIMIT_def PROTECTED_LIMIT_def)
  ultimately show ?thesis
    using cache_scan_resistant [of ?c blank_disk "[1]" c' 0 hot_page] by (auto simp: hot_page_def)
qed

end
