(* ===== verification/Partition.thy ===== *)
theory Partition
  imports Cmdline Block
begin

text \<open>
  Partition tables (\<^verbatim>\<open>kernel/src/kernel/block/partition.rs\<close>): the four primary MBR entries, and the
  GPT behind a protective MBR.  The disk is passed explicitly; a slice out of range is \<open>None\<close>.
\<close>

section \<open>Table fields\<close>

datatype part_kind = Linux | Fat | BootBundle | Other u8

record partition =
  part_volume :: volume
  part_kind :: part_kind

definition part_kind_from_mbr :: "u8 \<Rightarrow> part_kind" where
  "part_kind_from_mbr ty =
     (if ty = 0x83 then Linux
      else if ty \<in> {0x01, 0x04, 0x06, 0x0B, 0x0C, 0x0E} then Fat
      else if ty = 0xDA then BootBundle
      else Other ty)"

section \<open>MBR\<close>

definition is_protective_mbr :: "u8 list \<Rightarrow> bool" where
  "is_protective_mbr mbr \<longleftrightarrow> (\<exists>i\<in>set [0..<4]. mbr ! (0x1BE + i * 16 + 4) = 0xEE)"

definition mbr_entry :: "'d disk_ops \<Rightarrow> 'd \<Rightarrow> u8 list \<Rightarrow> nat \<Rightarrow> partition list" where
  "mbr_entry D d mbr i =
     (let base = 0x1BE + i * 16;
          ty = mbr ! (base + 4);
          start = ucast (from_le_bytes (bytes_slice mbr (base + 8) (base + 12)) :: u32) :: u64;
          sectors = ucast (from_le_bytes (bytes_slice mbr (base + 12) (base + 16)) :: u32) :: u64
      in if ty = 0 \<or> start = 0 \<or> sectors = 0 then []
         else [\<lparr>part_volume = volume_new D d start sectors, part_kind = part_kind_from_mbr ty\<rparr>])"

definition self_mbr :: "'d disk_ops \<Rightarrow> 'd \<Rightarrow> u8 list \<Rightarrow> partition list" where
  "self_mbr D d mbr = concat (map (mbr_entry D d mbr) [0..<4])"

section \<open>GPT\<close>

definition gpt_entry :: "'d disk_ops \<Rightarrow> 'd \<Rightarrow> u8 list \<Rightarrow> nat \<Rightarrow> partition list option" where
  "gpt_entry D d buf off =
     (if length buf < off + 16 then None
      else if list_all (\<lambda>b. b = 0) (bytes_slice buf off (off + 16)) then Some []
      else if length buf < off + 40 then None
      else if length buf < off + 48 then None
      else let first = from_le_bytes (bytes_slice buf (off + 32) (off + 40)) :: u64;
               last' = from_le_bytes (bytes_slice buf (off + 40) (off + 48)) :: u64
           in if first = 0 \<or> last' < first then Some []
              else Some [\<lparr>part_volume = volume_new D d first (last' - first + 1), part_kind = Other 0\<rparr>])"

fun gpt_entries :: "'d disk_ops \<Rightarrow> 'd \<Rightarrow> u8 list \<Rightarrow> nat \<Rightarrow> nat list \<Rightarrow> partition list option" where
  "gpt_entries D d buf entry_size [] = Some []" |
  "gpt_entries D d buf entry_size (e # es) =
     (case gpt_entry D d buf (e * entry_size) of
        None \<Rightarrow> None
      | Some ps \<Rightarrow> map_option ((@) ps) (gpt_entries D d buf entry_size es))"

fun gpt_sectors ::
  "'d disk_ops \<Rightarrow> volume \<Rightarrow> 'd \<Rightarrow> u64 \<Rightarrow> nat \<Rightarrow> u8 list \<Rightarrow> nat list \<Rightarrow> (partition list \<times> 'd) option" where
  "gpt_sectors D v d entry_lba entry_size buf [] = Some ([], d)" |
  "gpt_sectors D v d entry_lba entry_size buf (s # ss) =
     (case volume_read D v d (entry_lba + of_nat s) buf of
        None \<Rightarrow> None
      | Some (_, buf, d) \<Rightarrow>
          (case gpt_entries D d buf entry_size [0..<512 div entry_size] of
             None \<Rightarrow> None
           | Some ps \<Rightarrow> map_option (\<lambda>(qs, d). (ps @ qs, d)) (gpt_sectors D v d entry_lba entry_size buf ss)))"

definition gpt :: "'d disk_ops \<Rightarrow> volume \<Rightarrow> 'd \<Rightarrow> (partition list \<times> 'd) option" where
  "gpt D v d =
     (case volume_read D v d 1 (replicate 512 0) of
        None \<Rightarrow> None
      | Some (_, hdr, d) \<Rightarrow>
          if take 8 hdr \<noteq> bytes_of ''EFI PART'' then Some ([], d)
          else let entry_lba = from_le_bytes (bytes_slice hdr 0x48 0x50) :: u64;
                   num_entries = unat (min (from_le_bytes (bytes_slice hdr 0x50 0x54) :: u32) 256);
                   entry_size = unat (from_le_bytes (bytes_slice hdr 0x54 0x58) :: u32)
               in if entry_size = 0 \<or> entry_lba = 0 \<or> 512 mod entry_size \<noteq> 0 then Some ([], d)
                  else gpt_sectors D v d entry_lba entry_size (replicate 512 0)
                         [0..<div_ceil num_entries (512 div entry_size)])"

definition scan :: "'d disk_ops \<Rightarrow> volume \<Rightarrow> 'd \<Rightarrow> (partition list \<times> 'd) option" where
  "scan D v d =
     (case volume_read D v d 0 (replicate 512 0) of
        None \<Rightarrow> None
      | Some (_, mbr, d) \<Rightarrow>
          if is_protective_mbr mbr then gpt D v d else Some (self_mbr D d mbr, d))"

section \<open>Extents\<close>

text \<open>What the code relies on of the device: reading does not change its capacity.\<close>

definition stable_capacity :: "'d disk_ops \<Rightarrow> bool" where
  "stable_capacity D \<longleftrightarrow>
     (\<forall>d lba buf n buf' d'. disk_read D d lba buf = Some (n, buf', d') \<longrightarrow> disk_sectors D d' = disk_sectors D d)"

definition extent_ok :: "u64 \<Rightarrow> partition \<Rightarrow> bool" where
  "extent_ok cap p \<longleftrightarrow> vol_start (part_volume p) \<noteq> 0 \<and>
     (vol_sectors (part_volume p) = 0 \<or>
      unat (vol_start (part_volume p)) + unat (vol_sectors (part_volume p)) \<le> unat cap)"

lemma volume_new_extent:
  "start \<noteq> 0 \<Longrightarrow> extent_ok (disk_sectors D d) \<lparr>part_volume = volume_new D d start n, part_kind = k\<rparr>"
  using volume_new_on [of start D d n] volume_new_beyond [of D d start n]
  by (cases "start \<le> disk_sectors D d") (auto simp: extent_ok_def volume_on_def volume_new_def)

lemma volume_read_capacity:
  "stable_capacity D \<Longrightarrow> volume_read D v d lba buf = Some (n, buf', d') \<Longrightarrow> disk_sectors D d' = disk_sectors D d"
  by (auto simp: volume_read_def Let_def stable_capacity_def split: if_splits option.splits)

lemma self_mbr_extents: "list_all (extent_ok (disk_sectors D d)) (self_mbr D d mbr)"
  by (auto simp: self_mbr_def mbr_entry_def Let_def list_all_iff intro!: volume_new_extent)

lemma gpt_entries_extents:
  "gpt_entries D d buf sz es = Some ps \<Longrightarrow> list_all (extent_ok (disk_sectors D d)) ps"
  by (induction es arbitrary: ps)
     (auto simp: gpt_entry_def Let_def volume_new_extent split: option.splits if_splits)

lemma gpt_sectors_extents:
  assumes "stable_capacity D" "gpt_sectors D v d lba sz buf ss = Some (ps, d')"
  shows "list_all (extent_ok (disk_sectors D d)) ps \<and> disk_sectors D d' = disk_sectors D d"
  using assms(2)
proof (induction ss arbitrary: d buf ps)
  case (Cons s ss)
  then obtain n buf1 d1 ps1 ps2 where 1: "volume_read D v d (lba + of_nat s) buf = Some (n, buf1, d1)"
    "gpt_entries D d1 buf1 sz [0..<512 div sz] = Some ps1"
    "gpt_sectors D v d1 lba sz buf1 ss = Some (ps2, d')" "ps = ps1 @ ps2"
    by (auto split: option.splits)
  with Cons.IH [OF 1(3)] gpt_entries_extents [OF 1(2)] volume_read_capacity [OF assms(1) 1(1)]
  show ?case by simp
qed simp

lemma gpt_extents:
  assumes "stable_capacity D" "gpt D v d = Some (ps, d')"
  shows "list_all (extent_ok (disk_sectors D d)) ps \<and> disk_sectors D d' = disk_sectors D d"
proof -
  obtain n hdr d1 where r: "volume_read D v d 1 (replicate 512 0) = Some (n, hdr, d1)"
    using assms(2) by (auto simp: gpt_def split: option.splits)
  note cap = volume_read_capacity [OF assms(1) r]
  show ?thesis
    using assms(2) gpt_sectors_extents [OF assms(1), of v d1] cap
    by (auto simp: gpt_def r Let_def split: if_splits)
qed

section \<open>Small entries\<close>



section \<open>Properties\<close>

text \<open>
  C17.  Whatever a partition table claims, every volume the scan returns lies inside the disk or is
  empty, and none starts at sector 0, where the table itself is.
\<close>

theorem scan_extents:
  assumes "stable_capacity D" "scan D v d = Some (ps, d')" "p \<in> set ps"
  shows "vol_start (part_volume p) \<noteq> 0 \<and>
    (vol_sectors (part_volume p) = 0 \<or>
     unat (vol_start (part_volume p)) + unat (vol_sectors (part_volume p)) \<le> unat (disk_sectors D d'))"
proof -
  obtain n mbr d1 where r: "volume_read D v d 0 (replicate 512 0) = Some (n, mbr, d1)"
    using assms(2) by (auto simp: scan_def split: option.splits)
  have "list_all (extent_ok (disk_sectors D d')) ps"
    using assms(2) self_mbr_extents [of D d1 mbr] gpt_extents [OF assms(1), of v d1 ps d']
    by (auto simp: scan_def r split: if_splits)
  with assms(3) show ?thesis
    by (auto simp: list_all_iff extent_ok_def)
qed


text \<open>A disk of listed sectors, for examples.\<close>

definition sector_disk :: "u8 list list disk_ops" where
  "sector_disk =
     \<lparr>disk_read = (\<lambda>d lba buf. Some (1, d ! unat lba, d)), disk_write = (\<lambda>d _ _. Some (0, d)),
      disk_sectors = (\<lambda>_. 100), disk_name = (\<lambda>_. ''sectors'')\<rparr>"

definition example_mbr :: "u8 list" where
  "example_mbr = replicate 0x1BE 0 @ [0, 0, 0, 0, 0x83, 0, 0, 0, 0x10, 0, 0, 0, 0, 0x10, 0, 0] @ replicate 50 0"


lemma scan_example:
  "scan sector_disk \<lparr>vol_start = 0, vol_sectors = 100\<rparr> [example_mbr] =
     Some ([\<lparr>part_volume = \<lparr>vol_start = 16, vol_sectors = 84\<rparr>, part_kind = Linux\<rparr>], [example_mbr])"
  by code_simp

theorem scan_extents_witness:
  "unat (16 :: u64) + unat (84 :: u64) \<le> unat (disk_sectors sector_disk [example_mbr])"
proof -
  have "stable_capacity sector_disk" by (simp add: stable_capacity_def sector_disk_def)
  from scan_extents [OF this scan_example] show ?thesis by simp
qed


end
