(* ===== verification/BootDisk.thy ===== *)
theory BootDisk
  imports Multiboot Overlay Cache Partition
begin

text \<open>
  The disk stack of a boot module (\<^verbatim>\<open>mount_modules\<close> in \<^verbatim>\<open>kernel/src/multiboot.rs\<close>): the module disk,
  a volatile overlay over it, the whole of that as a volume, a cache over the volume and the whole
  of the cache as the volume the filesystem reads and writes through.
\<close>

section \<open>The stack\<close>

type_synonym boot_disk = "module_disk_state ram_overlay cached_disk"

abbreviation overlaid_module :: "module_disk_state ram_overlay disk_ops" where
  "overlaid_module \<equiv> overlay_disk module_disk"

definition boot_volume_ops :: "module_disk_state \<Rightarrow> boot_disk disk_ops" where
  "boot_volume_ops m = cache_volume_ops (volume_whole overlaid_module (overlay_wrap m)) overlaid_module"

definition boot_volume :: "module_disk_state \<Rightarrow> volume \<times> boot_disk" where
  "boot_volume m =
     (let disk = overlay_wrap m
      in cache_volume (volume_whole overlaid_module disk) overlaid_module disk)"

section \<open>The contracts along the stack\<close>

text \<open>The module under the stack stays the same module: its disk has no state to change.\<close>

abbreviation this_module :: "module_disk_state \<Rightarrow> module_disk_state \<Rightarrow> bool" where
  "this_module m \<equiv> \<lambda>d. d = m \<and> module_inv d"

lemma module_reader_at:
  "disk_reader module_disk (this_module m) module_bytes (\<lambda>n. n mod 512 = 0)"
proof
  fix d and buf :: "u8 list" and lba :: u64
  assume d: "d = m \<and> module_inv d" and "length buf mod 512 = 0" "length buf < 2 ^ 31"
    and "unat lba * 512 + length buf \<le> unat (disk_sectors module_disk d) * 512"
  then obtain d' where "disk_read module_disk d lba buf = Some (of_nat (div_ceil (length buf) 512),
      bytes_at (module_bytes d) (unat lba * 512) (length buf), d')"
    using module.read_inside [of d buf lba] by auto
  moreover from this have "d' = d"
    by (auto simp: module_disk_def module_read_def Let_def split: if_splits option.splits)
  ultimately show "\<exists>d'. disk_read module_disk d lba buf = Some (of_nat (div_ceil (length buf) 512),
      bytes_at (module_bytes d) (unat lba * 512) (length buf), d') \<and>
      (d' = m \<and> module_inv d') \<and> module_bytes d' = module_bytes d \<and>
      disk_sectors module_disk d' = disk_sectors module_disk d"
    using d by auto
qed (use module.capacity in auto)

interpretation mod_at: disk_reader module_disk "this_module m" module_bytes "\<lambda>n. n mod 512 = 0"
  for m
  by (rule module_reader_at)

interpretation ovm: disk_writer "overlay_disk module_disk" "overlay_inv (this_module m)"
    "overlay_bytes module_bytes" "\<lambda>n. n mod 512 = 0"
  for m
  by (rule mod_at.overlay_disk_writer)

abbreviation on_overlay :: "module_disk_state \<Rightarrow> volume \<Rightarrow> module_disk_state ram_overlay \<Rightarrow> bool" where
  "on_overlay m v \<equiv> \<lambda>d. overlay_inv (this_module m) d \<and> volume_on overlaid_module d v"

abbreviation overlay_volume_bytes :: "volume \<Rightarrow> module_disk_state ram_overlay \<Rightarrow> nat \<Rightarrow> u8" where
  "overlay_volume_bytes \<equiv> volume_bytes (overlay_bytes module_bytes)"

interpretation ovol: disk_writer "volume_disk v (overlay_disk module_disk)" "on_overlay m v"
    "overlay_volume_bytes v" "\<lambda>n. n mod 512 = 0"
  for m v
  by (rule ovm.volume_disk_writer)

interpretation cvol: disk_writer "cached_ops (volume_disk v (overlay_disk module_disk))"
    "cached_inv (volume_disk v (overlay_disk module_disk)) (on_overlay m v) (overlay_volume_bytes v)"
    "\<lambda>c. overlay_volume_bytes v (cd_inner c)" "\<lambda>_. True"
  for m v
  by (rule ovol.cached_disk_writer)

section \<open>The mounted module behaves as a flat disk\<close>

lemma boot_volume_eq:
  "boot_volume m = (\<lparr>vol_start = 0, vol_sectors = module_sectors m\<rparr>, cache_wrap (overlay_wrap m))"
  by (simp add: boot_volume_def cache_volume_def Let_def volume_whole_def cache_volume_ops_def cached_ops_def
      volume_disk_def overlay_disk_def module_disk_def cache_wrap_def overlay_wrap_def)

text \<open>
  C2.  The volume a boot module is mounted through refines a flat array of bytes: for every
  sequence of reads and writes, at any sector and of any length a buffer can have, none panics,
  every read returns the bytes last written or else the module's own, with zeros beyond its end,
  every count returned is that of the flat disk, and the module itself is never changed.
\<close>

theorem boot_volume_refines_flat:
  assumes "module_inv m" "boot_volume m = (v, c)" "list_all vol_op_short ops"
  shows "\<exists>c'. run_volume (boot_volume_ops m) v c ops =
           Some (fst (run_flat (unat (module_sectors m)) (module_bytes m) ops), c')
         \<and> ov_inner (cd_inner c') = m"
proof -
  have vc: "v = \<lparr>vol_start = 0, vol_sectors = module_sectors m\<rparr>" "c = cache_wrap (overlay_wrap m)"
    using assms(2) by (auto simp: boot_volume_eq)
  let ?D = "cached_ops (volume_disk v overlaid_module)"
  let ?inv = "cached_inv (volume_disk v overlaid_module) (on_overlay m v) (overlay_volume_bytes v)"
  have w: "volume_whole overlaid_module (overlay_wrap m) = v"
    by (simp add: vc volume_whole_def overlay_disk_def module_disk_def overlay_wrap_def)
  then have D: "boot_volume_ops m = ?D"
    by (simp add: boot_volume_ops_def cache_volume_ops_def)
  have "on_overlay m v (overlay_wrap m)"
    using mod_at.overlay_wrap_inv [of m m] assms(1) volume_whole_on [of overlaid_module "overlay_wrap m"] w by simp
  then have c: "?inv c"
    unfolding vc(2) by (rule ovol.cache_wrap_inv)
  have on: "volume_on ?D c v"
    by (simp add: volume_on_def cached_ops_def volume_disk_def vc)
  have B: "volume_bytes (\<lambda>c. overlay_volume_bytes v (cd_inner c)) v c = module_bytes m"
    using mod_at.overlay_wrap_bytes [of m] by (simp add: volume_bytes_def vc cache_wrap_def)
  obtain c' where "run_volume (boot_volume_ops m) v c ops =
      Some (fst (run_flat (unat (module_sectors m)) (module_bytes m) ops), c')" and "?inv c'"
    unfolding D using cvol.run_volume_flat [OF _ c on assms(3)] B by (auto simp: vc(1))
  then show ?thesis by (auto simp: cached_inv_def overlay_inv_def)
qed

definition example_module :: module_disk_state where
  "example_module = \<lparr>md_physical_start = 0x1000, md_len = 512, md_read_physical = (\<lambda>_ n. Some (replicate n 7))\<rparr>"

theorem boot_volume_refines_flat_witness:
  "\<exists>v c c'. boot_volume example_module = (v, c) \<and>
     run_volume (boot_volume_ops example_module) v c [VWrite 0 [1, 2], VRead 0 [0, 0, 0]] =
       Some ([WriteOut 1, ReadOut 1 [1, 2, 7]], c')"
proof -
  have byte: "phys_byte example_module a = 7" for a
    by (simp add: phys_byte_def example_module_def)
  have inv: "module_inv example_module"
    by (auto simp: module_inv_def example_module_def [THEN arg_cong, of md_read_physical]
        example_module_def [THEN arg_cong, of md_len] example_module_def [THEN arg_cong, of md_physical_start]
        byte intro!: nth_equalityI)
  have sectors: "unat (module_sectors example_module) = 1"
    by (simp add: unat_module_sectors example_module_def)
  have bytes: "module_bytes example_module = (\<lambda>_. 7)"
    by (rule ext) (simp add: module_bytes_def byte)
  have "fst (run_flat 1 (\<lambda>_. 7) [VWrite 0 [1, 2], VRead 0 [0, 0, 0]]) = [WriteOut 1, ReadOut 1 [1, 2, 7]]"
    by (simp add: flat_write_def flat_read_def flat_inside_def div_ceil_def bytes_at_def store_bytes_def
        upt_rec Let_def)
  then show ?thesis
    using boot_volume_refines_flat [OF inv, of _ _ "[VWrite 0 [1, 2], VRead 0 [0, 0, 0]]"]
    by (cases "boot_volume example_module") (auto simp: sectors bytes)
qed

end
