(* ===== verification/Heap.thy ===== *)
theory Heap
  imports Prelude
begin

text \<open>
  The kernel heap (\<^verbatim>\<open>lib/src/heap.rs\<close>): a first-fit allocator over an address-ordered free list in
  a demand-paged window.  The linked list of headers is a list of (address, size) pairs; addresses
  and sizes keep the 32-bit width of \<open>usize\<close>.  A null result is \<open>None\<close>.

  The central invariant counts owners: every byte of the window belongs to at most one block, free
  or allocated.  On the target a header is 8 bytes, aligned to 4.
\<close>

section \<open>Blocks and state\<close>

type_synonym block = "usize \<times> usize"

definition HEAP_PAGE_SIZE :: usize where [simp]: "HEAP_PAGE_SIZE = 4096"
definition MIN_BLOCK_SIZE :: usize where [simp]: "MIN_BLOCK_SIZE = 8"
definition HEADER_ALIGN :: usize where [simp]: "HEADER_ALIGN = 4"

definition align_up :: "usize \<Rightarrow> usize \<Rightarrow> usize" where
  "align_up val align = (val + align - 1) AND NOT (align - 1)"

record heap =
  head :: "block list"
  mapped_end :: usize
  heap_end :: usize
  large_allocs :: u32
  large_frees :: u32
  large_reuse :: u32
  allocations :: u32
  deallocations :: u32

definition heap_new :: heap where
  "heap_new = \<lparr>head = [], mapped_end = 0, heap_end = 0, large_allocs = 0, large_frees = 0,
               large_reuse = 0, allocations = 0, deallocations = 0\<rparr>"

definition heap_init :: "heap \<Rightarrow> usize \<Rightarrow> usize \<Rightarrow> heap" where
  "heap_init h base fin = h\<lparr>head := [], mapped_end := base, heap_end := fin\<rparr>"

definition allocation_counts :: "heap \<Rightarrow> u32 \<times> u32" where
  "allocation_counts h = (allocations h, deallocations h)"

section \<open>The free list\<close>

text \<open>Coalescing of the block just inserted with its successor.\<close>
fun coalesce_next :: "block list \<Rightarrow> block list" where
  "coalesce_next ((a, s) # (b, t) # rest) =
     (if a + s = b then (a, s + t) # rest else (a, s) # (b, t) # rest)" |
  "coalesce_next l = l"

text \<open>The second traversal: the block at \<open>addr\<close> and the one before it.\<close>
fun coalesce_prev :: "usize \<Rightarrow> block list \<Rightarrow> block list" where
  "coalesce_prev addr ((p, ps) # (b, t) # rest) =
     (if p = addr then (p, ps) # (b, t) # rest
      else if b = addr
      then (if p + ps = addr then (p, ps + t) # rest else (p, ps) # (b, t) # rest)
      else (p, ps) # coalesce_prev addr ((b, t) # rest))" |
  "coalesce_prev addr l = l"

definition add_free_region :: "usize \<Rightarrow> usize \<Rightarrow> block list \<Rightarrow> block list" where
  "add_free_region addr sz l =
     (if sz < MIN_BLOCK_SIZE then l
      else let before = takeWhile (\<lambda>(b, _). \<not> addr < b) l;
               after = dropWhile (\<lambda>(b, _). \<not> addr < b) l
           in coalesce_prev addr (before @ coalesce_next ((addr, sz) # after)))"

fun alloc_from_list :: "usize \<Rightarrow> usize \<Rightarrow> block list \<Rightarrow> (usize \<times> block list) option" where
  "alloc_from_list sz align [] = None" |
  "alloc_from_list sz align ((a, bs) # rest) =
     (let aligned_addr = align_up a align;
          padding = aligned_addr - a;
          total_needed = padding + sz
      in if total_needed \<le> bs
         then if MIN_BLOCK_SIZE \<le> padding
              then let remainder_addr = aligned_addr + sz; remainder_size = bs - total_needed
                   in Some (aligned_addr, (a, padding) #
                        (if MIN_BLOCK_SIZE \<le> remainder_size then (remainder_addr, remainder_size) # rest else rest))
              else if 0 < padding
              then let actual_size = sz + padding; remainder_size = bs - actual_size
                   in Some (a, if MIN_BLOCK_SIZE \<le> remainder_size
                               then (a + actual_size, remainder_size) # rest else rest)
              else let remainder_addr = aligned_addr + sz; remainder_size = bs - sz
                   in Some (aligned_addr, if MIN_BLOCK_SIZE \<le> remainder_size
                                          then (remainder_addr, remainder_size) # rest else rest)
         else map_option (\<lambda>(p, l). (p, (a, bs) # l)) (alloc_from_list sz align rest))"

section \<open>Growing the heap\<close>

text \<open>The loop of \<^verbatim>\<open>extend_heap\<close>: pages still wanted, and the pages claimed.\<close>
fun extend_pages :: "nat \<Rightarrow> usize \<Rightarrow> usize \<Rightarrow> nat \<Rightarrow> usize \<times> nat" where
  "extend_pages 0 m e got = (m, got)" |
  "extend_pages (Suc n) m e got =
     (if e \<le> m then (m, got) else extend_pages n (m + HEAP_PAGE_SIZE) e (Suc got))"

definition extend_heap :: "heap \<Rightarrow> usize \<Rightarrow> bool \<times> heap" where
  "extend_heap h min_size =
     (let pages_needed = max (div_ceil (unat min_size) 4096) 4;
          region_start = mapped_end h;
          (m, region_pages) = extend_pages pages_needed (mapped_end h) (heap_end h) 0;
          h = h\<lparr>mapped_end := m\<rparr>;
          h = (if 0 < region_pages
               then h\<lparr>head := add_free_region region_start (of_nat region_pages * HEAP_PAGE_SIZE) (head h)\<rparr>
               else h)
      in (pages_needed \<le> region_pages, h))"

section \<open>The global allocator\<close>

definition block_size :: "usize \<Rightarrow> usize" where
  "block_size sz = align_up (max sz MIN_BLOCK_SIZE) HEADER_ALIGN"

definition heap_alloc :: "heap \<Rightarrow> usize \<Rightarrow> usize \<Rightarrow> usize option \<times> heap" where
  "heap_alloc h layout_size layout_align =
     (let sz = block_size layout_size;
          align = max layout_align HEADER_ALIGN
      in case alloc_from_list sz align (head h) of
           Some (p, l) \<Rightarrow>
             (Some p, h\<lparr>head := l, large_reuse := large_reuse h + (if 100000 \<le> sz then 1 else 0),
                        allocations := allocations h + 1\<rparr>)
         | None \<Rightarrow>
             let h = h\<lparr>large_allocs := large_allocs h + (if 100000 \<le> sz then 1 else 0)\<rparr>
             in case extend_heap h (sz + align) of
                  (False, h) \<Rightarrow> (None, h)
                | (True, h) \<Rightarrow>
                    case alloc_from_list sz align (head h) of
                      None \<Rightarrow> (None, h)
                    | Some (p, l) \<Rightarrow>
                        let h = h\<lparr>head := l\<rparr>
                        in if p \<noteq> 0 then (Some p, h\<lparr>allocations := allocations h + 1\<rparr>) else (None, h))"

definition heap_dealloc :: "heap \<Rightarrow> usize \<Rightarrow> usize \<Rightarrow> heap" where
  "heap_dealloc h ptr layout_size =
     (let sz = block_size layout_size
      in h\<lparr>large_frees := large_frees h + (if 100000 \<le> sz then 1 else 0),
           deallocations := deallocations h + 1,
           head := add_free_region ptr sz (head h)\<rparr>)"

section \<open>Owners of a byte\<close>

definition owns :: "nat \<Rightarrow> block \<Rightarrow> bool" where
  "owns i = (\<lambda>(a, s). unat a \<le> i \<and> i < unat a + unat s)"

definition owners :: "block list \<Rightarrow> nat \<Rightarrow> nat" where
  "owners l i = length (filter (owns i) l)"

definition inside :: "nat \<Rightarrow> nat \<Rightarrow> block \<Rightarrow> bool" where
  "inside lo hi = (\<lambda>(a, s). lo \<le> unat a \<and> unat a + unat s \<le> hi)"

lemma owners_simps [simp]:
  "owners [] i = 0"
  "owners (b # l) i = (if owns i b then 1 else 0) + owners l i"
  "owners (l @ l') i = owners l i + owners l' i"
  by (simp_all add: owners_def)

lemma inside_mono: "list_all (inside lo hi) l \<Longrightarrow> hi \<le> hi' \<Longrightarrow> list_all (inside lo hi') l"
  by (auto simp: list_all_iff inside_def)

lemma owners_outside: "list_all (inside lo hi) l \<Longrightarrow> hi \<le> i \<Longrightarrow> owners l i = 0"
  by (auto simp: owners_def list_all_iff inside_def owns_def filter_empty_conv)

lemma owners_pos: "b \<in> set l \<Longrightarrow> owns i b \<Longrightarrow> 0 < owners l i"
  by (auto simp: owners_def filter_empty_conv)

text \<open>Two adjacent blocks and their union.\<close>

lemma merge_blocks:
  assumes "inside lo hi (a, s)" "inside lo hi (b, t)" "a + s = b" "hi < 2 ^ 32"
  shows "inside lo hi (a, s + t)"
    and "(if owns i (a, s + t) then 1 else 0) = (if owns i (a, s) then 1 else 0) + (if owns i (b, t) then 1 else (0::nat))"
proof -
  have b: "unat b = unat a + unat s"
    using assms by (auto simp: inside_def unat_word_ariths)
  have "unat s + unat t < 2 ^ 32" using assms(2,4) b by (simp add: inside_def)
  then have st: "unat (s + t) = unat s + unat t" by (simp add: unat_word_ariths)
  show "inside lo hi (a, s + t)" using assms(1,2) b st by (simp add: inside_def)
  show "(if owns i (a, s + t) then 1 else 0) = (if owns i (a, s) then 1 else 0) + (if owns i (b, t) then 1 else (0::nat))"
    using b st by (auto simp: owns_def)
qed

lemma coalesce_next_owners:
  assumes "list_all (inside lo hi) l" "hi < 2 ^ 32"
  shows "list_all (inside lo hi) (coalesce_next l) \<and> owners (coalesce_next l) i = owners l i"
  using assms merge_blocks [of lo hi] by (cases l rule: coalesce_next.cases) auto

lemma coalesce_prev_owners:
  assumes "list_all (inside lo hi) l" "hi < 2 ^ 32"
  shows "list_all (inside lo hi) (coalesce_prev addr l) \<and> owners (coalesce_prev addr l) i = owners l i"
  using assms(1)
proof (induction addr l rule: coalesce_prev.induct)
  case (1 addr p ps b t rest)
  then show ?case using merge_blocks [OF _ _ _ assms(2), of lo p ps b t] by auto
qed auto

lemma add_free_region_owners:
  assumes "list_all (inside lo hi) l" "inside lo hi (addr, sz)" "hi < 2 ^ 32" "MIN_BLOCK_SIZE \<le> sz"
  shows "list_all (inside lo hi) (add_free_region addr sz l)"
    and "owners (add_free_region addr sz l) i = (if owns i (addr, sz) then 1 else 0) + owners l i"
proof -
  let ?P = "\<lambda>(b, _). \<not> addr < b"
  let ?before = "takeWhile ?P l" and ?after = "dropWhile ?P l"
  have parts: "list_all (inside lo hi) ?before" "list_all (inside lo hi) ?after"
    using assms(1) unfolding list_all_iff by (blast dest: set_takeWhileD set_dropWhileD)+
  have "list_all (inside lo hi) ((addr, sz) # ?after)" using parts assms(2) by simp
  note succ = coalesce_next_owners [OF this assms(3)]
  have "list_all (inside lo hi) (?before @ coalesce_next ((addr, sz) # ?after))"
    using parts succ by simp
  note pred = coalesce_prev_owners [OF this assms(3), of addr]
  have sum: "owners ?before i + owners ?after i = owners l i"
    using owners_simps(3) [of ?before ?after i] by (simp only: takeWhile_dropWhile_id)
  have eq: "add_free_region addr sz l = coalesce_prev addr (?before @ coalesce_next ((addr, sz) # ?after))"
  proof -
    have "\<not> sz < MIN_BLOCK_SIZE" using assms(4) by simp
    then show ?thesis unfolding add_free_region_def Let_def by (rule if_not_P)
  qed
  show "list_all (inside lo hi) (add_free_region addr sz l)" unfolding eq using pred by blast
  show "owners (add_free_region addr sz l) i = (if owns i (addr, sz) then 1 else 0) + owners l i"
    unfolding eq using pred [of i] succ [of i] sum by simp
qed

section \<open>Taking a block off the list\<close>

text \<open>A layout the language admits: a power of two and a size that stays below \<open>isize::MAX\<close> when rounded up to it.\<close>

definition layout_ok :: "usize \<Rightarrow> usize \<Rightarrow> bool" where
  "layout_ok sz align \<longleftrightarrow> (\<exists>k < 31. align = 2 ^ k) \<and> unat sz + unat align \<le> 2 ^ 31"

lemma and_plus_and_not: "(x AND m) + (x AND NOT m) = (x :: 'a::len word)"
proof -
  have "(x AND m) + (x AND NOT m) = (x AND m) OR (x AND NOT m)"
    by (rule disjunctive_add) (simp add: bit_simps)
  also have "\<dots> = x" by (rule bit_word_eqI) (auto simp: bit_simps)
  finally show ?thesis .
qed

lemma padding_less:
  assumes "k < 32"
  shows "unat (align_up a (2 ^ k) - a) < 2 ^ k"
proof -
  let ?m = "mask k :: usize"
  have "align_up a (2 ^ k) = (a + ?m) AND NOT ?m"
    unfolding align_up_def mask_eq_exp_minus_1 by (simp add: add_diff_eq)
  also have "\<dots> = (a + ?m) - ((a + ?m) AND ?m)"
    using and_plus_and_not [of "a + ?m" ?m] by (metis add_diff_cancel_left')
  finally have eq: "align_up a (2 ^ k) - a = ?m - ((a + ?m) AND ?m)" by simp
  have "(a + ?m) AND ?m \<le> ?m" by (rule word_and_le1)
  then have "unat (?m - ((a + ?m) AND ?m)) \<le> unat ?m" by (simp add: unat_sub)
  moreover have "unat ?m < 2 ^ k"
    unfolding take_bit_minus_one_eq_mask [symmetric] unsigned_take_bit_eq by (rule take_bit_nat_less_exp)
  ultimately show ?thesis unfolding eq by linarith
qed

lemma split_block:
  assumes "inside lo hi (a, bs)" "hi < 2 ^ 32" "unat padding + unat sz < 2 ^ 32" "padding + sz \<le> bs"
  shows "unat (a + padding) = unat a + unat padding"
    and "unat (a + padding + sz) = unat a + unat padding + unat sz"
    and "unat (bs - (padding + sz)) = unat bs - (unat padding + unat sz)"
    and "unat padding + unat sz \<le> unat bs"
proof -
  have total: "unat (padding + sz) = unat padding + unat sz"
    using assms(3) by (simp add: unat_word_ariths)
  then show le: "unat padding + unat sz \<le> unat bs" using assms(4) by (simp add: word_le_nat_alt)
  show "unat (bs - (padding + sz)) = unat bs - (unat padding + unat sz)"
    using assms(4) total by (simp add: unat_sub)
  have "unat a + unat padding + unat sz < 2 ^ 32" using assms(1,2) le by (simp add: inside_def)
  then show "unat (a + padding) = unat a + unat padding"
    and "unat (a + padding + sz) = unat a + unat padding + unat sz"
    by (simp_all add: unat_word_ariths)
qed

lemma alloc_from_list_owners:
  assumes "list_all (inside lo hi) l" "hi < 2 ^ 32" "k < 32" "unat sz + 2 ^ k \<le> 2 ^ 32"
    and "alloc_from_list sz (2 ^ k) l = Some (p, l')"
  shows "list_all (inside lo hi) l' \<and> inside lo hi (p, sz) \<and>
    (\<forall>i. owners l' i + (if owns i (p, sz) then 1 else 0) \<le> owners l i)"
  using assms(1,5)
proof (induction l arbitrary: p l')
  case (Cons b rest)
  obtain a bs where b: "b = (a, bs)" by (cases b)
  define padding where "padding = align_up a (2 ^ k) - a"
  have aligned: "align_up a (2 ^ k) = a + padding" by (simp add: padding_def)
  have pad: "unat padding + unat sz < 2 ^ 32"
    using padding_less [OF assms(3), of a] assms(4) by (simp add: padding_def)
  have ab: "inside lo hi (a, bs)" using Cons.prems(1) by (simp add: b)
  show ?case
  proof (cases "padding + sz \<le> bs")
    case True
    note sb = split_block [OF ab assms(2) pad True]
    have comm: "sz + padding = padding + sz" by (rule add.commute)
    show ?thesis
    proof (cases "MIN_BLOCK_SIZE \<le> padding \<or> padding = 0")
      case large: True
      then show ?thesis
        using Cons.prems True ab sb
        by (auto simp: b aligned Let_def padding_def [symmetric] inside_def owns_def split: if_splits)
    next
      case small: False
      show ?thesis
        using Cons.prems True ab sb sb(2) [unfolded add.assoc] small
        by (auto simp: b aligned Let_def comm inside_def owns_def word_gt_0 split: if_splits)
    qed
  next
    case False
    then obtain l1 where "alloc_from_list sz (2 ^ k) rest = Some (p, l1)" "l' = (a, bs) # l1"
      using Cons.prems(2) by (auto simp: b aligned Let_def split: if_splits)
    then show ?thesis
      using Cons.IH [of p l1] Cons.prems(1) by (auto simp: b)
  qed
qed simp

section \<open>Sizes\<close>

lemma unat_two_exp: "k < 32 \<Longrightarrow> unat (2 ^ k :: usize) = 2 ^ k"
  using unat_of_nat_small [where 'a = 32, of "2 ^ k"] power_strict_increasing [of k 32 "2 :: nat"] by simp

lemma block_size_bounds:
  assumes "unat sz \<le> 2 ^ 31"
  shows "MIN_BLOCK_SIZE \<le> block_size sz" "unat sz \<le> unat (block_size sz)"
    and "unat (block_size sz) \<le> max (unat sz) 8 + 3"
proof -
  define v where "v = max sz MIN_BLOCK_SIZE"
  define padding where "padding = align_up v (2 ^ 2) - v"
  have v: "unat v = max (unat sz) 8" by (simp add: v_def max_def word_le_nat_alt)
  have "unat padding < 4" using padding_less [of 2 v] by (simp add: padding_def)
  moreover have "block_size sz = v + padding"
    unfolding block_size_def v_def [symmetric] padding_def by simp
  moreover from this v assms \<open>unat padding < 4\<close> have "unat (block_size sz) = unat v + unat padding"
    by (simp add: unat_word_ariths)
  ultimately show "MIN_BLOCK_SIZE \<le> block_size sz" "unat sz \<le> unat (block_size sz)"
    and "unat (block_size sz) \<le> max (unat sz) 8 + 3"
    using v by (simp_all add: word_le_nat_alt)
qed

lemma layout_align:
  assumes "layout_ok sz align"
  obtains k where "k < 31" "max align HEADER_ALIGN = 2 ^ k" "unat (block_size sz) + 2 ^ k + 8 \<le> 2 ^ 32"
proof -
  obtain j where j: "j < 31" "align = 2 ^ j" "unat sz + unat align \<le> 2 ^ 31"
    using assms by (auto simp: layout_ok_def)
  define k where "k = max j 2"
  have "max align HEADER_ALIGN = 2 ^ k"
  proof (cases "2 \<le> j")
    case True
    then have "(2 :: nat) ^ 2 \<le> 2 ^ j" by (rule power_increasing) simp
    then have "(4 :: usize) \<le> 2 ^ j" using j(1) by (simp add: word_le_nat_alt unat_two_exp)
    then show ?thesis using True j by (simp add: k_def max_def)
  next
    case False
    then have "j = 0 \<or> j = 1" by auto
    then show ?thesis using j by (auto simp: k_def max_def)
  qed
  moreover have "(2 :: nat) ^ k \<le> 2 ^ 30" using j(1) by (intro power_increasing) (auto simp: k_def)
  moreover have "unat (block_size sz) \<le> max (unat sz) 8 + 3" using j(3) block_size_bounds(3) [of sz] by simp
  moreover have "k < 31" using j(1) by (simp add: k_def)
  ultimately show thesis using j(3) by (intro that) auto
qed

section \<open>The invariant\<close>

text \<open>The client's view: pointers it holds, with the layout size it asked for.\<close>

definition live_blocks :: "(usize \<times> usize) list \<Rightarrow> block list" where
  "live_blocks live = map (\<lambda>(p, sz). (p, block_size sz)) live"

definition heap_inv :: "nat \<Rightarrow> heap \<Rightarrow> (usize \<times> usize) list \<Rightarrow> bool" where
  "heap_inv base h live \<longleftrightarrow> unat (heap_end h) + 4096 \<le> 2 ^ 32 \<and> base \<le> unat (mapped_end h) \<and>
     list_all (inside base (unat (mapped_end h))) (head h @ live_blocks live) \<and>
     list_all (\<lambda>(_, sz). unat sz \<le> 2 ^ 31) live \<and>
     (\<forall>i. owners (head h @ live_blocks live) i \<le> 1)"

lemma extend_pages_exact:
  assumes "unat e + 4096 \<le> 2 ^ 32" "extend_pages n m e got = (m', got')"
  shows "got \<le> got' \<and> unat m' = unat m + (got' - got) * 4096"
  using assms
proof (induction n m e got rule: extend_pages.induct)
  case (2 n m e got)
  show ?case
  proof (cases "e \<le> m")
    case False
    then have "unat m < unat e" by (simp add: word_less_nat_alt [symmetric])
    with 2(2) have "unat m + 4096 < 2 ^ 32" by linarith
    then have "unat (m + 4096) = unat m + 4096" by (simp add: unat_word_ariths)
    with 2 False show ?thesis by (auto simp: Suc_diff_le)
  qed (use 2 in simp)
qed simp

lemma extend_heap_inv:
  assumes "heap_inv base h live" "extend_heap h n = (b, h')"
  shows "heap_inv base h' live"
proof -
  let ?pages = "max (div_ceil (unat n) 4096) 4"
  obtain m g where mg: "extend_pages ?pages (mapped_end h) (heap_end h) 0 = (m, g)"
    by (cases "extend_pages ?pages (mapped_end h) (heap_end h) 0")
  have inv: "unat (heap_end h) + 4096 \<le> 2 ^ 32" "base \<le> unat (mapped_end h)"
    "list_all (inside base (unat (mapped_end h))) (head h @ live_blocks live)"
    "list_all (\<lambda>(_, sz). unat sz \<le> 2 ^ 31) live" "\<And>i. owners (head h @ live_blocks live) i \<le> 1"
    using assms(1) by (auto simp: heap_inv_def)
  have m: "unat m = unat (mapped_end h) + g * 4096"
    using extend_pages_exact [OF inv(1) mg] by simp
  let ?new = "(mapped_end h, of_nat g * HEAP_PAGE_SIZE) :: block"
  have "g * 4096 < 2 ^ 32" using m unat_u32_less [of m] by simp
  then have size: "unat (snd ?new) = g * 4096"
    by (simp add: unat_word_ariths unsigned_of_nat take_bit_eq_mod)
  have old: "list_all (inside base (unat m)) (head h @ live_blocks live)"
    by (rule inside_mono [OF inv(3)]) (simp add: m)
  show ?thesis
  proof (cases "g = 0")
    case True
    then have "h' = h\<lparr>mapped_end := m\<rparr>"
      using assms(2) mg by (simp add: extend_heap_def Let_def)
    then show ?thesis using inv old m True by (simp add: heap_inv_def)
  next
    case False
    have in_new: "inside base (unat m) ?new" using inv(2) m size by (simp add: inside_def)
    have min: "MIN_BLOCK_SIZE \<le> of_nat g * HEAP_PAGE_SIZE" using False size by (simp add: word_le_nat_alt)
    have hi: "unat m < 2 ^ 32" using unat_u32_less [of m] by simp
    have "list_all (inside base (unat m)) (head h)" using old by simp
    note add = add_free_region_owners [OF this in_new hi min]
    have h': "h' = h\<lparr>mapped_end := m, head := add_free_region (fst ?new) (snd ?new) (head h)\<rparr>"
      using assms(2) mg False by (simp add: extend_heap_def Let_def)
    have "owners (head h @ live_blocks live) i = 0" if "owns i ?new" for i
      using that by (intro owners_outside [OF inv(3)]) (simp add: owns_def)
    then have "owners (head h' @ live_blocks live) i \<le> 1" for i
      using add(2) [of i] inv(5) [of i] by (auto simp: h')
    then show ?thesis
      using add(1) old inv m by (simp add: heap_inv_def h')
  qed
qed

text \<open>A step of the free list that gives up a block keeps the invariant with the block live.\<close>

lemma take_block_inv:
  assumes "heap_inv base h live" "layout_ok sz align"
    and "alloc_from_list (block_size sz) (max align HEADER_ALIGN) (head h) = Some (p, l)"
    and "h' = h\<lparr>head := l, large_reuse := x, allocations := y\<rparr>"
  shows "heap_inv base h' ((p, sz) # live)"
proof -
  obtain k where k: "k < 31" "max align HEADER_ALIGN = 2 ^ k" "unat (block_size sz) + 2 ^ k + 8 \<le> 2 ^ 32"
    by (rule layout_align [OF assms(2)])
  have hi: "unat (mapped_end h) < 2 ^ 32" using unat_u32_less [of "mapped_end h"] by simp
  have "list_all (inside base (unat (mapped_end h))) (head h)" using assms(1) by (simp add: heap_inv_def)
  with alloc_from_list_owners [OF this hi _ _ assms(3) [unfolded k(2)]] k
  have l: "list_all (inside base (unat (mapped_end h))) l" "inside base (unat (mapped_end h)) (p, block_size sz)"
    "\<And>i. owners l i + (if owns i (p, block_size sz) then 1 else 0) \<le> owners (head h) i"
    by auto
  have "owners (l @ live_blocks ((p, sz) # live)) i \<le> owners (head h @ live_blocks live) i" for i
    using l(3) [of i] by (simp add: live_blocks_def)
  then have "owners (l @ live_blocks ((p, sz) # live)) i \<le> 1" for i
    using assms(1) unfolding heap_inv_def by (meson order_trans)
  moreover have "unat sz \<le> 2 ^ 31" using assms(2) by (simp add: layout_ok_def)
  ultimately show ?thesis
    using assms(1) l(1,2) by (simp add: heap_inv_def assms(4) live_blocks_def)
qed

lemma heap_inv_forget:
  assumes "heap_inv base h (x # live)"
  shows "heap_inv base h live"
proof -
  have "owners (head h @ live_blocks live) i \<le> owners (head h @ live_blocks (x # live)) i" for i
    by (simp add: live_blocks_def)
  then have "owners (head h @ live_blocks live) i \<le> 1" for i
    using assms unfolding heap_inv_def by (meson order_trans)
  with assms show ?thesis
    by (simp add: heap_inv_def live_blocks_def)
qed

lemma heap_alloc_inv:
  assumes inv: "heap_inv base h live" and ok: "layout_ok sz align" and alloc: "heap_alloc h sz align = (r, h')"
  shows "heap_inv base h' (case r of Some p \<Rightarrow> (p, sz) # live | None \<Rightarrow> live)"
proof (cases "alloc_from_list (block_size sz) (max align HEADER_ALIGN) (head h)")
  case (Some pl)
  obtain p l where [simp]: "pl = (p, l)" by (cases pl)
  have "r = Some p" and h': "h' = h\<lparr>head := l, large_reuse := large_reuse h + (if 100000 \<le> block_size sz then 1 else 0),
      allocations := allocations h + 1\<rparr>"
    using alloc Some by (simp_all add: heap_alloc_def Let_def)
  then show ?thesis
    using take_block_inv [OF inv ok Some [unfolded \<open>pl = (p, l)\<close>] h'] by simp
next
  case None
  let ?h0 = "h\<lparr>large_allocs := large_allocs h + (if 100000 \<le> block_size sz then 1 else 0)\<rparr>"
  obtain b h1 where ext: "extend_heap ?h0 (block_size sz + max align HEADER_ALIGN) = (b, h1)"
    by (cases "extend_heap ?h0 (block_size sz + max align HEADER_ALIGN)")
  have "heap_inv base ?h0 live" using inv by (simp add: heap_inv_def)
  then have inv1: "heap_inv base h1 live" by (rule extend_heap_inv [OF _ ext])
  show ?thesis
  proof (cases "alloc_from_list (block_size sz) (max align HEADER_ALIGN) (head h1)")
    case none1: None
    then have "r = None" "h' = h1"
      using alloc None ext by (auto simp: heap_alloc_def Let_def split: bool.splits)
    then show ?thesis using inv1 by simp
  next
    case (Some pl)
    obtain p l where pl: "pl = (p, l)" by (cases pl)
    have taken: "heap_inv base (h1\<lparr>head := l, large_reuse := x, allocations := y\<rparr>) ((p, sz) # live)" for x y
      by (rule take_block_inv [OF inv1 ok Some [unfolded pl] refl])
    then have "heap_inv base (h1\<lparr>head := l, large_reuse := 0, allocations := 0\<rparr>) live"
      by (rule heap_inv_forget)
    then have dropped: "heap_inv base (h1\<lparr>head := l\<rparr>) live" by (simp add: heap_inv_def)
    have kept: "heap_inv base (h1\<lparr>head := l, allocations := y\<rparr>) ((p, sz) # live)" for y
      using taken [of 0 y] by (simp add: heap_inv_def)
    have "b = False \<and> r = None \<and> h' = h1 \<or>
        r = Some p \<and> h' = h1\<lparr>head := l, allocations := allocations h1 + 1\<rparr> \<or>
        r = None \<and> h' = h1\<lparr>head := l\<rparr>"
      using alloc None ext Some pl by (auto simp: heap_alloc_def Let_def split: bool.splits if_splits)
    then show ?thesis
      using inv1 kept dropped by (elim disjE) (simp_all split: option.splits)
  qed
qed

lemma heap_dealloc_inv:
  assumes inv: "heap_inv base h (xs @ (p, sz) # ys)"
  shows "heap_inv base (heap_dealloc h p sz) (xs @ ys)"
proof -
  let ?hi = "unat (mapped_end h)"
  have parts: "list_all (inside base ?hi) (head h)" "inside base ?hi (p, block_size sz)" "unat sz \<le> 2 ^ 31"
    and own: "\<And>i. owners (head h @ live_blocks (xs @ (p, sz) # ys)) i \<le> 1"
    using inv by (auto simp: heap_inv_def live_blocks_def)
  have hi: "?hi < 2 ^ 32" using unat_u32_less [of "mapped_end h"] by simp
  note add = add_free_region_owners [OF parts(1,2) hi block_size_bounds(1) [OF parts(3)]]
  have "owners (add_free_region p (block_size sz) (head h) @ live_blocks (xs @ ys)) i \<le> 1" for i
    using own [of i] add(2) [of i] by (simp add: live_blocks_def)
  then show ?thesis
    using inv add(1) by (simp add: heap_inv_def heap_dealloc_def Let_def live_blocks_def)
qed

section \<open>A client of the allocator\<close>

datatype heap_op = Alloc usize usize | Free nat

fun heap_op_ok :: "heap_op \<Rightarrow> bool" where
  "heap_op_ok (Alloc sz align) = layout_ok sz align" |
  "heap_op_ok (Free _) = True"

text \<open>The client frees only what it holds, with the layout it was allocated with.\<close>

fun heap_step :: "heap \<times> (usize \<times> usize) list \<Rightarrow> heap_op \<Rightarrow> heap \<times> (usize \<times> usize) list" where
  "heap_step (h, live) (Alloc sz align) =
     (case heap_alloc h sz align of
        (Some p, h) \<Rightarrow> (h, (p, sz) # live)
      | (None, h) \<Rightarrow> (h, live))" |
  "heap_step (h, live) (Free i) =
     (if i < length live
      then (heap_dealloc h (fst (live ! i)) (snd (live ! i)), take i live @ drop (Suc i) live)
      else (h, live))"

lemma heap_step_inv:
  assumes "heap_inv base h live" "heap_op_ok op" "heap_step (h, live) op = (h', live')"
  shows "heap_inv base h' live'"
proof (cases op)
  case (Alloc sz align)
  then show ?thesis
    using assms heap_alloc_inv [OF assms(1), of sz align]
    by (cases "heap_alloc h sz align") (force split: option.splits)
next
  case (Free i)
  show ?thesis
  proof (cases "i < length live")
    case True
    then have "live = take i live @ (fst (live ! i), snd (live ! i)) # drop (Suc i) live"
      by (simp add: id_take_nth_drop [symmetric])
    with heap_dealloc_inv assms(1) have
      "heap_inv base (heap_dealloc h (fst (live ! i)) (snd (live ! i))) (take i live @ drop (Suc i) live)"
      by metis
    then show ?thesis using assms(3) Free True by auto
  qed (use assms Free in auto)
qed

lemma heap_run_inv:
  assumes "heap_inv base h live" "list_all heap_op_ok ops" "foldl heap_step (h, live) ops = (h', live')"
  shows "heap_inv base h' live'"
  using assms
proof (induction ops arbitrary: h live)
  case (Cons op ops)
  obtain h1 live1 where "heap_step (h, live) op = (h1, live1)" by (cases "heap_step (h, live) op")
  with Cons.IH [of h1 live1] Cons.prems heap_step_inv [of base h live op h1 live1] show ?case by simp
qed simp

lemma two_owners:
  assumes "i < length l" "j < length l" "i \<noteq> j" "owns b (l ! i)" "owns b (l ! j)"
  shows "2 \<le> owners l b"
proof -
  have "{i, j} \<subseteq> {n. n < length l \<and> owns b (l ! n)}" using assms by auto
  then have "card {i, j} \<le> card {n. n < length l \<and> owns b (l ! n)}" by (rule card_mono [rotated]) simp
  then show ?thesis using assms(3) by (simp add: owners_def length_filter_conv_card)
qed

lemma owns_requested: "unat sz \<le> 2 ^ 31 \<Longrightarrow> owns b (p, sz) \<Longrightarrow> owns b (p, block_size sz)"
  using block_size_bounds(2) [of sz] by (simp add: owns_def)

lemma extend_heap_counts:
  "extend_heap h n = (b, h') \<Longrightarrow> allocations h' = allocations h \<and> deallocations h' = deallocations h"
  by (auto simp: extend_heap_def Let_def split: prod.splits if_splits)

lemma heap_alloc_counts:
  assumes "heap_alloc h sz align = (r, h')"
  shows "allocations h' = allocations h + (if r = None then 0 else 1) \<and> deallocations h' = deallocations h"
proof (cases "alloc_from_list (block_size sz) (max align HEADER_ALIGN) (head h)")
  case None
  let ?h0 = "h\<lparr>large_allocs := large_allocs h + (if 100000 \<le> block_size sz then 1 else 0)\<rparr>"
  obtain b h1 where ext: "extend_heap ?h0 (block_size sz + max align HEADER_ALIGN) = (b, h1)"
    by (cases "extend_heap ?h0 (block_size sz + max align HEADER_ALIGN)")
  then show ?thesis
    using assms None extend_heap_counts [OF ext]
    by (auto simp: heap_alloc_def Let_def split: bool.splits option.splits if_splits)
qed (use assms in \<open>auto simp: heap_alloc_def Let_def\<close>)

lemma heap_step_counts:
  assumes "allocations h - deallocations h = of_nat (length live)" "heap_step (h, live) op = (h', live')"
  shows "allocations h' - deallocations h' = of_nat (length live')"
proof (cases op)
  case (Alloc sz align)
  obtain r h1 where "heap_alloc h sz align = (r, h1)" by (cases "heap_alloc h sz align")
  with Alloc assms heap_alloc_counts [OF this] show ?thesis
    by (cases r) (auto simp: add_diff_eq [symmetric] diff_add_eq)
next
  case (Free i)
  show ?thesis
  proof (cases "i < length live")
    case True
    then have "length live = Suc (length live')" using assms(2) Free by auto
    then show ?thesis using assms Free True by (auto simp: heap_dealloc_def Let_def algebra_simps)
  qed (use assms Free in auto)
qed

lemma heap_run_counts:
  assumes "allocations h - deallocations h = of_nat (length live)" "foldl heap_step (h, live) ops = (h', live')"
  shows "allocations h' - deallocations h' = of_nat (length live')"
  using assms
proof (induction ops arbitrary: h live)
  case (Cons op ops)
  obtain h1 live1 where "heap_step (h, live) op = (h1, live1)" by (cases "heap_step (h, live) op")
  with Cons.IH [of h1 live1] Cons.prems heap_step_counts [of h live op h1 live1] show ?case by simp
qed simp

section \<open>Properties\<close>

text \<open>
  C4.  Memory safety of the heap: whatever a client allocates and frees, with layouts the language
  admits, no byte belongs to two live allocations or to a live allocation and a free block, every
  live allocation lies in the part of the window claimed so far, and the difference of the two
  counters is the number of live allocations.
\<close>

theorem heap_blocks_disjoint:
  assumes "unat fin + 4096 \<le> 2 ^ 32" "list_all heap_op_ok ops"
    and run: "foldl heap_step (heap_init heap_new base fin, []) ops = (h, live)"
  shows "(\<forall>i < length live. \<forall>j < length live. \<forall>b. i \<noteq> j \<longrightarrow> \<not> (owns b (live ! i) \<and> owns b (live ! j)))
    \<and> (\<forall>x \<in> set live. \<forall>y \<in> set (head h). \<forall>b. \<not> (owns b x \<and> owns b y))
    \<and> list_all (inside (unat base) (unat (mapped_end h))) live
    \<and> allocations h - deallocations h = of_nat (length live)"
proof -
  have "heap_inv (unat base) (heap_init heap_new base fin) []"
    using assms(1) by (simp add: heap_inv_def heap_init_def live_blocks_def)
  then have inv: "heap_inv (unat base) h live" by (rule heap_run_inv [OF _ assms(2) run])
  have own: "\<And>b. owners (head h) b + owners (live_blocks live) b \<le> 1"
    and small: "\<And>p sz. (p, sz) \<in> set live \<Longrightarrow> unat sz \<le> 2 ^ 31"
    and ins: "list_all (inside (unat base) (unat (mapped_end h))) (live_blocks live)"
    using inv by (auto simp: heap_inv_def list_all_iff)
  have owns_live: "owns b x \<Longrightarrow> owns b (fst x, block_size (snd x))" if "x \<in> set live" for b x
    using small [of "fst x" "snd x"] that owns_requested [of "snd x" b "fst x"] by simp
  have "\<not> (owns b (live ! i) \<and> owns b (live ! j))" if "i < length live" "j < length live" "i \<noteq> j" for i j b
    using two_owners [of i "live_blocks live" j b] own [of b] that owns_live [of "live ! i" b] owns_live [of "live ! j" b]
    by (auto simp: live_blocks_def case_prod_beta)
  moreover have "\<not> (owns b x \<and> owns b y)" if "x \<in> set live" "y \<in> set (head h)" for x y b
    using owners_pos [of y "head h" b] owners_pos [of "(fst x, block_size (snd x))" "live_blocks live" b]
      own [of b] that owns_live [of x b] by (force simp: live_blocks_def case_prod_beta)
  moreover have "list_all (inside (unat base) (unat (mapped_end h))) live"
    using ins small block_size_bounds(2) by (fastforce simp: list_all_iff live_blocks_def inside_def)
  moreover have "allocations h - deallocations h = of_nat (length live)"
    by (rule heap_run_counts [OF _ run]) (simp add: heap_init_def heap_new_def)
  ultimately show ?thesis by blast
qed


theorem heap_blocks_disjoint_witness:
  "\<forall>b. \<not> (owns b (0x10000C, 8) \<and> owns b (0x100000, 12))"
proof -
  obtain h where run: "foldl heap_step (heap_init heap_new 0x100000 0x200000, []) [Alloc 12 4, Alloc 8 8] =
      (h, [(0x10000C, 8), (0x100000, 12)])"
  proof
    show "foldl heap_step (heap_init heap_new 0x100000 0x200000, []) [Alloc 12 4, Alloc 8 8] =
      (fst (foldl heap_step (heap_init heap_new 0x100000 0x200000, []) [Alloc 12 4, Alloc 8 8]),
       [(0x10000C, 8), (0x100000, 12)])"
      by code_simp
  qed
  have "layout_ok 12 4" "layout_ok 8 8"
    by (auto simp: layout_ok_def intro: exI [of _ 2] exI [of _ 3])
  then have "\<forall>i < length [(0x10000C, 8), (0x100000 :: usize, 12 :: usize)].
      \<forall>j < length [(0x10000C, 8), (0x100000 :: usize, 12 :: usize)]. \<forall>b. i \<noteq> j \<longrightarrow>
        \<not> (owns b ([(0x10000C, 8), (0x100000, 12)] ! i) \<and> owns b ([(0x10000C, 8), (0x100000, 12)] ! j))"
    by (intro heap_blocks_disjoint [OF _ _ run, THEN conjunct1]) simp_all
  from this [rule_format, of 0 1] show ?thesis by simp
qed

end
