(* ===== verification/PhysMM.thy ===== *)
theory PhysMM
  imports Prelude "HOL-Library.Multiset"
begin

text \<open>
  \<^verbatim>\<open>arch-metal/src/phys_mm.rs\<close>: the allocator of physical pages with reference counts.  The static array of
  counts is a function of the page index, read and written only below \<open>MAX_PAGES\<close>; the other statics
  are fields of the record.  The page number of the shared zero page comes from the linker and is an
  argument.  A failed assertion or a panic is \<open>None\<close>.  A page number is 64 bits wide and an index
  32: \<open>page_idx\<close> is the truncation the casts perform.  The search of
  \<^verbatim>\<open>alloc_phys_page\<close> is a loop that need not end, a \<open>partial_function\<close>;
  \<open>alloc_search_spec\<close> shows it ends from every cursor the allocator leaves behind.

  The lemmas tie the counts to the multiset of references the kernel's address spaces hold.
\<close>

section \<open>State\<close>

definition MAX_PAGES :: nat where "MAX_PAGES = 64 * 1024"
definition RESERVED :: u8 where "RESERVED = 255"
definition DMA_MAX_PAGE :: nat where "DMA_MAX_PAGE = 0x1000000 div 4096"
definition DMA_POOL_PAGES :: nat where "DMA_POOL_PAGES = 0x10000 div 4096"
definition DMA_BUF_8BIT_PAGES :: nat where "DMA_BUF_8BIT_PAGES = 0x10000 div 4096"
definition DMA_BUF_16BIT_PAGES :: nat where "DMA_BUF_16BIT_PAGES = 0x20000 div 4096"
definition DMA_BUFS_PAGES :: nat where "DMA_BUFS_PAGES = 4 * DMA_BUF_16BIT_PAGES + 4 * DMA_BUF_8BIT_PAGES"

record phys_mm =
  page_refs :: "nat \<Rightarrow> u8"
  next_free :: nat
  dma_pool_start :: nat
  dma_pool_busy :: bool
  dma_bufs_base :: nat

record mmap_entry =
  mm_size :: u32
  mm_base :: u64
  mm_length :: u64
  mm_typ :: u32

definition page_idx :: "u64 \<Rightarrow> nat" where
  "page_idx page = unat page mod 2 ^ 32"

text \<open>\<^verbatim>\<open>for page in low..high { if page < MAX_PAGES { PAGE_REFS[page] = v } }\<close>\<close>

definition mark_pages :: "u8 \<Rightarrow> nat \<Rightarrow> nat \<Rightarrow> (nat \<Rightarrow> u8) \<Rightarrow> nat \<Rightarrow> u8" where
  "mark_pages v low high refs =
     fold (\<lambda>page f. if page mod 2 ^ 32 < MAX_PAGES then f(page mod 2 ^ 32 := v) else f) [low..<high] refs"

text \<open>\<^verbatim>\<open>iter_mut().skip(start).take(n)\<close>\<close>

definition fill_pages :: "u8 \<Rightarrow> nat \<Rightarrow> nat \<Rightarrow> (nat \<Rightarrow> u8) \<Rightarrow> nat \<Rightarrow> u8" where
  "fill_pages v start n refs = (\<lambda>i. if start \<le> i \<and> i < start + n \<and> i < MAX_PAGES then v else refs i)"

section \<open>Initialisation\<close>

definition mark_available :: "mmap_entry \<Rightarrow> (nat \<Rightarrow> u8) \<Rightarrow> nat \<Rightarrow> u8" where
  "mark_available e refs =
     (if mm_typ e \<noteq> 1 then refs
      else mark_pages 0 (div_ceil (unat (mm_base e)) 4096) (unat ((mm_base e + mm_length e) div 4096)) refs)"

definition init_phys_mm :: "mmap_entry list \<Rightarrow> nat \<Rightarrow> u64 \<Rightarrow> u64 \<Rightarrow> phys_mm \<Rightarrow> phys_mm" where
  "init_phys_mm mmap_entries mmap_count kernel_low kernel_high s =
     (let refs = fill_pages RESERVED 0 MAX_PAGES (page_refs s);
          refs = fold mark_available (take mmap_count mmap_entries) refs;
          refs = fill_pages RESERVED 0 256 refs;
          refs = mark_pages 1 (unat kernel_low) (unat kernel_high) refs
      in s\<lparr>page_refs := refs, next_free := page_idx kernel_high\<rparr>)"

text \<open>One of the two searches of \<^verbatim>\<open>reserve_dma_regions\<close>: an aligned free run of \<open>n\<close> pages below 16 MB.\<close>

function dma_search :: "(nat \<Rightarrow> u8) \<Rightarrow> nat \<Rightarrow> nat \<Rightarrow> nat \<Rightarrow> nat option" where
  "dma_search refs n align p =
     (if p + n \<le> min DMA_MAX_PAGE MAX_PAGES
      then if align = 0 \<or> p mod align \<noteq> 0 then dma_search refs n align (p + 1)
           else if \<forall>i\<in>set [p..<p + n]. refs i = 0 then Some p
           else dma_search refs n align (p + align)
      else None)"
  by pat_completeness auto
termination
  by (relation "measure (\<lambda>(refs, n, align, p). Suc (min DMA_MAX_PAGE MAX_PAGES) - p)") auto

text \<open>The run is reserved and its first page recorded, 0 when there is none.\<close>

definition carve :: "nat \<Rightarrow> nat \<Rightarrow> (nat \<Rightarrow> u8) \<Rightarrow> nat \<times> (nat \<Rightarrow> u8)" where
  "carve n align refs =
     (case dma_search refs n align 256 of None \<Rightarrow> (0, refs) | Some p \<Rightarrow> (p, fill_pages RESERVED p n refs))"

definition reserve_dma_regions :: "phys_mm \<Rightarrow> phys_mm" where
  "reserve_dma_regions s =
     (let (pool, refs) = carve DMA_POOL_PAGES DMA_POOL_PAGES (page_refs s);
          (bufs, refs) = carve DMA_BUFS_PAGES DMA_BUF_16BIT_PAGES refs
      in s\<lparr>page_refs := refs, dma_pool_start := pool, dma_bufs_base := bufs, dma_pool_busy := False\<rparr>)"

definition mark_reserved :: "u64 \<Rightarrow> u64 \<Rightarrow> phys_mm \<Rightarrow> phys_mm" where
  "mark_reserved low high s = s\<lparr>page_refs := mark_pages RESERVED (unat low) (unat high) (page_refs s)\<rparr>"

definition mark_used :: "u64 \<Rightarrow> u64 \<Rightarrow> phys_mm \<Rightarrow> phys_mm" where
  "mark_used low high s = s\<lparr>page_refs := mark_pages 1 (unat low) (unat high) (page_refs s)\<rparr>"

section \<open>Single pages\<close>

text \<open>The search: \<open>None\<close> is a loop that does not end, \<open>Some None\<close> that no page is free.\<close>

partial_function (option) alloc_search :: "(nat \<Rightarrow> u8) \<Rightarrow> nat \<Rightarrow> nat \<Rightarrow> nat option option" where
  "alloc_search refs start page =
     (let page = (if page \<ge> MAX_PAGES then 256 else page)
      in if refs page = 0 then Some (Some page)
         else if page + 1 = start then Some None
         else alloc_search refs start (page + 1))"

declare alloc_search.simps [code]

definition alloc_phys_page :: "phys_mm \<Rightarrow> (u64 option \<times> phys_mm) option" where
  "alloc_phys_page s =
     (case alloc_search (page_refs s) (next_free s) (next_free s) of
        None \<Rightarrow> None
      | Some None \<Rightarrow> Some (None, s)
      | Some (Some page) \<Rightarrow>
          Some (Some (of_nat page), s\<lparr>page_refs := (page_refs s)(page := 1), next_free := page + 1\<rparr>))"

definition free_phys_page :: "u64 \<Rightarrow> u64 \<Rightarrow> phys_mm \<Rightarrow> phys_mm option" where
  "free_phys_page zero_page page s =
     (if \<not> page_idx page < MAX_PAGES then None
      else if page = zero_page then Some s
      else let c = page_refs s (page_idx page)
           in if c = 0 then None
              else if c = RESERVED then Some s
              else Some (s\<lparr>page_refs := (page_refs s)(page_idx page := c - 1)\<rparr>))"

definition inc_shared_count :: "u64 \<Rightarrow> u64 \<Rightarrow> phys_mm \<Rightarrow> (bool \<times> phys_mm) option" where
  "inc_shared_count zero_page page s =
     (if page = zero_page then Some (True, s)
      else if page_idx page \<ge> MAX_PAGES then Some (False, s)
      else let c = page_refs s (page_idx page)
           in if c = 0 \<or> c = RESERVED then Some (False, s)
              else if c + 1 = RESERVED then None
              else Some (True, s\<lparr>page_refs := (page_refs s)(page_idx page := c + 1)\<rparr>))"

definition get_ref_count :: "u64 \<Rightarrow> u64 \<Rightarrow> phys_mm \<Rightarrow> u8" where
  "get_ref_count zero_page page s =
     (if page = zero_page then RESERVED
      else if page_idx page \<ge> MAX_PAGES then RESERVED
      else page_refs s (page_idx page))"

definition is_shared :: "u64 \<Rightarrow> phys_mm \<Rightarrow> bool" where
  "is_shared page s =
     (if page_idx page \<ge> MAX_PAGES then False
      else let c = page_refs s (page_idx page) in c > 1 \<and> c \<noteq> RESERVED)"

section \<open>Contiguous ranges\<close>

definition dma_channel_buf :: "nat \<Rightarrow> phys_mm \<Rightarrow> u64" where
  "dma_channel_buf ch s =
     (let base = dma_bufs_base s
      in if base = 0 \<or> ch \<ge> 8 then 0
         else let off = (if ch \<ge> 4 then (ch - 4) * DMA_BUF_16BIT_PAGES
                         else 4 * DMA_BUF_16BIT_PAGES + ch * DMA_BUF_8BIT_PAGES)
              in of_nat (base + off))"

text \<open>The sum of the scan is a 32-bit one.\<close>

function contig_search :: "(nat \<Rightarrow> u8) \<Rightarrow> nat \<Rightarrow> nat \<Rightarrow> nat option" where
  "contig_search refs n start =
     (let stop = (start + n) mod 2 ^ 32
      in if stop \<le> MAX_PAGES
         then if \<forall>i\<in>set [start..<stop]. refs i = 0 then Some start else contig_search refs n (start + 1)
         else None)"
  by pat_completeness auto
termination
  by (relation "measure (\<lambda>(refs, n, start). MAX_PAGES - start)") (auto simp: Let_def)

definition alloc_contig :: "u32 \<Rightarrow> phys_mm \<Rightarrow> u64 option \<times> phys_mm" where
  "alloc_contig num_pages s =
     (if num_pages = 0 then (None, s)
      else case contig_search (page_refs s) (unat num_pages) 256 of
             None \<Rightarrow> (None, s)
           | Some start \<Rightarrow>
               (Some (of_nat start), s\<lparr>page_refs := fill_pages RESERVED start (unat num_pages) (page_refs s)\<rparr>))"

definition alloc_phys_contig :: "u32 \<Rightarrow> u32 \<Rightarrow> phys_mm \<Rightarrow> u64 option \<times> phys_mm" where
  "alloc_phys_contig num_pages boundary_log2 s =
     (if boundary_log2 = 0 then alloc_contig num_pages s
      else if dma_pool_start s = 0 \<or> dma_pool_busy s \<or> num_pages = 0 \<or> unat num_pages > DMA_POOL_PAGES then (None, s)
      else (Some (of_nat (dma_pool_start s)), s\<lparr>dma_pool_busy := True\<rparr>))"

definition free_phys_contig :: "u64 \<Rightarrow> u32 \<Rightarrow> phys_mm \<Rightarrow> phys_mm" where
  "free_phys_contig start_page num_pages s =
     (if page_idx start_page = dma_pool_start s then s\<lparr>dma_pool_busy := False\<rparr>
      else if page_idx start_page \<ge> 256 \<and> min (page_idx start_page + unat num_pages) (2 ^ 32 - 1) \<le> MAX_PAGES
      then s\<lparr>page_refs := fill_pages 0 (page_idx start_page) (unat num_pages) (page_refs s)\<rparr>
      else s)"

definition free_page_count :: "phys_mm \<Rightarrow> nat" where
  "free_page_count s = length (filter (\<lambda>i. page_refs s i = 0) [0..<MAX_PAGES])"

declare dma_search.simps [simp del] contig_search.simps [simp del]

section \<open>The search for a free page\<close>

lemma alloc_search_low:
  "256 \<le> page \<Longrightarrow> page < start \<Longrightarrow> start \<le> MAX_PAGES \<Longrightarrow>
   alloc_search refs start page = Some (find (\<lambda>i. refs i = 0) [page..<start])"
proof (induction "start - page" arbitrary: page)
  case (Suc n)
  show ?case
  proof (cases "page + 1 = start")
    case True
    then show ?thesis using Suc.prems by (subst alloc_search.simps) (auto simp: upt_rec)
  next
    case False
    then have "alloc_search refs start (page + 1) = Some (find (\<lambda>i. refs i = 0) [page + 1..<start])"
      using Suc.prems Suc.hyps(2) by (intro Suc.hyps(1)) auto
    then show ?thesis
      using Suc.prems False by (subst alloc_search.simps) (simp add: upt_rec [of page])
  qed
qed simp

lemma alloc_search_spec:
  "257 \<le> start \<Longrightarrow> start \<le> page \<Longrightarrow> page \<le> MAX_PAGES \<Longrightarrow>
   alloc_search refs start page = Some (find (\<lambda>i. refs i = 0) ([page..<MAX_PAGES] @ [256..<start]))"
proof (induction "MAX_PAGES - page" arbitrary: page)
  case 0
  then have "page = MAX_PAGES" by simp
  moreover have "alloc_search refs start MAX_PAGES = alloc_search refs start 256"
    by (subst (1 2) alloc_search.simps) (simp add: MAX_PAGES_def)
  ultimately show ?case using 0 alloc_search_low [of 256 start refs] by simp
next
  case (Suc n)
  have "alloc_search refs start (page + 1) = Some (find (\<lambda>i. refs i = 0) ([page + 1..<MAX_PAGES] @ [256..<start]))"
    using Suc.prems Suc.hyps(2) by (intro Suc.hyps(1)) auto
  then show ?case
    using Suc.prems Suc.hyps(2) by (subst alloc_search.simps) (auto simp: upt_rec [of page])
qed

lemma alloc_search_cases:
  assumes "257 \<le> start" "start \<le> MAX_PAGES"
  obtains (full) "alloc_search refs start start = Some None" "\<forall>i. 256 \<le> i \<and> i < MAX_PAGES \<longrightarrow> refs i \<noteq> 0"
  | (found) i where "alloc_search refs start start = Some (Some i)" "256 \<le> i" "i < MAX_PAGES" "refs i = 0"
proof -
  let ?l = "[start..<MAX_PAGES] @ [256..<start]"
  have set: "set ?l = {256..<MAX_PAGES}" using assms by auto
  have r: "alloc_search refs start start = Some (find (\<lambda>i. refs i = 0) ?l)"
    using alloc_search_spec [of start start refs] assms by simp
  show thesis
  proof (cases "find (\<lambda>i. refs i = 0) ?l")
    case None
    then have "\<not> (\<exists>i. i \<in> set ?l \<and> refs i = 0)" unfolding find_None_iff .
    then show thesis using full r None unfolding set by auto
  next
    case (Some i)
    then have "i \<in> set ?l" "refs i = 0" by (auto simp: find_Some_iff in_set_conv_nth simp del: set_append)
    then show thesis using found r Some unfolding set by auto
  qed
qed

section \<open>Ranges\<close>

lemma mark_pages_apply:
  "high \<le> MAX_PAGES \<Longrightarrow> mark_pages v low high refs i = (if low \<le> i \<and> i < high then v else refs i)"
proof (induction high)
  case (Suc h)
  then have "h mod 2 ^ 32 = h" "h < MAX_PAGES" by (simp_all add: MAX_PAGES_def)
  with Suc show ?case by (cases "low \<le> h") (auto simp: mark_pages_def)
qed (simp add: mark_pages_def)

lemma dma_search_Some:
  "dma_search refs n align p = Some q \<Longrightarrow>
   p \<le> q \<and> q + n \<le> DMA_MAX_PAGE \<and> q mod align = 0 \<and> (\<forall>i. q \<le> i \<and> i < q + n \<longrightarrow> refs i = 0)"
proof (induction refs n align p rule: dma_search.induct)
  case (1 refs n align p)
  consider "p + n \<le> min DMA_MAX_PAGE MAX_PAGES" "align = 0 \<or> p mod align \<noteq> 0" "dma_search refs n align (p + 1) = Some q"
    | "p + n \<le> min DMA_MAX_PAGE MAX_PAGES" "\<not> (align = 0 \<or> p mod align \<noteq> 0)" "\<forall>i\<in>set [p..<p + n]. refs i = 0" "q = p"
    | "p + n \<le> min DMA_MAX_PAGE MAX_PAGES" "\<not> (align = 0 \<or> p mod align \<noteq> 0)" "\<not> (\<forall>i\<in>set [p..<p + n]. refs i = 0)"
      "dma_search refs n align (p + align) = Some q"
    using 1(3) by (subst (asm) dma_search.simps) (auto split: if_splits)
  then show ?case
  proof cases
    case 1
    then show ?thesis using "1.IH"(1) by force
  next
    case 2
    then show ?thesis by auto
  next
    case 3
    then show ?thesis using "1.IH"(2) by force
  qed
qed

lemma contig_search_Some:
  "contig_search refs n start = Some q \<Longrightarrow> n \<le> MAX_PAGES \<Longrightarrow> start \<le> MAX_PAGES \<Longrightarrow>
   start \<le> q \<and> q + n \<le> MAX_PAGES \<and> (\<forall>i. q \<le> i \<and> i < q + n \<longrightarrow> refs i = 0)"
proof (induction refs n start rule: contig_search.induct)
  case (1 refs n start)
  have small: "(start + n) mod 2 ^ 32 = start + n" using 1(3,4) by (simp add: MAX_PAGES_def)
  have fits: "start + n \<le> MAX_PAGES"
    using 1(2) small by (subst (asm) contig_search.simps) (auto simp: Let_def split: if_splits)
  show ?case
  proof (cases "\<forall>i\<in>set [start..<start + n]. refs i = 0")
    case True
    then have "q = start" using 1(2) fits small by (subst (asm) contig_search.simps) (simp add: Let_def)
    then show ?thesis using True fits by auto
  next
    case False
    have "contig_search refs n (start + 1) = Some q"
      using 1(2) False fits small by (subst (asm) contig_search.simps) (auto simp: Let_def split: if_splits)
    moreover have "start < MAX_PAGES" using False fits by auto
    ultimately have "start + 1 \<le> q \<and> q + n \<le> MAX_PAGES \<and> (\<forall>i. q \<le> i \<and> i < q + n \<longrightarrow> refs i = 0)"
      using 1(1) [OF small [symmetric] fits False] 1(3) by (metis Suc_eq_plus1 Suc_leI)
    then show ?thesis by simp
  qed
qed

section \<open>Counts and references\<close>

text \<open>
  \<open>H\<close> is the multiset of references to pages that exist in the system.  A page is reserved and has
  none, or its count is the number of its references.
\<close>

definition mm_ok :: "nat multiset \<times> phys_mm \<Rightarrow> bool" where
  "mm_ok = (\<lambda>(H, s). 257 \<le> next_free s \<and> next_free s \<le> MAX_PAGES \<and> (\<forall>p \<in># H. p < MAX_PAGES) \<and>
     (\<forall>p < MAX_PAGES. if page_refs s p = RESERVED then p \<notin># H else unat (page_refs s p) = count H p))"

text \<open>
  The life of the allocator: the kernel's own pages are the first references; loader memory, DMA
  regions and driver blocks are reserved out of pages nobody refers to; references are made by
  allocating and sharing and dropped by freeing, each by a holder.
\<close>

inductive mm_reach :: "u64 \<Rightarrow> nat multiset \<times> phys_mm \<Rightarrow> bool" for zero where
  boot: "257 \<le> unat high \<Longrightarrow> unat high \<le> MAX_PAGES \<Longrightarrow>
     mm_reach zero (mset [unat low..<unat high], init_phys_mm es n low high s)"
| reserve: "mm_reach zero (H, s) \<Longrightarrow> unat high \<le> MAX_PAGES \<Longrightarrow> (\<forall>p \<in># H. \<not> (unat low \<le> p \<and> p < unat high)) \<Longrightarrow>
     mm_reach zero (H, mark_reserved low high s)"
| dma: "mm_reach zero (H, s) \<Longrightarrow> mm_reach zero (H, reserve_dma_regions s)"
| contig: "mm_reach zero (H, s) \<Longrightarrow> unat n \<le> MAX_PAGES \<Longrightarrow> alloc_phys_contig n b s = (r, s') \<Longrightarrow> mm_reach zero (H, s')"
| contig_free: "mm_reach zero (H, s) \<Longrightarrow> (\<forall>i. page_idx p \<le> i \<and> i < page_idx p + unat n \<longrightarrow> page_refs s i = RESERVED) \<Longrightarrow>
     mm_reach zero (H, free_phys_contig p n s)"
| alloc: "mm_reach zero (H, s) \<Longrightarrow> alloc_phys_page s = Some (Some p, s') \<Longrightarrow> mm_reach zero (add_mset (unat p) H, s')"
| share: "mm_reach zero (H, s) \<Longrightarrow> unat p \<in># H \<Longrightarrow> p \<noteq> zero \<Longrightarrow> inc_shared_count zero p s = Some (ok, s') \<Longrightarrow>
     mm_reach zero (add_mset (unat p) H, s')"
| free: "mm_reach zero (H, s) \<Longrightarrow> unat p \<in># H \<Longrightarrow> p \<noteq> zero \<Longrightarrow> free_phys_page zero p s = Some s' \<Longrightarrow>
     mm_reach zero (H - {#unat p#}, s')"

lemma mm_okD:
  assumes "mm_ok (H, s)"
  shows "257 \<le> next_free s" "next_free s \<le> MAX_PAGES" "p \<in># H \<Longrightarrow> p < MAX_PAGES"
    "p < MAX_PAGES \<Longrightarrow> page_refs s p = RESERVED \<Longrightarrow> p \<notin># H"
    "p < MAX_PAGES \<Longrightarrow> page_refs s p \<noteq> RESERVED \<Longrightarrow> unat (page_refs s p) = count H p"
  using assms by (auto simp: mm_ok_def)

lemma mm_okI:
  assumes "257 \<le> next_free s" "next_free s \<le> MAX_PAGES" "\<And>p. p \<in># H \<Longrightarrow> p < MAX_PAGES"
    "\<And>p. p < MAX_PAGES \<Longrightarrow> page_refs s p = RESERVED \<Longrightarrow> p \<notin># H"
    "\<And>p. p < MAX_PAGES \<Longrightarrow> page_refs s p \<noteq> RESERVED \<Longrightarrow> unat (page_refs s p) = count H p"
  shows "mm_ok (H, s)"
  using assms by (auto simp: mm_ok_def)

text \<open>Reserving pages nobody refers to, and returning reserved pages.\<close>

lemma mm_ok_reserve:
  assumes ok: "mm_ok (H, s)" and "next_free t = next_free s"
    and refs: "\<And>p. p < MAX_PAGES \<Longrightarrow> page_refs t p = page_refs s p \<or> page_refs t p = RESERVED \<and> p \<notin># H \<or>
      page_refs t p = 0 \<and> page_refs s p = RESERVED"
  shows "mm_ok (H, t)"
proof (rule mm_okI)
  show "p < MAX_PAGES \<Longrightarrow> page_refs t p = RESERVED \<Longrightarrow> p \<notin># H" for p
    using refs [of p] mm_okD(4) [OF ok, of p] by (auto simp: RESERVED_def)
  show "p < MAX_PAGES \<Longrightarrow> page_refs t p \<noteq> RESERVED \<Longrightarrow> unat (page_refs t p) = count H p" for p
    using refs [of p] mm_okD(4,5) [OF ok, of p] by (auto simp: not_in_iff)
qed (use assms(2) mm_okD [OF ok] in auto)

lemma free_unreferenced: "mm_ok (H, s) \<Longrightarrow> p < MAX_PAGES \<Longrightarrow> page_refs s p = 0 \<Longrightarrow> p \<notin># H"
  using mm_okD(5) [of H s p] by (auto simp: RESERVED_def not_in_iff)

lemma fold_values: "(\<And>p f. S p f i = v \<or> S p f i = f i) \<Longrightarrow> fold S ps g i = v \<or> fold S ps g i = g i"
proof (induction ps arbitrary: g)
  case (Cons p ps)
  show ?case using Cons.IH [OF Cons.prems, of "S p g"] Cons.prems [of p g] by auto
qed simp

lemma mark_pages_values: "mark_pages v low high refs i = v \<or> mark_pages v low high refs i = refs i"
  unfolding mark_pages_def by (rule fold_values) simp

lemma mark_available_values: "mark_available e refs i = 0 \<or> mark_available e refs i = refs i"
  using mark_pages_values [of 0 _ _ refs i] by (simp add: mark_available_def)

lemma count_upt: "count (mset [a..<b]) p = (if a \<le> p \<and> p < b then 1 else 0)"
  by (induction b) auto

lemma mm_ok_boot:
  assumes "257 \<le> unat high" "unat high \<le> MAX_PAGES"
  shows "mm_ok (mset [unat low..<unat high], init_phys_mm es n low high s)"
proof -
  have idx: "page_idx high = unat high" using assms by (simp add: page_idx_def MAX_PAGES_def)
  define r where "r = fill_pages RESERVED 0 256 (fold mark_available (take n es) (fill_pages RESERVED 0 MAX_PAGES (page_refs s)))"
  have r: "r p = 0 \<or> r p = RESERVED" if "p < MAX_PAGES" for p
    using fold_values [of mark_available p 0 "take n es" "fill_pages RESERVED 0 MAX_PAGES (page_refs s)", OF mark_available_values] that
    by (auto simp: r_def fill_pages_def)
  have refs: "page_refs (init_phys_mm es n low high s) p = (if unat low \<le> p \<and> p < unat high then 1 else r p)" for p
    using mark_pages_apply [OF assms(2)] by (simp add: init_phys_mm_def r_def)
  have nf: "next_free (init_phys_mm es n low high s) = unat high" by (simp add: init_phys_mm_def idx)
  show ?thesis
  proof (rule mm_okI)
    fix p assume p: "p < MAX_PAGES"
    show "page_refs (init_phys_mm es n low high s) p = RESERVED \<Longrightarrow> p \<notin># mset [unat low..<unat high]"
      unfolding refs by (auto simp: RESERVED_def split: if_splits)
    show "page_refs (init_phys_mm es n low high s) p \<noteq> RESERVED \<Longrightarrow>
        unat (page_refs (init_phys_mm es n low high s) p) = count (mset [unat low..<unat high]) p"
      unfolding refs count_upt using r [OF p] by (auto split: if_splits)
  qed (use assms nf in auto)
qed

lemma mm_ok_frame: "page_refs t = page_refs s \<Longrightarrow> next_free t = next_free s \<Longrightarrow> mm_ok (H, t) = mm_ok (H, s)"
  by (simp add: mm_ok_def)

lemma mm_ok_carve:
  assumes ok: "mm_ok (H, s)"
  shows "mm_ok (H, s\<lparr>page_refs := snd (carve n align (page_refs s))\<rparr>)"
  using dma_search_Some [of "page_refs s" n align 256] free_unreferenced [OF ok]
  by (intro mm_ok_reserve [OF ok]) (auto simp: carve_def fill_pages_def split: option.splits)

lemma mm_ok_dma:
  assumes "mm_ok (H, s)"
  shows "mm_ok (H, reserve_dma_regions s)"
  using mm_ok_carve [OF mm_ok_carve [OF assms], of DMA_BUFS_PAGES DMA_BUF_16BIT_PAGES DMA_POOL_PAGES DMA_POOL_PAGES]
  by (subst (asm) mm_ok_frame [of _ "reserve_dma_regions s"]) (simp_all add: reserve_dma_regions_def case_prod_beta)

lemma mm_ok_contig:
  assumes ok: "mm_ok (H, s)" and "unat n \<le> MAX_PAGES" and step: "alloc_phys_contig n b s = (r, s')"
  shows "mm_ok (H, s')"
proof (cases "b = 0 \<and> n \<noteq> 0 \<and> contig_search (page_refs s) (unat n) 256 \<noteq> None")
  case True
  then obtain q where q: "contig_search (page_refs s) (unat n) 256 = Some q" by blast
  have s': "s' = s\<lparr>page_refs := fill_pages RESERVED q (unat n) (page_refs s)\<rparr>"
    using step True q by (simp add: alloc_phys_contig_def alloc_contig_def)
  show ?thesis
    unfolding s' using contig_search_Some [OF q assms(2)] free_unreferenced [OF ok]
    by (intro mm_ok_reserve [OF ok]) (auto simp: fill_pages_def MAX_PAGES_def)
next
  case False
  then have "page_refs s' = page_refs s" "next_free s' = next_free s"
    using step by (auto simp: alloc_phys_contig_def alloc_contig_def split: if_splits option.splits)
  then show ?thesis using ok mm_ok_frame by blast
qed

lemma mm_ok_contig_free:
  assumes ok: "mm_ok (H, s)" and "\<forall>i. page_idx p \<le> i \<and> i < page_idx p + unat n \<longrightarrow> page_refs s i = RESERVED"
  shows "mm_ok (H, free_phys_contig p n s)"
  using assms(2) by (intro mm_ok_reserve [OF ok]) (auto simp: free_phys_contig_def fill_pages_def)

text \<open>A page somebody refers to.\<close>

lemma held:
  assumes ok: "mm_ok (H, s)" and p: "unat p \<in># H"
  shows "page_idx p = unat p" "unat p < MAX_PAGES" "page_refs s (unat p) \<noteq> RESERVED"
    "unat (page_refs s (unat p)) = count H (unat p)" "0 < unat (page_refs s (unat p))" "unat (page_refs s (unat p)) < 255"
    "page_refs s (unat p) \<noteq> 0"
proof -
  show lt: "unat p < MAX_PAGES" using mm_okD(3) [OF ok p] .
  then show "page_idx p = unat p" by (simp add: page_idx_def MAX_PAGES_def)
  show nr: "page_refs s (unat p) \<noteq> RESERVED" using mm_okD(4) [OF ok lt] p by blast
  show c: "unat (page_refs s (unat p)) = count H (unat p)" using mm_okD(5) [OF ok lt nr] .
  then show "0 < unat (page_refs s (unat p))" using p by simp
  show "unat (page_refs s (unat p)) < 255"
    using nr unsigned_less [of "page_refs s (unat p)", where 'a = nat] by (simp add: RESERVED_def word_unat_eq_iff)
  show "page_refs s (unat p) \<noteq> 0" using c p by (auto simp: word_unat_eq_iff)
qed

lemma mm_ok_count:
  assumes ok: "mm_ok (H, s)" and "p < MAX_PAGES" "page_refs s p \<noteq> RESERVED" "v \<noteq> RESERVED" "unat v = count H' p"
    and "\<And>q. q \<noteq> p \<Longrightarrow> count H' q = count H q" and "257 \<le> n" "n \<le> MAX_PAGES"
  shows "mm_ok (H', s\<lparr>page_refs := (page_refs s)(p := v), next_free := n\<rparr>)"
proof (rule mm_okI)
  have mem: "q \<noteq> p \<Longrightarrow> q \<in># H' \<longleftrightarrow> q \<in># H" for q
    using assms(6) [of q] by (metis count_eq_zero_iff)
  show "q \<in># H' \<Longrightarrow> q < MAX_PAGES" for q
    using mem [of q] mm_okD(3) [OF ok, of q] assms(2) by (cases "q = p") auto
  show "q < MAX_PAGES \<Longrightarrow> page_refs (s\<lparr>page_refs := (page_refs s)(p := v), next_free := n\<rparr>) q = RESERVED \<Longrightarrow> q \<notin># H'" for q
    using mem [of q] mm_okD(4) [OF ok, of q] assms(4) by (cases "q = p") auto
  show "q < MAX_PAGES \<Longrightarrow> page_refs (s\<lparr>page_refs := (page_refs s)(p := v), next_free := n\<rparr>) q \<noteq> RESERVED \<Longrightarrow>
      unat (page_refs (s\<lparr>page_refs := (page_refs s)(p := v), next_free := n\<rparr>) q) = count H' q" for q
    using mm_okD(5) [OF ok, of q] assms(5,6) by (cases "q = p") auto
qed (use assms in auto)

lemma alloc_phys_page_cases:
  assumes ok: "mm_ok (H, s)"
  obtains (full) "alloc_phys_page s = Some (None, s)" "\<forall>i. 256 \<le> i \<and> i < MAX_PAGES \<longrightarrow> page_refs s i \<noteq> 0"
  | (page) i where "alloc_phys_page s = Some (Some (of_nat i), s\<lparr>page_refs := (page_refs s)(i := 1), next_free := i + 1\<rparr>)"
      "256 \<le> i" "i < MAX_PAGES" "page_refs s i = 0" "i \<notin># H" "unat (of_nat i :: u64) = i"
proof (rule alloc_search_cases [OF mm_okD(1,2) [OF ok], of "page_refs s"])
  fix i assume i: "alloc_search (page_refs s) (next_free s) (next_free s) = Some (Some i)" "256 \<le> i" "i < MAX_PAGES" "page_refs s i = 0"
  moreover have "unat (of_nat i :: u64) = i" using i(3) by (simp add: unat_of_nat_small MAX_PAGES_def)
  ultimately show thesis using page free_unreferenced [OF ok] by (simp add: alloc_phys_page_def)
qed (use full in \<open>simp add: alloc_phys_page_def\<close>)

lemma mm_ok_alloc:
  assumes ok: "mm_ok (H, s)" and "alloc_phys_page s = Some (Some p, s')"
  shows "mm_ok (add_mset (unat p) H, s')"
proof (rule alloc_phys_page_cases [OF ok])
  fix i assume i: "alloc_phys_page s = Some (Some (of_nat i), s\<lparr>page_refs := (page_refs s)(i := 1), next_free := i + 1\<rparr>)"
    "256 \<le> i" "i < MAX_PAGES" "page_refs s i = 0" "i \<notin># H" "unat (of_nat i :: u64) = i"
  then have eq: "unat p = i" "s' = s\<lparr>page_refs := (page_refs s)(i := 1), next_free := i + 1\<rparr>" using assms(2) by auto
  show ?thesis
    unfolding eq by (rule mm_ok_count [OF ok]) (use i in \<open>auto simp: RESERVED_def not_in_iff\<close>)
qed (use assms(2) in simp)

lemma inc_held:
  assumes ok: "mm_ok (H, s)" and p: "unat p \<in># H" "p \<noteq> zero"
  shows "inc_shared_count zero p s =
    (if count H (unat p) = 254 then None
     else Some (True, s\<lparr>page_refs := (page_refs s)(unat p := page_refs s (unat p) + 1)\<rparr>))"
proof -
  note h = held [OF ok p(1)]
  have "unat (page_refs s (unat p) + 1) = Suc (count H (unat p))"
    using h(4,6) by (simp add: unat_word_ariths)
  then have "page_refs s (unat p) + 1 = RESERVED \<longleftrightarrow> count H (unat p) = 254"
    by (simp add: RESERVED_def word_unat_eq_iff)
  then show ?thesis using h p(2) by (auto simp: inc_shared_count_def Let_def)
qed

lemma free_held:
  assumes ok: "mm_ok (H, s)" and p: "unat p \<in># H" "p \<noteq> zero"
  shows "free_phys_page zero p s = Some (s\<lparr>page_refs := (page_refs s)(unat p := page_refs s (unat p) - 1)\<rparr>)"
  using held [OF ok p(1)] p(2) by (auto simp: free_phys_page_def Let_def)

lemma same_cursor: "s\<lparr>page_refs := f\<rparr> = s\<lparr>page_refs := f, next_free := next_free s\<rparr>"
  by simp

lemma mm_ok_share:
  assumes ok: "mm_ok (H, s)" and p: "unat p \<in># H" "p \<noteq> zero" and step: "inc_shared_count zero p s = Some (b, s')"
  shows "mm_ok (add_mset (unat p) H, s')"
proof -
  note h = held [OF ok p(1)]
  have c: "count H (unat p) \<noteq> 254" and s': "s' = s\<lparr>page_refs := (page_refs s)(unat p := page_refs s (unat p) + 1)\<rparr>"
    using step inc_held [OF ok p] by (auto split: if_splits)
  have v: "unat (page_refs s (unat p) + 1) = Suc (count H (unat p))" using h(4,6) by (simp add: unat_word_ariths)
  show ?thesis
    unfolding s' by (subst same_cursor, rule mm_ok_count [OF ok h(2,3)])
      (use v c h(4,6) mm_okD(1,2) [OF ok] in \<open>auto simp: RESERVED_def word_unat_eq_iff\<close>)
qed

lemma mm_ok_free:
  assumes ok: "mm_ok (H, s)" and p: "unat p \<in># H" "p \<noteq> zero" and step: "free_phys_page zero p s = Some s'"
  shows "mm_ok (H - {#unat p#}, s')"
proof -
  note h = held [OF ok p(1)]
  have s': "s' = s\<lparr>page_refs := (page_refs s)(unat p := page_refs s (unat p) - 1)\<rparr>"
    using step free_held [OF ok p] by simp
  have v: "unat (page_refs s (unat p) - 1) = count H (unat p) - 1"
    using unat_minus_one [OF h(7)] h(4) by simp
  show ?thesis
    unfolding s' by (subst same_cursor, rule mm_ok_count [OF ok h(2,3)])
      (use v h(4,6) mm_okD(1,2) [OF ok] in \<open>auto simp: RESERVED_def word_unat_eq_iff\<close>)
qed

lemma mm_reach_ok: "mm_reach zero hs \<Longrightarrow> mm_ok hs"
proof (induction rule: mm_reach.induct)
  case (boot high low es n s)
  then show ?case by (rule mm_ok_boot)
next
  case (reserve H s high low)
  then show ?case
    by (intro mm_ok_reserve [OF reserve.IH]) (auto simp: mark_reserved_def mark_pages_apply)
qed (auto intro: mm_ok_dma mm_ok_contig mm_ok_contig_free mm_ok_alloc mm_ok_share mm_ok_free)

section \<open>Properties\<close>

text \<open>
  C5. Allocating a physical page always returns: the search ends from every state the allocator
  can be in.  It reports no memory only when no page above the first megabyte is free, and a page it
  hands out is one that was free, is not reserved and that nobody refers to.
\<close>

theorem phys_alloc_exclusive:
  assumes "mm_reach zero (H, s)"
  shows "\<exists>r s'. alloc_phys_page s = Some (r, s') \<and>
    (case r of
       None \<Rightarrow> s' = s \<and> (\<forall>i. 256 \<le> i \<and> i < MAX_PAGES \<longrightarrow> page_refs s i \<noteq> 0)
     | Some p \<Rightarrow> 256 \<le> unat p \<and> unat p < MAX_PAGES \<and> page_refs s (unat p) = 0 \<and> unat p \<notin># H \<and>
         mm_reach zero (add_mset (unat p) H, s'))"
proof (rule alloc_phys_page_cases [OF mm_reach_ok [OF assms]])
  fix i assume i: "alloc_phys_page s = Some (Some (of_nat i), s\<lparr>page_refs := (page_refs s)(i := 1), next_free := i + 1\<rparr>)"
    "256 \<le> i" "i < MAX_PAGES" "page_refs s i = 0" "i \<notin># H" "unat (of_nat i :: u64) = i"
  then show ?thesis using mm_reach.alloc [OF assms i(1)] by simp
qed simp

theorem phys_alloc_exclusive_witness:
  "\<exists>r s'. alloc_phys_page (init_phys_mm [] 0 0x100 0x200 \<lparr>page_refs = (\<lambda>_. 0), next_free = 0, dma_pool_start = 0,
     dma_pool_busy = False, dma_bufs_base = 0\<rparr>) = Some (r, s')"
proof -
  have "mm_reach 0x150 (mset [unat (0x100 :: u64)..<unat (0x200 :: u64)], init_phys_mm [] 0 0x100 0x200
      \<lparr>page_refs = (\<lambda>_. 0), next_free = 0, dma_pool_start = 0, dma_pool_busy = False, dma_bufs_base = 0\<rparr>)"
    by (rule mm_reach.boot) (simp_all add: MAX_PAGES_def)
  from phys_alloc_exclusive [OF this] show ?thesis by blast
qed

text \<open>
  C19. The reference counts are exact.  A page other than the zero page is reserved and has no
  references, or its count is the number of references to it; the test for sharing that decides
  whether a write must copy is true just when there are two or more.  Dropping a reference never
  panics, and adding one panics only at the 254th.
\<close>

theorem phys_refcounts:
  assumes "mm_reach zero (H, s)" and "unat p < MAX_PAGES" and "p \<noteq> zero"
  shows "(get_ref_count zero p s = RESERVED \<and> unat p \<notin># H \<or> unat (get_ref_count zero p s) = count H (unat p))
    \<and> (is_shared p s \<longleftrightarrow> 2 \<le> count H (unat p))
    \<and> (unat p \<in># H \<longrightarrow> free_phys_page zero p s \<noteq> None \<and> (inc_shared_count zero p s = None \<longleftrightarrow> count H (unat p) = 254))"
proof -
  note ok = mm_reach_ok [OF assms(1)]
  have idx: "page_idx p = unat p" using assms(2) by (simp add: page_idx_def MAX_PAGES_def)
  have "is_shared p s \<longleftrightarrow> 2 \<le> count H (unat p)"
    using mm_okD(4,5) [OF ok assms(2)] assms(2)
    by (cases "page_refs s (unat p) = RESERVED") (auto simp: is_shared_def idx Let_def word_less_nat_alt not_in_iff)
  moreover have "get_ref_count zero p s = RESERVED \<and> unat p \<notin># H \<or> unat (get_ref_count zero p s) = count H (unat p)"
    using mm_okD(4,5) [OF ok assms(2)] assms(2,3) by (auto simp: get_ref_count_def idx)
  ultimately show ?thesis using free_held [OF ok _ assms(3)] inc_held [OF ok _ assms(3)] by auto
qed

text \<open>A page of the kernel image after start-up.\<close>

theorem phys_refcounts_witness:
  "\<not> is_shared 0x120 (init_phys_mm [] 0 0x100 0x200 \<lparr>page_refs = (\<lambda>_. 0), next_free = 0, dma_pool_start = 0,
     dma_pool_busy = False, dma_bufs_base = 0\<rparr>)"
proof -
  have reach: "mm_reach 0x150 (mset [unat (0x100 :: u64)..<unat (0x200 :: u64)], init_phys_mm [] 0 0x100 0x200
      \<lparr>page_refs = (\<lambda>_. 0), next_free = 0, dma_pool_start = 0, dma_pool_busy = False, dma_bufs_base = 0\<rparr>)"
    by (rule mm_reach.boot) (simp_all add: MAX_PAGES_def)
  have "unat (0x120 :: u64) < MAX_PAGES" "(0x120 :: u64) \<noteq> 0x150" by (simp_all add: MAX_PAGES_def)
  from phys_refcounts [OF reach this] show ?thesis unfolding count_upt by auto
qed

end
