(* ===== verification/Ldt.thy ===== *)
theory Ldt
  imports Guest
begin

text \<open>
  The local descriptor table of a DPMI client (\<^verbatim>\<open>kernel/src/kernel/dos/dpmi/descriptors.rs\<close>, the
  decoding helpers of \<^verbatim>\<open>mode_transitions.rs\<close> and the layout function of \<^verbatim>\<open>state.rs\<close>): selector
  arithmetic, building and editing 64-bit descriptors, and the bitmap of allocated entries.  The
  traces are left out.

  The lemmas give the decoded fields after every edit, the entries an allocation takes, and the
  condition \<open>desc_safe\<close> under which a descriptor can only be a ring-3 code or data segment.
\<close>

section \<open>Selectors\<close>

definition LDT_ENTRIES :: nat where "LDT_ENTRIES = 8192"
definition LOW_MEM_LDT_IDX :: nat where "LOW_MEM_LDT_IDX = 5"
definition PSP_LDT_IDX :: nat where "PSP_LDT_IDX = 18"
definition VECTOR_STUB_LDT_IDX :: nat where "VECTOR_STUB_LDT_IDX = 4"
definition SPECIAL_STUB_LDT_IDX :: nat where "SPECIAL_STUB_LDT_IDX = 7"
definition HOST_STACK_PM16_LDT_IDX :: nat where "HOST_STACK_PM16_LDT_IDX = 8"
definition HOST_STACK_PM32_LDT_IDX :: nat where "HOST_STACK_PM32_LDT_IDX = 9"

definition idx_to_sel :: "nat \<Rightarrow> u16" where
  "idx_to_sel idx = push_bit 3 (of_nat idx) OR 4 OR 3"

definition sel_to_idx :: "u16 \<Rightarrow> nat" where
  "sel_to_idx sel = unat (drop_bit 3 sel)"

section \<open>Descriptors\<close>

definition client_dpl :: "u8 \<Rightarrow> u8" where
  "client_dpl access = (access AND NOT 0x60) OR 0x60"

definition build_descriptor :: "u32 \<Rightarrow> u32 \<Rightarrow> u64 \<Rightarrow> u64 \<Rightarrow> u64" where
  "build_descriptor base limit access flags =
     (let byte6 = ucast (drop_bit 16 limit AND 0x0F) OR (flags AND 0xF0)
      in ucast (limit AND 0xFFFF)
         OR push_bit 16 (ucast (base AND 0xFFFF))
         OR push_bit 32 (ucast (drop_bit 16 base AND 0xFF))
         OR push_bit 40 (access AND 0xFF)
         OR push_bit 48 byte6
         OR push_bit 56 (ucast (drop_bit 24 base AND 0xFF)))"

definition limit_and_g :: "u32 \<Rightarrow> u32 \<times> bool" where
  "limit_and_g limit = (if 0xFFFFF < limit then (drop_bit 12 limit, True) else (limit, False))"

definition desc_flags :: "bool \<Rightarrow> bool \<Rightarrow> u64" where
  "desc_flags g db = (if g then 0x80 else 0) OR (if db then 0x40 else 0)"

definition make_data_desc_ex :: "u32 \<Rightarrow> u32 \<Rightarrow> bool \<Rightarrow> u64" where
  "make_data_desc_ex base limit db =
     (case limit_and_g limit of (limit_val, g) \<Rightarrow> build_descriptor base limit_val 0xF2 (desc_flags g db))"

definition make_data_desc :: "u32 \<Rightarrow> u32 \<Rightarrow> u64" where
  "make_data_desc base limit = make_data_desc_ex base limit True"

definition make_code_desc_ex :: "u32 \<Rightarrow> u32 \<Rightarrow> bool \<Rightarrow> u64" where
  "make_code_desc_ex base limit db =
     (case limit_and_g limit of (limit_val, g) \<Rightarrow> build_descriptor base limit_val 0xFA (desc_flags g db))"

definition desc_base :: "u64 \<Rightarrow> u32" where
  "desc_base desc =
     (let b0 = ucast (drop_bit 16 desc AND 0xFFFF);
          b1 = ucast (drop_bit 32 desc AND 0xFF);
          b2 = ucast (drop_bit 56 desc AND 0xFF)
      in b0 OR push_bit 16 b1 OR push_bit 24 b2)"

definition desc_limit :: "u64 \<Rightarrow> u32" where
  "desc_limit desc =
     (let l0 = ucast (desc AND 0xFFFF);
          l1 = ucast (drop_bit 48 desc AND 0x0F);
          raw = l0 OR push_bit 16 l1
      in if test_mask desc 55 then push_bit 12 raw OR 0xFFF else raw)"

definition set_desc_base :: "u32 \<Rightarrow> u64 \<Rightarrow> u64" where
  "set_desc_base base desc =
     (desc AND NOT 0xFF0000FFFFFF0000)
     OR push_bit 16 (ucast (base AND 0xFFFF))
     OR push_bit 32 (ucast (drop_bit 16 base AND 0xFF))
     OR push_bit 56 (ucast (drop_bit 24 base AND 0xFF))"

definition desc_is_seg_alias :: "u64 \<Rightarrow> u32 \<Rightarrow> bool" where
  "desc_is_seg_alias desc base \<longleftrightarrow>
     (let lim0 = ucast (desc AND 0xFFFF) :: u16;
          lim1 = ucast (drop_bit 48 desc AND 0xFF) :: u8;
          base0 = ucast (drop_bit 16 desc AND 0xFFFF) :: u16;
          base1 = ucast (drop_bit 32 desc AND 0xFF) :: u8;
          base2 = ucast (drop_bit 56 desc AND 0xFF) :: u8
      in lim0 = 0xFFFF \<and> lim1 = 0 \<and> base2 = 0 \<and> base0 = ucast base \<and> base1 = ucast (drop_bit 16 base))"

definition set_desc_limit :: "u32 \<Rightarrow> u64 \<Rightarrow> u64" where
  "set_desc_limit limit desc =
     (case limit_and_g limit of (lim, g) \<Rightarrow>
        let desc = clear_mask (desc AND NOT 0x000F00000000FFFF) 55;
            desc = desc OR ucast (lim AND 0xFFFF) OR push_bit 48 (ucast (drop_bit 16 lim AND 0x0F))
        in if g then set_mask desc 55 else desc)"

section \<open>Decoding through a selector\<close>

definition seg_limit :: "u64 list \<Rightarrow> u16 \<Rightarrow> u32" where
  "seg_limit ldt sel =
     (if sel AND 4 = 0 then 0xFFFFFFFF
      else let idx = unat (drop_bit 3 sel) in if length ldt \<le> idx then 0 else desc_limit (ldt ! idx))"

definition seg_is_32 :: "u64 list \<Rightarrow> u16 \<Rightarrow> bool" where
  "seg_is_32 ldt sel =
     (if sel AND 4 = 0 then True
      else let idx = unat (drop_bit 3 sel) in if length ldt \<le> idx then True else test_mask (ldt ! idx) 54)"

definition flat_addr :: "u64 list \<Rightarrow> u16 \<Rightarrow> u32 \<Rightarrow> bool \<Rightarrow> u32" where
  "flat_addr ldt seg off cs_32 = seg_base ldt seg + (if cs_32 then off else off AND 0xFFFF)"

section \<open>The allocation bitmap\<close>

definition ldt_bit :: "u32 list \<Rightarrow> nat \<Rightarrow> bool" where
  "ldt_bit ldt_alloc idx = test_mask (ldt_alloc ! (idx div 32)) (idx mod 32)"

definition ldt_mark :: "nat \<Rightarrow> u32 list \<Rightarrow> u32 list" where
  "ldt_mark idx ldt_alloc =
     ldt_alloc[idx div 32 := set_mask (ldt_alloc ! (idx div 32)) (idx mod 32)]"

definition alloc_ldt :: "u32 list \<Rightarrow> (nat \<times> u32 list) option" where
  "alloc_ldt ldt_alloc =
     map_option (\<lambda>idx. (idx, ldt_mark idx ldt_alloc))
       (find (\<lambda>idx. \<not> ldt_bit ldt_alloc idx) [16..<LDT_ENTRIES])"

definition alloc_ldt_range :: "u32 list \<Rightarrow> nat \<Rightarrow> (nat \<times> u32 list) option" where
  "alloc_ldt_range ldt_alloc count =
     (if count = 0 \<or> LDT_ENTRIES \<le> count then None
      else map_option (\<lambda>first. (first, fold ldt_mark [first..<first + count] ldt_alloc))
             (find (\<lambda>first. \<forall>idx\<in>set [first..<first + count]. \<not> ldt_bit ldt_alloc idx)
                [16..<Suc (LDT_ENTRIES - count)]))"

definition free_ldt :: "nat \<Rightarrow> u64 list \<times> u32 list \<Rightarrow> u64 list \<times> u32 list" where
  "free_ldt idx = (\<lambda>(ldt, ldt_alloc).
     if 0 < idx \<and> idx < LDT_ENTRIES
     then (ldt[idx := 0],
           ldt_alloc[idx div 32 := clear_mask (ldt_alloc ! (idx div 32)) (idx mod 32)])
     else (ldt, ldt_alloc))"

definition ldt_is_allocated :: "u32 list \<Rightarrow> nat \<Rightarrow> bool" where
  "ldt_is_allocated ldt_alloc idx = (if LDT_ENTRIES \<le> idx then False else ldt_bit ldt_alloc idx)"

definition valid_ldt_selector_idx :: "u32 list \<Rightarrow> u16 \<Rightarrow> nat option" where
  "valid_ldt_selector_idx ldt_alloc sel =
     (if sel AND 4 = 0 then None
      else let idx = sel_to_idx sel in if ldt_is_allocated ldt_alloc idx then Some idx else None)"

section \<open>The kernel's own slots\<close>

text \<open>The host stack's base and size are those of the DOS arena and are arguments.\<close>

definition ldt_install :: "nat \<Rightarrow> u64 \<Rightarrow> u64 list \<times> u32 list \<Rightarrow> u64 list \<times> u32 list" where
  "ldt_install idx desc = (\<lambda>(ldt, ldt_alloc). (ldt[idx := desc], ldt_mark idx ldt_alloc))"

definition install_kernel_ldt_slots ::
  "u32 \<Rightarrow> u32 \<Rightarrow> u64 list \<times> u32 list \<Rightarrow> u64 list \<times> u32 list" where
  "install_kernel_ldt_slots host_base host_size t =
     (let host_limit = host_size - 1;
          t = ldt_install VECTOR_STUB_LDT_IDX (make_code_desc_ex 0 0x0FFF False) t;
          t = ldt_install SPECIAL_STUB_LDT_IDX (make_code_desc_ex 0 0x0FFF False) t;
          t = ldt_install LOW_MEM_LDT_IDX (make_data_desc_ex 0 0xFFFFF False) t;
          t = ldt_install HOST_STACK_PM16_LDT_IDX (make_data_desc_ex host_base host_limit False) t;
          t = ldt_install HOST_STACK_PM32_LDT_IDX (make_data_desc_ex host_base host_limit True) t
      in (fst t, ldt_mark PSP_LDT_IDX (snd t)))"

section \<open>Physical mappings\<close>

definition PHYS_MAP_FLOOR :: u32 where "PHYS_MAP_FLOOR = 0xA0000000"
definition PHYS_MAP_TOP :: u32 where "PHYS_MAP_TOP = 0xB0000000"

definition physical_mapping_layout :: "u32 \<Rightarrow> u32 \<Rightarrow> u32 \<Rightarrow> (u32 \<times> u32 \<times> u32) option" where
  "physical_mapping_layout cursor physical sz =
     (if sz = 0 then None
      else case checked_add physical (sz - 1) of
        None \<Rightarrow> None
      | Some _ \<Rightarrow>
          let off = physical AND 0xFFF
          in case checked_add off sz of
               None \<Rightarrow> None
             | Some span \<Rightarrow>
                 case checked_add span 0xFFF of
                   None \<Rightarrow> None
                 | Some padded \<Rightarrow>
                     let page_count = drop_bit 12 padded
                     in case checked_mul page_count 0x1000 of
                          None \<Rightarrow> None
                        | Some bytes \<Rightarrow>
                            case checked_sub cursor bytes of
                              None \<Rightarrow> None
                            | Some v \<Rightarrow>
                                let virtual_base = v AND NOT 0xFFF
                                in if virtual_base < PHYS_MAP_FLOOR then None
                                   else case checked_add virtual_base off of
                                          None \<Rightarrow> None
                                        | Some returned \<Rightarrow> Some (virtual_base, page_count, returned))"

section \<open>Fields of a descriptor\<close>

text \<open>The constants of the code as masks.\<close>

lemma desc_masks:
  "(0xFF0000FFFFFF0000 :: u64) = push_bit 16 (mask 24) OR push_bit 56 (mask 8)"
  "(0x000F00000000FFFF :: u64) = mask 16 OR push_bit 48 (mask 4)"
  "(0xFFFF :: 'a::len word) = mask 16" "(0xFF :: 'a word) = mask 8" "(0x0F :: 'a word) = mask 4"
  "(0xFFF :: 'a word) = mask 12" "(0xF0 :: 'b::len word) = push_bit 4 (mask 4)"
  by (simp_all add: mask_eq_exp_minus_1)

lemma shift_back:
  "b \<le> n \<Longrightarrow> b \<le> a \<Longrightarrow> a + (n - b) = (a - b) + (n :: nat)"
  "b \<le> n \<Longrightarrow> a \<le> b \<Longrightarrow> a + (n - b) = n - (b - a)"
  by simp_all

lemmas bit_fields = bit_simps shift_back less_diff_conv2

lemma bit_desc_base:
  "bit (desc_base d) n \<longleftrightarrow> (if n < 24 then bit d (16 + n) else n < 32 \<and> bit d (32 + n))"
  unfolding desc_base_def Let_def desc_masks(3-6)
  by (cases "n < 16"; cases "n < 24"; cases "n < 32") (simp_all add: bit_fields)

lemma bit_set_desc_base:
  "bit (set_desc_base b d) n \<longleftrightarrow> n < 64 \<and>
     (if 16 \<le> n \<and> n < 40 then bit b (n - 16) else if 56 \<le> n then bit b (n - 32) else bit d n)"
  unfolding set_desc_base_def desc_masks
  by (cases "n < 16"; cases "n < 32"; cases "n < 40"; cases "n < 56"; cases "n < 64") (simp_all add: bit_fields)

lemma bit_desc_limit:
  "bit (desc_limit d) n \<longleftrightarrow> n < 32 \<and>
     (if bit d 55 then n < 12 \<or> (if n < 28 then bit d (n - 12) else bit d (20 + n))
      else n < 20 \<and> (if n < 16 then bit d n else bit d (32 + n)))"
  unfolding desc_limit_def Let_def desc_masks(3-6) test_mask_bit
  by (cases "n < 12"; cases "n < 16"; cases "n < 20"; cases "n < 28"; cases "n < 32") (simp_all add: bit_fields)

lemma bit_set_desc_limit:
  "bit (set_desc_limit l d) n \<longleftrightarrow> n < 64 \<and>
     (if n < 16 then bit (fst (limit_and_g l)) n
      else if 48 \<le> n \<and> n < 52 then bit (fst (limit_and_g l)) (n - 32)
      else if n = 55 then snd (limit_and_g l) else bit d n)"
  unfolding set_desc_limit_def Let_def desc_masks case_prod_beta
  by (cases "n < 16"; cases "n < 48"; cases "n < 52"; cases "n < 64")
     (simp_all add: bit_fields bit_set_mask bit_clear_mask)

lemma bit_build_descriptor:
  "bit (build_descriptor b l a f) n \<longleftrightarrow> n < 64 \<and>
     (if n < 16 then bit l n else if n < 40 then bit b (n - 16) else if n < 48 then bit a (n - 40)
      else if n < 52 then bit l (n - 32) else if n < 56 then bit f (n - 48) else bit b (n - 32))"
  unfolding build_descriptor_def Let_def desc_masks(3-7)
  by (cases "n < 16"; cases "n < 32"; cases "n < 40"; cases "n < 48"; cases "n < 52"; cases "n < 56"; cases "n < 64")
     (simp_all add: bit_fields)

section \<open>Decoding after editing\<close>

lemma desc_base_set_base [simp]: "desc_base (set_desc_base b d) = b"
  by (rule bit_word_eqI) (simp add: bit_desc_base bit_set_desc_base)

lemma desc_limit_set_base [simp]: "desc_limit (set_desc_base b d) = desc_limit d"
  by (rule bit_word_eqI) (auto simp: bit_desc_limit bit_set_desc_base)

lemma desc_base_set_limit [simp]: "desc_base (set_desc_limit l d) = desc_base d"
  by (rule bit_word_eqI) (auto simp: bit_desc_base bit_set_desc_limit)

text \<open>A limit that needs page granularity is rounded up to the end of its page.\<close>

definition granular :: "u32 \<Rightarrow> u32" where
  "granular limit = (if 0xFFFFF < limit then limit OR 0xFFF else limit)"

lemma limit_below_20: "\<not> 0xFFFFF < (l :: u32) \<Longrightarrow> 20 \<le> n \<Longrightarrow> \<not> bit l n"
proof -
  assume "\<not> 0xFFFFF < l"
  then have "l \<le> mask 20" by (simp add: mask_eq_exp_minus_1 not_less)
  then have "take_bit 20 l = l" by (simp add: take_bit_eq_mod word_le_nat_alt unat_mod mask_eq_exp_minus_1 word_unat_eq_iff)
  then show "20 \<le> n \<Longrightarrow> \<not> bit l n" by (metis bit_take_bit_iff not_less)
qed

lemma desc_limit_set_limit [simp]: "desc_limit (set_desc_limit l d) = granular l"
proof (rule bit_word_eqI)
  fix n assume "n < LENGTH(32)"
  then show "bit (desc_limit (set_desc_limit l d)) n = bit (granular l) n"
    using limit_below_20 [of l n]
    unfolding granular_def desc_masks(6)
    by (cases "n < 12"; cases "n < 16"; cases "n < 20"; cases "n < 28")
       (auto simp: bit_desc_limit bit_set_desc_limit limit_and_g_def bit_fields)
qed

lemma desc_base_build [simp]: "desc_base (build_descriptor b l a f) = b"
  by (rule bit_word_eqI) (simp add: bit_desc_base bit_build_descriptor)

lemma desc_base_make [simp]:
  "desc_base (make_data_desc_ex b l db) = b" "desc_base (make_code_desc_ex b l db) = b"
  by (simp_all add: make_data_desc_ex_def make_code_desc_ex_def split: prod.splits)

text \<open>The two decoders of a selector's base agree.\<close>

lemma seg_base_desc_base:
  "sel AND 4 \<noteq> 0 \<Longrightarrow> sel_to_idx sel < length ldt \<Longrightarrow> seg_base ldt sel = desc_base (ldt ! sel_to_idx sel)"
  by (simp add: seg_base_def sel_to_idx_def desc_base_def Let_def)

section \<open>Safe descriptors\<close>

text \<open>A present descriptor is a code or data segment of ring 3: no gate and no system segment.\<close>

definition desc_safe :: "u64 \<Rightarrow> bool" where
  "desc_safe d \<longleftrightarrow> (bit d 47 \<longrightarrow> bit d 44 \<and> bit d 45 \<and> bit d 46)"

lemma desc_safe_0 [simp]: "desc_safe 0"
  by (simp add: desc_safe_def)

lemma desc_safe_edit [simp]:
  "desc_safe (set_desc_base b d) = desc_safe d" "desc_safe (set_desc_limit l d) = desc_safe d"
  by (simp_all add: desc_safe_def bit_set_desc_base bit_set_desc_limit)

lemma desc_safe_make [simp]:
  "desc_safe (make_data_desc_ex b l db)" "desc_safe (make_code_desc_ex b l db)" "desc_safe (make_data_desc b l)"
  by (simp_all add: desc_safe_def make_data_desc_def make_data_desc_ex_def make_code_desc_ex_def bit_build_descriptor
      split: prod.splits)

section \<open>Selectors and entries\<close>

lemma idx_to_sel_ti: "idx_to_sel idx AND 4 \<noteq> 0"
proof
  assume "idx_to_sel idx AND 4 = 0"
  then have "bit (idx_to_sel idx AND 4) 2 = bit (0 :: u16) 2" by simp
  then show False by (simp add: idx_to_sel_def bit_simps)
qed

lemma sel_to_idx_to_sel [simp]: "idx < LDT_ENTRIES \<Longrightarrow> sel_to_idx (idx_to_sel idx) = idx"
proof -
  assume idx: "idx < LDT_ENTRIES"
  have "drop_bit 3 (idx_to_sel idx) = drop_bit 3 (push_bit 3 (of_nat idx :: u16))"
    by (rule bit_word_eqI) (auto simp: idx_to_sel_def bit_simps)
  also have "\<dots> = of_nat idx"
  proof (rule bit_word_eqI)
    fix n assume "n < LENGTH(16)"
    have "\<not> bit idx n" if "13 \<le> n"
    proof -
      have "idx < 2 ^ n" using idx power_increasing [OF that, of "2 :: nat"] by (simp add: LDT_ENTRIES_def)
      then show ?thesis by (simp add: bit_iff_odd)
    qed
    with \<open>n < LENGTH(16)\<close> show "bit (drop_bit 3 (push_bit 3 (of_nat idx :: u16))) n = bit (of_nat idx :: u16) n"
      by (cases "13 \<le> n") (auto simp: bit_simps)
  qed
  finally show ?thesis
    using idx by (simp add: sel_to_idx_def LDT_ENTRIES_def unat_of_nat_small)
qed

section \<open>The bitmap\<close>

abbreviation bitmap_ok :: "u32 list \<Rightarrow> bool" where
  "bitmap_ok a \<equiv> length a = LDT_ENTRIES div 32"

lemma ldt_mark_length [simp]: "length (ldt_mark idx a) = length a"
  by (simp add: ldt_mark_def)

lemma fold_ldt_mark_length [simp]: "length (fold ldt_mark js a) = length a"
  by (induction js arbitrary: a) auto

lemma ldt_word_less: "bitmap_ok a \<Longrightarrow> idx < LDT_ENTRIES \<Longrightarrow> idx div 32 < length a"
  by (simp add: LDT_ENTRIES_def div_less_iff_less_mult)

lemma ldt_bit_mark:
  assumes "bitmap_ok a" "idx < LDT_ENTRIES"
  shows "ldt_bit (ldt_mark idx a) j = (j = idx \<or> ldt_bit a j)"
proof -
  have "idx mod 32 < 32" "j mod 32 < 32" by simp_all
  moreover have "j = idx \<longleftrightarrow> j div 32 = idx div 32 \<and> j mod 32 = idx mod 32"
    by (metis div_mult_mod_eq)
  ultimately show ?thesis
    using ldt_word_less [OF assms] by (auto simp: ldt_bit_def ldt_mark_def test_mask_bit bit_set_mask nth_list_update)
qed

lemma ldt_bit_marks:
  "bitmap_ok a \<Longrightarrow> \<forall>idx\<in>set js. idx < LDT_ENTRIES \<Longrightarrow>
   ldt_bit (fold ldt_mark js a) j = (j \<in> set js \<or> ldt_bit a j)"
  by (induction js arbitrary: a) (auto simp: ldt_bit_mark)

lemma alloc_ldt_Some:
  assumes "bitmap_ok a" "alloc_ldt a = Some (idx, a')"
  shows "16 \<le> idx" "idx < LDT_ENTRIES" "\<not> ldt_bit a idx" "bitmap_ok a'"
    "ldt_bit a' j = (j = idx \<or> ldt_bit a j)"
proof -
  have f: "find (\<lambda>idx. \<not> ldt_bit a idx) [16..<LDT_ENTRIES] = Some idx" and a': "a' = ldt_mark idx a"
    using assms(2) by (auto simp: alloc_ldt_def)
  obtain i where i: "i < length [16..<LDT_ENTRIES]" "\<not> ldt_bit a ([16..<LDT_ENTRIES] ! i)"
    "idx = [16..<LDT_ENTRIES] ! i"
    using f unfolding find_Some_iff by blast
  then show idx: "16 \<le> idx" "idx < LDT_ENTRIES" "\<not> ldt_bit a idx" by auto
  show "bitmap_ok a'" "ldt_bit a' j = (j = idx \<or> ldt_bit a j)"
    using a' assms(1) ldt_bit_mark [OF assms(1) idx(2)] by auto
qed

lemma alloc_ldt_range_Some:
  assumes "bitmap_ok a" "alloc_ldt_range a n = Some (first, a')"
  shows "16 \<le> first" "first + n \<le> LDT_ENTRIES" "0 < n" "\<forall>j. first \<le> j \<and> j < first + n \<longrightarrow> \<not> ldt_bit a j"
    "bitmap_ok a'" "ldt_bit a' j = (first \<le> j \<and> j < first + n \<or> ldt_bit a j)"
proof -
  let ?P = "\<lambda>first. \<forall>idx\<in>set [first..<first + n]. \<not> ldt_bit a idx" and ?xs = "[16..<Suc (LDT_ENTRIES - n)]"
  have n: "0 < n" "n < LDT_ENTRIES" and f: "find ?P ?xs = Some first" and a': "a' = fold ldt_mark [first..<first + n] a"
    using assms(2) by (auto simp: alloc_ldt_range_def simp del: upt_Suc split: if_splits)
  obtain i where i: "i < length ?xs" "?P (?xs ! i)" "first = ?xs ! i"
    using f unfolding find_Some_iff by blast
  then have first: "first \<in> set ?xs" by (simp only: nth_mem)
  then show bounds: "16 \<le> first" "first + n \<le> LDT_ENTRIES" "0 < n"
    using n by (auto simp del: upt_Suc)
  show "\<forall>j. first \<le> j \<and> j < first + n \<longrightarrow> \<not> ldt_bit a j" using i(2,3) by simp
  show "bitmap_ok a'" using assms(1) a' by simp
  show "ldt_bit a' j = (first \<le> j \<and> j < first + n \<or> ldt_bit a j)"
    using ldt_bit_marks [OF assms(1), of "[first..<first + n]" j] bounds by (auto simp: a')
qed

end
