(* ===== verification/Dpmi.thy ===== *)
theory Dpmi
  imports Ldt
begin

text \<open>
  The DPMI services of INT 31h (\<^verbatim>\<open>kernel/src/kernel/dos/dpmi/mod.rs\<close>, \<^verbatim>\<open>dpmi_api_inner\<close>): descriptors,
  interrupt and exception vectors, real-mode callback addresses, memory blocks and the information
  calls, together with the entry into protected mode (\<^verbatim>\<open>dpmi_enter\<close>) and the program segment prefix
  selectors of \<^verbatim>\<open>dpmi/psp.rs\<close>.  One definition per service, composed by the dispatcher.  Not modelled: the
  DOS memory services (0100h to 0102h), the calls into real mode (0300h to 0302h), physical mapping
  (0800h, 0801h) and the traces; on those the dispatcher returns \<open>None\<close>.  The fields of
  \<^verbatim>\<open>DpmiState\<close> only they or the exception dispatcher use are left out of the record.

  The lemmas show that no sequence of services puts a system or inner-ring descriptor into the
  table, and where the memory-block services keep blocks apart.
\<close>

section \<open>State\<close>

definition MAX_CALLBACKS :: nat where "MAX_CALLBACKS = 16"

record mem_block =
  mb_base :: u32
  mb_size :: u32

record psp_cache_entry =
  pc_segment :: u16
  pc_selector :: u16

record dpmi_state =
  mem_blocks :: "mem_block option list"
  mem_next :: u32
  exc_vectors :: "(u16 \<times> u32) list"
  pm_exc_vectors :: "(u16 \<times> u32) list"
  rm_exc_vectors :: "(u16 \<times> u32) list"
  callbacks :: "(u16 \<times> u32 \<times> u16 \<times> u32) option list"
  client_use32 :: bool
  saved_rm_psp :: u16
  saved_rm_env :: u16
  env_ldt_idx :: nat
  psp_cache :: "psp_cache_entry list"

text \<open>The part of \<^verbatim>\<open>DosState\<close> and of the guest the services work on.\<close>

record dpmi_world =
  ldt :: "u64 list"
  ldt_alloc :: "u32 list"
  pm_vectors :: "(u16 \<times> u32) list"
  dpmi :: "dpmi_state option"
  dpmi_mem_next :: u32
  pm_dos :: bool
  current_psp :: u16
  guest_mem :: guest



section \<open>Register access\<close>

definition set_carry :: "regs \<Rightarrow> regs" where "set_carry r = set_flag32 1 r"
definition clear_carry :: "regs \<Rightarrow> regs" where "clear_carry r = clear_flag32 1 r"

definition reg_pair :: "u64 \<Rightarrow> u64 \<Rightarrow> u32" where
  "reg_pair hi lo = push_bit 16 (ucast hi AND 0xFFFF) OR (ucast lo AND 0xFFFF)"

definition hi16 :: "u32 \<Rightarrow> u16" where "hi16 v = ucast (drop_bit 16 v AND 0xFFFF)"
definition lo16 :: "u32 \<Rightarrow> u16" where "lo16 v = ucast (v AND 0xFFFF)"


type_synonym service = "dpmi_state \<Rightarrow> regs \<times> dpmi_world \<Rightarrow> regs \<times> dpmi_world"

section \<open>Descriptor services\<close>









definition set_rights :: "u8 \<Rightarrow> u8 \<Rightarrow> u64 \<Rightarrow> u64" where
  "set_rights cl ch desc =
     (desc AND NOT 0x00F0FF0000000000)
     OR push_bit 40 (ucast (0x10 OR client_dpl cl))
     OR push_bit 48 (ucast (ch AND 0xD0))"




definition force_client :: "u64 \<Rightarrow> u64" where
  "force_client desc =
     (let desc = set_mask desc 44;
          acc = client_dpl (ucast (drop_bit 40 desc))
      in (desc AND NOT (push_bit 40 0xFF)) OR push_bit 40 (ucast acc))"


section \<open>Vectors\<close>















section \<open>Stub addresses and real-mode callbacks\<close>

definition STUB_BASE :: u32 where "STUB_BASE = 0x500"
definition SLOT_CB_ENTRY_BASE :: u8 where "SLOT_CB_ENTRY_BASE = 0x04"
definition SLOT_CB_ENTRY_END :: u8 where "SLOT_CB_ENTRY_END = 0x13"


definition slot_offset :: "u8 \<Rightarrow> u16" where "slot_offset slot = ucast slot * 2"
definition ctrl_slot_off :: "u8 \<Rightarrow> u16" where "ctrl_slot_off slot = ucast STUB_BASE + slot_offset slot"





definition svc_0304 :: service where
  "svc_0304 d = (\<lambda>(r, w).
     let off = word16 (rdx r); cb_base = ctrl_slot_off SLOT_CB_ENTRY_BASE; cb_end = ctrl_slot_off SLOT_CB_ENTRY_END
     in if cb_base \<le> off \<and> off < cb_end
        then let idx = unat ((off - cb_base) div 2)
             in (clear_carry r, w\<lparr>dpmi := Some (d\<lparr>callbacks := (callbacks d)[idx := None]\<rparr>)\<rparr>)
        else (set_carry r, w))"



section \<open>Information\<close>







section \<open>Memory blocks\<close>

definition page_up :: "u32 \<Rightarrow> u32" where "page_up s = (s + 0xFFF) AND NOT 0xFFF"

definition return_block :: "u32 \<Rightarrow> regs \<Rightarrow> regs" where
  "return_block base r = clear_carry (r\<lparr>rbx := set16 (hi16 base) (rbx r), rcx := set16 (lo16 base) (rcx r),
     rsi := set16 (hi16 base) (rsi r), rdi := set16 (lo16 base) (rdi r)\<rparr>)"


definition find_block :: "u32 \<Rightarrow> mem_block option list \<Rightarrow> nat option" where
  "find_block handle bs =
     find (\<lambda>i. case bs ! i of Some b \<Rightarrow> mb_base b = handle | None \<Rightarrow> False) [0..<length bs]"


definition svc_0503 :: service where
  "svc_0503 d = (\<lambda>(r, w).
     let new_size = reg_pair (rbx r) (rcx r); handle = reg_pair (rsi r) (rdi r); aligned = page_up new_size
     in case find_block handle (mem_blocks d) of
          None \<Rightarrow> (set_carry r, w)
        | Some i \<Rightarrow>
            let stop = handle + aligned;
                d = (if mem_next d < stop then d\<lparr>mem_next := stop\<rparr> else d)
            in (return_block handle r,
                w\<lparr>dpmi_mem_next := max (dpmi_mem_next w) (mem_next d),
                  dpmi := Some (d\<lparr>mem_blocks := (mem_blocks d)[i := Some \<lparr>mb_base = handle, mb_size = aligned\<rparr>]\<rparr>)\<rparr>))"

section \<open>Virtual interrupt state and the rest\<close>









section \<open>The dispatcher\<close>





section \<open>Program segment prefixes and the entry into protected mode\<close>



definition psp_sel_to_segment :: "dpmi_world \<Rightarrow> u16 \<Rightarrow> u16 option" where
  "psp_sel_to_segment w selector =
     (case dpmi w of
        None \<Rightarrow> None
      | Some d \<Rightarrow>
          map_option pc_segment (find (\<lambda>e. pc_selector e \<noteq> 0 \<and> pc_selector e = selector) (psp_cache d)))"




section \<open>The histories of a descriptor table\<close>



section \<open>Every service keeps the table safe\<close>

lemma desc_safe_set_rights [simp]: "desc_safe (set_rights cl ch d)"
  unfolding desc_safe_def set_rights_def client_dpl_def
  by (simp add: bit_simps)

lemma desc_safe_force_client [simp]: "desc_safe (force_client d)"
  unfolding desc_safe_def force_client_def client_dpl_def Let_def
  by (simp add: bit_simps bit_set_mask)

lemma desc_safe_alias [simp]: "desc_safe d \<Longrightarrow> desc_safe (set_mask (clear_mask d 43) 41)"
  by (simp add: desc_safe_def bit_set_mask bit_clear_mask)

definition ldt_safe :: "u64 list \<Rightarrow> bool" where
  "ldt_safe t \<longleftrightarrow> list_all desc_safe t"


lemma ldt_safe_empty [simp]: "ldt_safe (replicate n 0)"
  by (simp add: ldt_safe_def list_all_length)

lemma ldt_safe_update [simp]: "ldt_safe t \<Longrightarrow> desc_safe d \<Longrightarrow> ldt_safe (t[i := d])"
  by (auto simp: ldt_safe_def list_all_iff dest: set_update_subset_insert [THEN subsetD])

lemma ldt_safe_fold [simp]:
  "ldt_safe t \<Longrightarrow> desc_safe d \<Longrightarrow> ldt_safe (fold (\<lambda>i t. t[i := d]) is t)"
  by (induction "is" arbitrary: t) auto

lemma fold_update_length [simp]: "length (fold (\<lambda>i t. t[i := f i]) is t) = length t"
  by (induction "is" arbitrary: t) auto

definition world_ok :: "dpmi_world \<Rightarrow> bool" where
  "world_ok w \<longleftrightarrow> length (ldt w) = LDT_ENTRIES \<and> bitmap_ok (ldt_alloc w) \<and> ldt_safe (ldt w)"



text \<open>The tables a world carries are all that matters to the invariant.\<close>

lemma world_ok_frame [simp]:
  "world_ok (w\<lparr>guest_mem := g\<rparr>) = world_ok w" "world_ok (w\<lparr>dpmi := d\<rparr>) = world_ok w"
  "world_ok (w\<lparr>pm_vectors := v\<rparr>) = world_ok w" "world_ok (w\<lparr>dpmi_mem_next := n\<rparr>) = world_ok w"
  "world_ok (w\<lparr>current_psp := p\<rparr>) = world_ok w" "world_ok (w\<lparr>pm_dos := b\<rparr>) = world_ok w"
  by (simp_all add: world_ok_def)

lemma world_ok_set [simp]: "world_ok w \<Longrightarrow> desc_safe d \<Longrightarrow> world_ok (w\<lparr>ldt := (ldt w)[i := d]\<rparr>)"
  by (simp add: world_ok_def)

lemma world_ok_alloc [simp]:
  "world_ok w \<Longrightarrow> alloc_ldt (ldt_alloc w) = Some (i, a) \<Longrightarrow> desc_safe d \<Longrightarrow>
   world_ok (w\<lparr>ldt_alloc := a, ldt := (ldt w)[j := d]\<rparr>)"
  by (auto simp: world_ok_def alloc_ldt_def)

lemma world_ok_alloc_range [simp]:
  "world_ok w \<Longrightarrow> alloc_ldt_range (ldt_alloc w) n = Some (i, a) \<Longrightarrow> desc_safe d \<Longrightarrow>
   world_ok (w\<lparr>ldt_alloc := a, ldt := fold (\<lambda>i t. t[i := d]) is (ldt w)\<rparr>)"
  by (auto simp: world_ok_def alloc_ldt_range_def split: if_splits)

lemma world_ok_free [simp]:
  "world_ok w \<Longrightarrow> free_ldt i (ldt w, ldt_alloc w) = (t, a) \<Longrightarrow> world_ok (w\<lparr>ldt := t, ldt_alloc := a\<rparr>)"
  by (auto simp: world_ok_def free_ldt_def split: if_splits)















section \<open>Memory blocks\<close>

definition block_span :: "mem_block \<Rightarrow> nat set" where
  "block_span b = {unat (mb_base b)..<unat (mb_base b) + unat (mb_size b)}"

definition holds :: "dpmi_state \<Rightarrow> nat \<Rightarrow> mem_block \<Rightarrow> bool" where
  "holds d i b \<longleftrightarrow> i < length (mem_blocks d) \<and> mem_blocks d ! i = Some b"

text \<open>The blocks a client holds lie below the break and are apart.\<close>

definition blocks_ok :: "dpmi_state \<Rightarrow> bool" where
  "blocks_ok d \<longleftrightarrow>
     (\<forall>i b. holds d i b \<longrightarrow> unat (mb_base b) + unat (mb_size b) \<le> unat (mem_next d)) \<and>
     (\<forall>i b j c. holds d i b \<longrightarrow> holds d j c \<longrightarrow> i \<noteq> j \<longrightarrow> block_span b \<inter> block_span c = {})"




lemma reg_pair_set16 [simp]: "reg_pair (set16 (hi16 v) x) (set16 (lo16 v) y) = v"
  unfolding reg_pair_def hi16_def lo16_def set16_mask desc_masks(3)
  by (rule bit_word_eqI) (auto simp: bit_simps)


lemma holds_update:
  "holds (d\<lparr>mem_next := n, mem_blocks := (mem_blocks d)[i := x]\<rparr>) j b \<longleftrightarrow>
     j < length (mem_blocks d) \<and> (if j = i then x = Some b else holds d j b)"
  by (auto simp: holds_def)


lemma blocks_ok_free: "blocks_ok d \<Longrightarrow> blocks_ok (d\<lparr>mem_blocks := (mem_blocks d)[i := None]\<rparr>)"
  using holds_update [where d = d and n = "mem_next d" and i = i and x = None] unfolding blocks_ok_def disjoint_iff
  by (simp add: if_bool_eq_conj) blast



text \<open>
  Resizing (service 0503h) looks at no other block.  A client that holds two pages one after the
  other and asks for the first to become two pages long is told it succeeded, and its blocks overlap.
\<close>

lemma resize_overlaps:
  assumes "mem_blocks d = [Some \<lparr>mb_base = 0x500000, mb_size = 0x1000\<rparr>, Some \<lparr>mb_base = 0x501000, mb_size = 0x1000\<rparr>]"
    and "mem_next d = 0x502000"
  shows "blocks_ok d"
    and "\<exists>d'. dpmi (snd (svc_0503 d (regs_empty\<lparr>rcx := 0x2000, rsi := 0x50\<rparr>, w))) = Some d' \<and> \<not> blocks_ok d'"
proof -
  have two: "n < Suc (Suc 0) \<longleftrightarrow> n = 0 \<or> n = 1" for n by auto
  show "blocks_ok d"
    using assms by (auto simp: blocks_ok_def holds_def two block_span_def)
  have "reg_pair 0 0x2000 = 0x2000" "reg_pair 0x50 0 = 0x500000" "page_up 0x2000 = 0x2000"
    by (simp_all add: reg_pair_def page_up_def push_bit_eq_mult)
  moreover have "find_block 0x500000 (mem_blocks d) = Some 0" using assms by (simp add: find_block_def)
  ultimately obtain d' where
    d': "dpmi (snd (svc_0503 d (regs_empty\<lparr>rcx := 0x2000, rsi := 0x50\<rparr>, w))) = Some d'"
    and "holds d' 0 \<lparr>mb_base = 0x500000, mb_size = 0x2000\<rparr>" "holds d' 1 \<lparr>mb_base = 0x501000, mb_size = 0x1000\<rparr>"
    using assms by (simp add: svc_0503_def regs_empty_def holds_def Let_def)
  then have "\<not> blocks_ok d'"
    unfolding blocks_ok_def by (force simp: block_span_def)
  with d' show "\<exists>d'. dpmi (snd (svc_0503 d (regs_empty\<lparr>rcx := 0x2000, rsi := 0x50\<rparr>, w))) = Some d' \<and> \<not> blocks_ok d'"
    by blast
qed

text \<open>
  The table of callbacks has sixteen entries, the range of stub slots fifteen: the address handed
  out for the last entry is refused when the client returns it.
\<close>

lemma last_callback_not_freeable:
  "word16 (rdx r) = ctrl_slot_off (SLOT_CB_ENTRY_BASE + of_nat (MAX_CALLBACKS - 1)) \<Longrightarrow>
   svc_0304 d (r, w) = (set_carry r, w)"
  by (simp add: svc_0304_def ctrl_slot_off_def slot_offset_def STUB_BASE_def SLOT_CB_ENTRY_BASE_def SLOT_CB_ENTRY_END_def
      MAX_CALLBACKS_def)

end
