(* ===== verification/Spec2Isabelle.thy ===== *)
theory Spec2Isabelle
  imports Elf Dfs Terminal KPipe Machine Vdma Xms Ems BootDisk Heap PhysMM Dpmi
begin

text \<open>
  A verification library of the machine-independent core of RetroOS, a kernel that runs DOS
  programs on a virtual PC. The sources are Rust under \<^verbatim>\<open>src/\<close>; the model is a shallow embedding, one
  definition per function, in the order of the source files.

  \<^bold>\<open>The program.\<close> A DOS guest runs in VM86 or protected mode. Its port accesses reach a virtual system board
  (timer, clock chip, keyboard controller, interrupt and DMA controllers); its calls reach memory managers
  (XMS, UMB, EMS) and a DPMI host. Below are the kernel's own allocators (heap, physical pages), its pipes,
  and the block layer that turns a boot module into a mounted disk: module, overlay, volume,
  cache, with partition tables on top. DOS path names are resolved against drives and current directories and
  mapped to the file system layer through a cache of 8.3 aliases. Output goes to a text terminal, a log
  ring and a debug sink. Linux programs are loaded from ELF files.

  \<^bold>\<open>Conventions.\<close> The kernel is built for i686 with optimisation on: \<open>usize\<close> is 32 bits and plain
  arithmetic wraps, as \<open>word\<close> arithmetic does. A struct is a record, a panic or a failed
  assertion is \<open>None\<close>, mutation is state passing. The saturating and checked operations of the standard
  library are in Prelude, its ordered map in OrdMap. Traces and debug output are left out.

  \<^bold>\<open>Theories.\<close>
  \<^item> Prelude, OrdMap: shared vocabulary; the collections \<open>rust_arith\<close> and \<open>bit_tests\<close>.
  \<^item> Fifo, Pipe, KPipe (\<^verbatim>\<open>lib/src/pipe.rs\<close>, \<^verbatim>\<open>kernel/src/kernel/kpipe.rs\<close>): locale \<open>fifo\<close> and its two
    overflow policies; the ring refines a queue, the pool round-trips bytes, is panic-free and allocates exactly.
  \<^item> Vkbd, Vpic, NsClock, Vpit, Vrtc, Vdma (\<^verbatim>\<open>kernel/src/kernel/dos/machine/v*.rs\<close>): delivery of every key once
    and in order; priority, nesting and draining of interrupts; exact tick counts through the locale
    \<open>ns_clock\<close>; programming and decoding of DMA channels.
  \<^item> Machine (\<^verbatim>\<open>machine/mod.rs\<close>): the board that composes them, the flags views, the choice of an interrupt
    on every branch. The property of this theory relates the whole to the keyboard protocol \<open>kbd_spec\<close>.
  \<^item> Guest (\<^verbatim>\<open>arch-abi/src/lib.rs\<close>, \<^verbatim>\<open>arch-metal/src/vcpu.rs\<close>, \<^verbatim>\<open>paging2.rs\<close>): registers and guest memory.
  \<^item> Umb, Xms, Ems (\<^verbatim>\<open>dos/xms.rs\<close>, \<^verbatim>\<open>dos/ems.rs\<close>): exact success conditions, disjoint blocks, exact
    moves, preserved page contents, and the inputs on which the drivers fail.
  \<^item> Ldt, Dpmi (\<^verbatim>\<open>dos/dpmi/\<close>): descriptors, their allocation, the services of INT 31h and the entry into
    protected mode; no history installs a privileged descriptor, and an allocated block overlaps none.
  \<^item> Heap, PhysMM (\<^verbatim>\<open>lib/src/heap.rs\<close>, \<^verbatim>\<open>arch-metal/src/phys_mm.rs\<close>): allocations never overlap; counts equal references.
  \<^item> Cmdline, Multiboot (\<^verbatim>\<open>arch-abi/src/cmdline.rs\<close>, \<^verbatim>\<open>kernel/src/multiboot.rs\<close>): scanners equal plain
    splittings; whatever the loader supplies, captured modules are well-formed.
  \<^item> Block, Overlay, Cache, Partition, BootDisk (\<^verbatim>\<open>kernel/src/kernel/block/\<close>): locales \<open>disk_reader\<close> and
    \<open>disk_writer\<close> state what a disk promises over a flat array of bytes; module, overlay, volume and
    cache are interpreted in turn, and the stack refines the flat array.
  \<^item> DosPath, DosNames, Dfs (\<^verbatim>\<open>dos/dfs.rs\<close>, \<^verbatim>\<open>mount_child\<close> of \<^verbatim>\<open>vfs.rs\<close>): resolution in the path buffer equals
    resolution on lists of components and is stable on its results; aliases are well-formed and numbered ones
    new; the alias cache is transparent; a path is mapped by walking its components; a change of
    directory is seen by relative names.
  \<^item> Klog, Terminal (\<^verbatim>\<open>klog/src/lib.rs\<close>, \<^verbatim>\<open>lib/src/term.rs\<close>, \<^verbatim>\<open>lib/src/log.rs\<close>): the ring keeps whole lines and refines a log with
    snapshots; the screen is the end of a transcript of everything printed, and video memory mirrors it.
  \<^item> Elf (\<^verbatim>\<open>lib/src/elf.rs\<close>, \<^verbatim>\<open>kernel/src/kernel/elf.rs\<close>): reading the program headers equals reading a plain table when no
    offset wraps, and fails on files where one does; the locale \<open>user_memory\<close> states what the loader needs of a machine, and on the
    bare-metal copy loops the loaded image and the requested permissions are exact.

  \<^bold>\<open>Loops and fuel.\<close> Loops are structural or have a measure, with three exceptions. The key scans of Vkbd run on
  32 units of fuel, enough since a well-formed ring holds at most 31 bytes (\<open>pop_key_loop_spec\<close>). The
  timer's loop in Vpit and the page search in PhysMM are partial functions; \<open>irq_loop_periodic\<close> shows
  the first returns unless the cycle counter has saturated, which takes more than \<open>2 ^ 28\<close> events of the
  board, and \<open>alloc_search_spec\<close> shows the second returns from every reachable cursor.

  \<^bold>\<open>Assumptions.\<close> Slices are shorter than \<open>2 ^ 31\<close> bytes, as the language guarantees. In Guest no frame is mapped
  twice. Polls of the timers in the tick-count properties are at most \<open>MAX_GAP\<close> apart. The host
  stack's address in Ldt and the zero page's in PhysMM are arguments. What the file system layer lists is an argument of
  DosNames and Dfs, a function of the layer's directory generation.

  \<^bold>\<open>Not modelled.\<close> The DOS and BIOS services, the file systems above the block layer, the Linux, OS/2 and
  Windows personalities, and start-up: each works on the whole kernel state at once. Of ELF files, the symbol
  tables, which only backtraces use. Of the DPMI host, the
  DOS memory services, calls into real mode, physical mappings and exception dispatch; of the
  board, the mouse, the audio pump and the video, sound and PCI ports. Video, sound and 3D rendering, device drivers and the CPU
  backends: pixels, samples, device registers and privileged instructions.
\<close>

section \<open>The keyboard across the board\<close>

text \<open>
  C1. The keyboard controller, the interrupt controllers and the delivery loop together keep to
  the keyboard protocol.  Over any sequence of host keys, clock polls at any times, guest accesses to
  the system-board ports, requests on other lines and delivery polls from power-on, fewer than
  \<open>2 ^ 28\<close> of them, the board answers every one of them, and: a byte appears at port 60h only when the port is empty and the
  handler of interrupt 9 is not running; interrupt 9 is delivered only while a byte waits and at most once for each
  byte; the guest takes the byte that appeared; and a byte that waits and was not announced has
  its request standing in the controller.
\<close>

theorem keyboard_protocol_refined:
  assumes "list_all board_event evs" and "length evs < 2 ^ 28"
  shows "\<exists>as m. pc_run evs (pc_new now) = Some (as, m) \<and> kbd_spec_run as (Empty, False) = Some (kbd_phase_of m)"
proof -
  have "cycles (pc_new now) + length evs * 2 ^ 35 < 2 ^ 64 - 1"
    using assms(2) by (simp add: cycles_def pc_new_def vpit_new_def)
  then obtain as m where run: "pc_run evs (pc_new now) = Some (as, m)"
    using pc_run_total [OF assms(1)] by blast
  moreover have "kbd_phase_of (pc_new now) = (Empty, False)"
    by (simp add: kbd_phase_of_def pc_new_def has_data_def vkbd_new_def in_service_def vpic_new_def pic8259_new_def test_mask_bit)
  ultimately show ?thesis using pc_run_spec [OF run] by simp
qed

text \<open>With the timer's line masked a key is pressed, announced, read and acknowledged.\<close>

theorem keyboard_protocol_refined_witness:
  "\<exists>m. pc_run [Out 0 0x21 1, Key 0x1E, Tick 2000000, Poll (regs_empty\<lparr>iframe := (iframe regs_empty)\<lparr>rflags := 0x80000\<rparr>\<rparr>),
       In 2000000 0x60, Out 2000000 0x20 0x20] (pc_new 0) = Some ([Up 0x1E, Int9, Take 0x1E, Done], m) \<and>
     kbd_spec_run [Up 0x1E, Int9, Take 0x1E, Done] (Empty, False) = Some (kbd_phase_of m)"
proof -
  let ?evs = "[Out 0 0x21 1, Key 0x1E, Tick 2000000, Poll (regs_empty\<lparr>iframe := (iframe regs_empty)\<lparr>rflags := 0x80000\<rparr>\<rparr>),
       In 2000000 0x60, Out 2000000 0x20 0x20]"
  have "map_option fst (pc_run ?evs (pc_new 0)) = Some [Up 0x1E, Int9, Take 0x1E, Done]" by code_simp
  moreover have "list_all board_event ?evs" "length ?evs < 2 ^ 28" by (simp_all add: board_port_def)
  note keyboard_protocol_refined [OF this, of 0]
  ultimately show ?thesis by auto
qed

end
